(* ===== verification/Raphael_Prelude.thy ===== *)
theory Raphael_Prelude
  imports Main "HOL-Library.Word"
begin

text \<open>
  Shared vocabulary of the development: the machine integer types of the C and C++ sources, the
  faults an execution can run into, pointer chains through a \<open>next\<close> field, and the facts
  about lists, chains and words that the component theories use.
\<close>

unbundle bit_operations_syntax

section \<open>Machine integers\<close>

type_synonym u8 = "8 word"
type_synonym u16 = "16 word"
type_synonym u32 = "32 word"
type_synonym u64 = "64 word"

section \<open>Faults\<close>

text \<open>
  What the sources leave to the machine when they go wrong: an access outside an array, a
  dereferenced null pointer, an access to unmapped memory, a loop that never returns, a shift by the
  width of the type or more, a division by zero, a block freed that is not
  allocated. An operation that can do so returns
  \<open>Inl\<close> of the fault.
\<close>

datatype fault = Array_Overflow | Null_Deref | No_Return | Wild_Access | Bad_Shift | Div_Zero | Double_Free

type_synonym 'a res = "fault + 'a"

definition res_bind :: "'a res \<Rightarrow> ('a \<Rightarrow> 'b res) \<Rightarrow> 'b res" where
  "res_bind r f = (case r of Inl e \<Rightarrow> Inl e | Inr x \<Rightarrow> f x)"

lemma res_bind_simps [simp]:
  "res_bind (Inl e) f = Inl e" "res_bind (Inr x) f = f x"
  by (simp_all add: res_bind_def)

lemma res_bind_Inr_iff: "res_bind r f = Inr y \<longleftrightarrow> (\<exists>x. r = Inr x \<and> f x = Inr y)"
  by (cases r) auto

section \<open>Collections of rewrite rules\<close>

named_theorems rep_simps "unfolding of the representation predicates"

section \<open>Lists\<close>

fun del_first :: "('a \<Rightarrow> bool) \<Rightarrow> 'a list \<Rightarrow> 'a list" where
  "del_first P [] = []"
| "del_first P (x # xs) = (if P x then xs else x # del_first P xs)"

lemma del_first_id [simp]: "\<forall>x\<in>set xs. \<not> P x \<Longrightarrow> del_first P xs = xs"
  by (induction xs) auto

lemma set_del_first_subset: "set (del_first P xs) \<subseteq> set xs"
  by (induction xs) auto

lemma del_first_append:
  "\<forall>x\<in>set xs. \<not> P x \<Longrightarrow> P y \<Longrightarrow> del_first P (xs @ y # ys) = xs @ ys"
  by (induction xs) auto

lemma filter_del_first [simp]: "filter P (del_first P xs) = tl (filter P xs)"
  by (induction xs) auto

lemma filter_del_first_other: "\<forall>x. Q x \<longrightarrow> \<not> P x \<Longrightarrow> filter Q (del_first P xs) = filter Q xs"
  by (induction xs) auto

lemma split_at_first:
  assumes "\<exists>x\<in>set xs. P x"
  obtains ys y zs where "xs = ys @ y # zs" "\<forall>x\<in>set ys. \<not> P x" "P y"
  using split_list_first_prop [OF assms] that by blast

lemma concat_single:
  assumes "k < n" and "\<And>i. i < n \<Longrightarrow> i \<noteq> k \<Longrightarrow> f i = []"
  shows "concat (map f [0..<n]) = f k"
proof -
  have "[0..<n] = [0..<k] @ k # [Suc k..<n]"
    using assms(1) by (metis le_add_same_cancel1 less_imp_le_nat upt_add_eq_append upt_conv_Cons
        add_diff_inverse_nat zero_le not_less)
  moreover have "concat (map f [0..<k]) = []" "concat (map f [Suc k..<n]) = []"
    using assms by auto
  ultimately show ?thesis by (simp only: list.map map_append concat_append concat.simps append_Nil append_Nil2)
qed

lemma UN_upd_Cons: "(\<Union>h. set ((bs(k := x # bs k)) h)) = insert x (\<Union>h. set (bs h))"
proof (intro equalityI subsetI)
  fix y assume "y \<in> insert x (\<Union>h. set (bs h))"
  then consider "y = x" | h where "y \<in> set (bs h)" by blast
  then show "y \<in> (\<Union>h. set ((bs(k := x # bs k)) h))"
  proof cases
    case 1
    then show ?thesis by (intro UN_I [of k]) auto
  next
    case 2
    then show ?thesis by (intro UN_I [of h]) auto
  qed
qed (auto split: if_splits)

section \<open>Chains of pointers\<close>

text \<open>
  \<open>linked nx p xs\<close>: following \<open>nx\<close> from the pointer \<open>p\<close> visits exactly the nodes \<open>xs\<close> and
  ends in a null pointer. \<open>walk n nx p\<close> computes that list, looking at \<open>n\<close> nodes at most.
\<close>

primrec linked :: "('p \<Rightarrow> 'p option) \<Rightarrow> 'p option \<Rightarrow> 'p list \<Rightarrow> bool" where
  "linked nx p [] \<longleftrightarrow> p = None"
| "linked nx p (x # xs) \<longleftrightarrow> p = Some x \<and> linked nx (nx x) xs"

fun walk :: "nat \<Rightarrow> ('p \<Rightarrow> 'p option) \<Rightarrow> 'p option \<Rightarrow> 'p list" where
  "walk 0 nx p = []"
| "walk (Suc n) nx None = []"
| "walk (Suc n) nx (Some x) = x # walk n nx (nx x)"

lemma linked_None [simp]: "linked nx None xs \<longleftrightarrow> xs = []"
  by (cases xs) auto

lemma linked_Some: "linked nx (Some x) xs \<longleftrightarrow> (\<exists>ys. xs = x # ys \<and> linked nx (nx x) ys)"
  by (cases xs) auto

lemma linked_unique: "linked nx p xs \<Longrightarrow> linked nx p ys \<Longrightarrow> xs = ys"
  by (induction xs arbitrary: p ys) (auto simp: linked_Some)

lemma linked_suffix: "linked nx p (xs @ y # ys) \<Longrightarrow> linked nx (nx y) ys"
  by (induction xs arbitrary: p) auto

lemma linked_distinct: "linked nx p xs \<Longrightarrow> distinct xs"
proof (induction xs arbitrary: p)
  case Nil
  then show ?case by simp
next
  case (Cons x xs)
  then have tail: "linked nx (nx x) xs" and "distinct xs" by auto
  moreover have "x \<notin> set xs"
  proof
    assume "x \<in> set xs"
    then obtain ys zs where xs: "xs = ys @ x # zs" by (meson split_list)
    with tail have "linked nx (nx x) zs" using linked_suffix by fastforce
    with tail have "xs = zs" by (rule linked_unique)
    with xs show False by simp
  qed
  ultimately show ?case by simp
qed

lemma linked_head_fresh: "linked nx (nx x) xs \<Longrightarrow> x \<notin> set xs"
  using linked_distinct [of nx "Some x" "x # xs"] by simp

lemma linked_cong: "(\<And>x. x \<in> set xs \<Longrightarrow> nx x = nx' x) \<Longrightarrow> linked nx p xs = linked nx' p xs"
  by (induction xs arbitrary: p) auto

lemma linked_skip: "y \<notin> set xs \<Longrightarrow> linked (nx(y := q)) p xs = linked nx p xs"
  by (rule linked_cong) auto

lemma linked_unlink:
  assumes "linked nx p (xs @ y # z # zs)"
  shows "linked (nx(y := nx z)) p (xs @ y # zs)"
proof -
  from linked_distinct [OF assms] have "y \<notin> set xs" and "y \<notin> set zs" by auto
  with assms show ?thesis
    by (induction xs arbitrary: p) (auto simp: linked_skip)
qed

lemma walk_linked: "linked nx p xs \<Longrightarrow> length xs \<le> n \<Longrightarrow> walk n nx p = xs"
proof (induction xs arbitrary: p n)
  case Nil
  then show ?case by (cases n) auto
next
  case (Cons x xs)
  then show ?case by (cases n) auto
qed

lemma length_le_of_bounded:
  fixes xs :: "nat list"
  assumes "distinct xs" and "set xs \<subseteq> {..<n}"
  shows "length xs \<le> n"
  using assms card_mono [of "{..<n}" "set xs"] by (simp add: distinct_card)

section \<open>Words\<close>

lemma unat_Suc_less:
  fixes w :: "'a::len word"
  assumes "unat w < n" and "n < 2 ^ LENGTH('a)"
  shows "unat (w + 1) = Suc (unat w)"
proof -
  have "Suc (unat w) < 2 ^ LENGTH('a)" using assms by simp
  then show ?thesis by (simp add: unat_word_ariths)
qed

end
