(* ===== verification/Alloc_Pool.thy ===== *)
theory Alloc_Pool
  imports Raphael_Prelude
begin

text \<open>
  The node pool of the leak cache (\<open>cpp/AllocPool.hpp\<close>) and the data it hands out
  (\<open>cpp/Cache.h\<close>), for the arm64 build. A node pointer is the node's index in the array
  \<open>mCache\<close>; a null pointer is \<open>None\<close>. The first part models the three operations run without
  interference. The second part models the compare-and-swap loops themselves, one load or one
  compare-and-swap per step, with any number of threads.
\<close>

section \<open>Data\<close>

definition MAX_TRACE_DEPTH :: nat where "MAX_TRACE_DEPTH = 16"

definition ADDR_HASH_OFFSET :: nat where "ADDR_HASH_OFFSET = 6"

definition ALLOC_CACHE_SIZE :: u64 where "ALLOC_CACHE_SIZE = push_bit 15 1"

record Backtrace =
  bt_depth :: u32
  bt_trace :: "u64 list"

record AllocNode =
  nd_size :: u32
  nd_addr :: u64
  nd_trace :: "u64 list"
  nd_next :: "nat option"

record AllocPool =
  mCache :: "nat \<Rightarrow> AllocNode"
  mCount :: u64
  mIndex :: u32
  mStack :: "nat option"

abbreviation next_of :: "AllocPool \<Rightarrow> nat \<Rightarrow> nat option" where
  "next_of P \<equiv> (\<lambda>p. nd_next (mCache P p))"

section \<open>Operations\<close>

text \<open>
  The constructor allocates the array and leaves its contents, \<open>mIndex\<close> and \<open>mStack\<close>
  uninitialised; the argument \<open>junk\<close> holds what they happen to be.
\<close>

definition AllocPool_new :: "AllocPool \<Rightarrow> u64 \<Rightarrow> AllocPool" where
  "AllocPool_new junk count = junk\<lparr>mCount := count\<rparr>"

definition AllocPool_reset :: "AllocPool \<Rightarrow> AllocPool" where
  "AllocPool_reset P = P\<lparr>mIndex := 0, mStack := None\<rparr>"

definition AllocPool_apply :: "AllocPool \<Rightarrow> nat option \<times> AllocPool" where
  "AllocPool_apply P =
     (case mStack P of
        Some p \<Rightarrow> (Some p, P\<lparr>mStack := next_of P p\<rparr>)
      | None \<Rightarrow>
          (if unat (mIndex P) < unat (mCount P)
           then (Some (unat (mIndex P)), P\<lparr>mIndex := mIndex P + 1\<rparr>)
           else (None, P)))"

definition set_next :: "nat \<Rightarrow> nat option \<Rightarrow> AllocPool \<Rightarrow> AllocPool" where
  "set_next p q P = P\<lparr>mCache := (mCache P)(p := (mCache P p)\<lparr>nd_next := q\<rparr>)\<rparr>"

definition AllocPool_recycle :: "nat \<Rightarrow> AllocPool \<Rightarrow> AllocPool" where
  "AllocPool_recycle p P = (set_next p (mStack P) P)\<lparr>mStack := Some p\<rparr>"

lemma set_next_simps [simp]:
  "mCount (set_next p q P) = mCount P" "mIndex (set_next p q P) = mIndex P"
  "mStack (set_next p q P) = mStack P" "next_of (set_next p q P) = (next_of P)(p := q)"
  "nd_addr (mCache (set_next p q P) x) = nd_addr (mCache P x)"
  "nd_size (mCache (set_next p q P) x) = nd_size (mCache P x)"
  "nd_trace (mCache (set_next p q P) x) = nd_trace (mCache P x)"
  by (auto simp: set_next_def)

lemma next_set_next: "next_of (set_next p q P) x = ((next_of P)(p := q)) x"
  by (simp add: set_next_def)

section \<open>Representation\<close>

text \<open>
  \<open>pool_rep P fs\<close>: the recycled nodes are exactly \<open>fs\<close>, top of the stack first, and every
  node index handed out so far lies below \<open>mIndex\<close>, which has not passed the capacity.
\<close>

definition pool_rep :: "AllocPool \<Rightarrow> nat list \<Rightarrow> bool" where
  [rep_simps]: "pool_rep P fs \<longleftrightarrow>
     linked (next_of P) (mStack P) fs \<and> set fs \<subseteq> {..<unat (mIndex P)} \<and>
     unat (mIndex P) \<le> unat (mCount P) \<and> unat (mCount P) < 2 ^ 32"

definition pool_room :: "AllocPool \<Rightarrow> nat list \<Rightarrow> nat" where
  "pool_room P fs = length fs + (unat (mCount P) - unat (mIndex P))"

lemma reset_rep: "unat (mCount P) < 2 ^ 32 \<Longrightarrow> pool_rep (AllocPool_reset P) []"
  by (simp add: pool_rep_def AllocPool_reset_def)

lemma apply_rep_stack:
  assumes "pool_rep P (p # fs)"
  shows "AllocPool_apply P = (Some p, P\<lparr>mStack := next_of P p\<rparr>)"
    and "pool_rep (snd (AllocPool_apply P)) fs"
  using assms by (auto simp: pool_rep_def AllocPool_apply_def)

lemma apply_rep_fresh:
  assumes "pool_rep P []" and "unat (mIndex P) < unat (mCount P)"
  shows "AllocPool_apply P = (Some (unat (mIndex P)), P\<lparr>mIndex := mIndex P + 1\<rparr>)"
    and "pool_rep (snd (AllocPool_apply P)) []"
    and "unat (mIndex P + 1) = Suc (unat (mIndex P))"
proof -
  show idx: "unat (mIndex P + 1) = Suc (unat (mIndex P))"
    using assms by (intro unat_Suc_less [of _ "unat (mCount P)"]) (auto simp: pool_rep_def)
  show eq: "AllocPool_apply P = (Some (unat (mIndex P)), P\<lparr>mIndex := mIndex P + 1\<rparr>)"
    using assms by (simp add: pool_rep_def AllocPool_apply_def)
  show "pool_rep (snd (AllocPool_apply P)) []"
    using assms idx unfolding eq by (auto simp: pool_rep_def)
qed

lemma apply_rep_full:
  assumes "pool_rep P fs" and "pool_room P fs = 0"
  shows "AllocPool_apply P = (None, P)"
  using assms by (cases fs) (auto simp: pool_rep_def pool_room_def AllocPool_apply_def)

lemma recycle_rep:
  assumes "pool_rep P fs" and "p \<notin> set fs" and "p < unat (mIndex P)"
  shows "pool_rep (AllocPool_recycle p P) (p # fs)"
proof -
  have "next_of (AllocPool_recycle p P) = (next_of P)(p := mStack P)"
    by (auto simp: AllocPool_recycle_def set_next_def)
  then show ?thesis
    using assms by (auto simp: pool_rep_def AllocPool_recycle_def linked_skip)
qed

section \<open>The compare-and-swap loops\<close>

text \<open>
  \<open>apply\<close> and \<open>recycle\<close> are called outside the cache's mutex, so their loops interleave. A
  thread is between calls, or has loaded the stack top into its local \<open>p\<close>, or has also read
  \<open>p->next\<close> and is about to compare-and-swap, or has loaded \<open>mIndex\<close>, or is pushing a node
  whose \<open>next\<close> it has already written. \<open>held\<close> lists the nodes handed out and not yet given
  back. A weak compare-and-swap may fail although the values agree.

  With the flag \<open>calm\<close> set, a push takes effect only while no thread stands between reading
  \<open>p->next\<close> and its compare-and-swap; the code gives no such guarantee and is the relation
  with the flag off.
\<close>

datatype pool_pc =
    Idle
  | Apply_Loaded "nat option"
  | Apply_Window nat "nat option"
  | Apply_Index u32
  | Recycle_Linked nat

record pool_sys =
  shared :: AllocPool
  tpc :: "nat \<Rightarrow> pool_pc"
  held :: "nat list"

definition in_window :: "pool_pc \<Rightarrow> bool" where
  "in_window c \<longleftrightarrow> (case c of Apply_Window _ _ \<Rightarrow> True | _ \<Rightarrow> False)"

abbreviation goto :: "nat \<Rightarrow> pool_pc \<Rightarrow> pool_sys \<Rightarrow> pool_sys" where
  "goto t c s \<equiv> s\<lparr>tpc := (tpc s)(t := c)\<rparr>"

inductive pool_step :: "bool \<Rightarrow> pool_sys \<Rightarrow> pool_sys \<Rightarrow> bool" for calm :: bool where
  load_top: "tpc s t = Idle \<Longrightarrow>
     pool_step calm s (goto t (Apply_Loaded (mStack (shared s))) s)"
| read_next: "tpc s t = Apply_Loaded (Some p) \<Longrightarrow>
     pool_step calm s (goto t (Apply_Window p (next_of (shared s) p)) s)"
| pop_ok: "tpc s t = Apply_Window p n \<Longrightarrow> mStack (shared s) = Some p \<Longrightarrow>
     pool_step calm s (goto t Idle s\<lparr>shared := (shared s)\<lparr>mStack := n\<rparr>, held := p # held s\<rparr>)"
| pop_fail: "tpc s t = Apply_Window p n \<Longrightarrow>
     pool_step calm s (goto t (Apply_Loaded (mStack (shared s))) s)"
| load_index: "tpc s t = Apply_Loaded None \<Longrightarrow>
     pool_step calm s (goto t (Apply_Index (mIndex (shared s))) s)"
| take_ok: "tpc s t = Apply_Index i \<Longrightarrow> unat i < unat (mCount (shared s)) \<Longrightarrow>
     mIndex (shared s) = i \<Longrightarrow>
     pool_step calm s
       (goto t Idle s\<lparr>shared := (shared s)\<lparr>mIndex := i + 1\<rparr>, held := unat i # held s\<rparr>)"
| take_fail: "tpc s t = Apply_Index i \<Longrightarrow> unat i < unat (mCount (shared s)) \<Longrightarrow>
     pool_step calm s (goto t (Apply_Index (mIndex (shared s))) s)"
| full: "tpc s t = Apply_Index i \<Longrightarrow> \<not> unat i < unat (mCount (shared s)) \<Longrightarrow>
     pool_step calm s (goto t Idle s)"
| link: "tpc s t = Idle \<Longrightarrow> p \<in> set (held s) \<Longrightarrow>
     pool_step calm s (goto t (Recycle_Linked p) s
       \<lparr>shared := set_next p (mStack (shared s)) (shared s), held := remove1 p (held s)\<rparr>)"
| push_ok: "tpc s t = Recycle_Linked p \<Longrightarrow> mStack (shared s) = next_of (shared s) p \<Longrightarrow>
     (calm \<longrightarrow> (\<forall>u. \<not> in_window (tpc s u))) \<Longrightarrow>
     pool_step calm s (goto t Idle s\<lparr>shared := (shared s)\<lparr>mStack := Some p\<rparr>\<rparr>)"
| push_fail: "tpc s t = Recycle_Linked p \<Longrightarrow>
     pool_step calm s (s\<lparr>shared := set_next p (mStack (shared s)) (shared s)\<rparr>)"

definition pool_start :: "AllocPool \<Rightarrow> pool_sys" where
  "pool_start P = \<lparr>shared = AllocPool_reset P, tpc = (\<lambda>_. Idle), held = []\<rparr>"

inductive pool_reach :: "bool \<Rightarrow> pool_sys \<Rightarrow> pool_sys \<Rightarrow> bool" for calm :: bool where
  refl: "pool_reach calm s s"
| step: "pool_reach calm s t \<Longrightarrow> pool_step calm t u \<Longrightarrow> pool_reach calm s u"

subsection \<open>Exclusive ownership in calm runs\<close>

text \<open>
  The nodes in use split into three groups that never overlap: those on the stack, those
  handed out, and those a thread is pushing. A thread in the window still knows the right
  successor of its node as long as the node is on the stack.
\<close>

definition pushing :: "(nat \<Rightarrow> pool_pc) \<Rightarrow> nat set" where
  "pushing f = {p. \<exists>t. f t = Recycle_Linked p}"

definition push_once :: "(nat \<Rightarrow> pool_pc) \<Rightarrow> bool" where
  "push_once f \<longleftrightarrow> (\<forall>t u p. f t = Recycle_Linked p \<longrightarrow> f u = Recycle_Linked p \<longrightarrow> t = u)"

definition window_ok :: "(nat \<Rightarrow> nat option) \<Rightarrow> (nat \<Rightarrow> pool_pc) \<Rightarrow> nat set \<Rightarrow> bool" where
  "window_ok nx f S \<longleftrightarrow> (\<forall>t p n. f t = Apply_Window p n \<longrightarrow> p \<in> S \<longrightarrow> nx p = n)"

definition conc_rep :: "pool_sys \<Rightarrow> nat list \<Rightarrow> bool" where
  [rep_simps]: "conc_rep s fs \<longleftrightarrow>
     pool_rep (shared s) fs \<and> distinct (held s) \<and>
     set (held s) \<subseteq> {..<unat (mIndex (shared s))} \<and>
     pushing (tpc s) \<subseteq> {..<unat (mIndex (shared s))} \<and>
     set fs \<inter> set (held s) = {} \<and> set fs \<inter> pushing (tpc s) = {} \<and>
     set (held s) \<inter> pushing (tpc s) = {} \<and> push_once (tpc s) \<and>
     window_ok (next_of (shared s)) (tpc s) (set fs)"

definition quiet :: "pool_pc \<Rightarrow> bool" where
  "quiet c \<longleftrightarrow> (case c of Recycle_Linked _ \<Rightarrow> False | _ \<Rightarrow> True)"

lemma quiet_simps [simp]:
  "quiet Idle" "quiet (Apply_Loaded p)" "quiet (Apply_Window q n)" "quiet (Apply_Index i)"
  "\<not> quiet (Recycle_Linked q)"
  by (simp_all add: quiet_def)

lemma pushing_quiet: "quiet c \<Longrightarrow> quiet (f t) \<Longrightarrow> pushing (f(t := c)) = pushing f"
  unfolding pushing_def by (metis fun_upd_apply quiet_simps(5))

lemma pushing_link: "quiet (f t) \<Longrightarrow> pushing (f(t := Recycle_Linked p)) = insert p (pushing f)"
  unfolding pushing_def by (rule set_eqI) (simp, metis quiet_simps(5))

lemma pushing_done:
  "push_once f \<Longrightarrow> f t = Recycle_Linked p \<Longrightarrow> pushing (f(t := Idle)) = pushing f - {p}"
  unfolding pushing_def push_once_def
  by (rule set_eqI) (simp, metis pool_pc.distinct(7) pool_pc.inject(4))

lemma push_once_quiet: "push_once f \<Longrightarrow> quiet c \<Longrightarrow> push_once (f(t := c))"
  by (auto simp: push_once_def)

lemma push_once_link: "push_once f \<Longrightarrow> p \<notin> pushing f \<Longrightarrow> push_once (f(t := Recycle_Linked p))"
  by (auto simp: push_once_def pushing_def)

lemma window_ok_goto: "window_ok nx f S \<Longrightarrow> \<not> in_window c \<Longrightarrow> window_ok nx (f(t := c)) S"
  by (auto simp: window_ok_def in_window_def)

lemma window_ok_read: "window_ok nx f S \<Longrightarrow> window_ok nx (f(t := Apply_Window p (nx p))) S"
  by (auto simp: window_ok_def)

lemma window_ok_calm: "\<forall>u. \<not> in_window (f u) \<Longrightarrow> window_ok nx f S"
  unfolding window_ok_def in_window_def by (metis pool_pc.simps(27))

lemma window_ok_subset: "window_ok nx f S \<Longrightarrow> T \<subseteq> S \<Longrightarrow> window_ok nx f T"
  unfolding window_ok_def by blast

lemma window_ok_skip: "p \<notin> S \<Longrightarrow> window_ok nx f S \<Longrightarrow> window_ok (nx(p := q)) f S"
  unfolding window_ok_def by (metis fun_upd_apply)

lemma in_window_simps [simp]:
  "\<not> in_window Idle" "\<not> in_window (Apply_Loaded p)" "in_window (Apply_Window q n)"
  "\<not> in_window (Apply_Index i)" "\<not> in_window (Recycle_Linked q)"
  by (simp_all add: in_window_def)

lemmas conc_rules =
  pushing_quiet pushing_link push_once_quiet push_once_link window_ok_goto window_ok_read
  window_ok_skip linked_skip

lemma conc_rep_local:
  assumes "conc_rep s fs" and "quiet c" and "quiet (tpc s t)"
    and "\<not> in_window c \<or> (\<exists>p. c = Apply_Window p (next_of (shared s) p))"
  shows "conc_rep (goto t c s) fs"
  using assms by (auto simp: conc_rep_def conc_rules intro: window_ok_read)

lemma window_okD: "window_ok nx f S \<Longrightarrow> f t = Apply_Window p n \<Longrightarrow> p \<in> S \<Longrightarrow> nx p = n"
  by (simp add: window_ok_def)

lemma conc_rep_pop:
  assumes "conc_rep s fs" and "tpc s t = Apply_Window p n" and "mStack (shared s) = Some p"
  shows "conc_rep (goto t Idle s\<lparr>shared := (shared s)\<lparr>mStack := n\<rparr>, held := p # held s\<rparr>) (tl fs)"
proof -
  from assms obtain gs where fs: "fs = p # gs" and gs: "linked (next_of (shared s)) (next_of (shared s) p) gs"
    by (auto simp: conc_rep_def pool_rep_def linked_Some)
  have n: "next_of (shared s) p = n"
    by (rule window_okD [where f = "tpc s" and S = "set fs"])
      (use assms fs in \<open>auto simp: conc_rep_def\<close>)
  have "p \<notin> set gs"
    using assms(1) linked_distinct [of "next_of (shared s)" "mStack (shared s)" fs] unfolding fs
    by (simp add: conc_rep_def pool_rep_def)
  moreover have "window_ok (next_of (shared s)) (tpc s) (set gs)"
    by (rule window_ok_subset [of _ _ "set fs"]) (use assms(1) fs in \<open>auto simp: conc_rep_def\<close>)
  ultimately show ?thesis
    using assms(1,2) gs unfolding fs n by (simp add: conc_rep_def pool_rep_def conc_rules)
qed

lemma conc_rep_take:
  assumes "conc_rep s fs" and "tpc s t = Apply_Index i" and "unat i < unat (mCount (shared s))"
    and "mIndex (shared s) = i"
  shows "conc_rep (goto t Idle s\<lparr>shared := (shared s)\<lparr>mIndex := i + 1\<rparr>, held := unat i # held s\<rparr>) fs"
proof -
  have idx: "unat (i + 1) = Suc (unat i)"
    using assms by (intro unat_Suc_less [of _ "unat (mCount (shared s))"])
      (auto simp: conc_rep_def pool_rep_def)
  have "unat i \<notin> set fs" "unat i \<notin> set (held s)" "unat i \<notin> pushing (tpc s)"
    using assms by (auto simp: conc_rep_def pool_rep_def)
  then show ?thesis using assms idx
    by (auto simp: conc_rep_def pool_rep_def conc_rules less_Suc_eq)
qed

lemma conc_rep_link:
  assumes "conc_rep s fs" and "tpc s t = Idle" and "p \<in> set (held s)"
  shows "conc_rep (goto t (Recycle_Linked p) s
    \<lparr>shared := set_next p (mStack (shared s)) (shared s), held := remove1 p (held s)\<rparr>) fs"
proof -
  have "p \<notin> set fs" "p \<notin> pushing (tpc s)" using assms by (auto simp: conc_rep_def)
  then show ?thesis using assms by (auto simp: conc_rep_def pool_rep_def conc_rules)
qed

lemma conc_rep_push:
  assumes "conc_rep s fs" and "tpc s t = Recycle_Linked p"
    and "mStack (shared s) = next_of (shared s) p" and "\<forall>u. \<not> in_window (tpc s u)"
  shows "conc_rep (goto t Idle s\<lparr>shared := (shared s)\<lparr>mStack := Some p\<rparr>\<rparr>) (p # fs)"
proof -
  have "p \<in> pushing (tpc s)" using assms(2) by (auto simp: pushing_def)
  then show ?thesis using assms window_ok_calm
    by (auto simp: conc_rep_def pool_rep_def pushing_done conc_rules)
qed

lemma conc_rep_relink:
  assumes "conc_rep s fs" and "tpc s t = Recycle_Linked p"
  shows "conc_rep (s\<lparr>shared := set_next p (mStack (shared s)) (shared s)\<rparr>) fs"
proof -
  have "p \<in> pushing (tpc s)" using assms(2) by (auto simp: pushing_def)
  then have "p \<notin> set fs" using assms by (auto simp: conc_rep_def)
  then show ?thesis using assms by (auto simp: conc_rep_def pool_rep_def conc_rules)
qed

lemma conc_rep_step:
  assumes "pool_step True s u" and "conc_rep s fs"
  shows "\<exists>gs. conc_rep u gs"
  using assms
proof (induction rule: pool_step.induct)
  case (pop_ok s t p n)
  then show ?case using conc_rep_pop by blast
next
  case (take_ok s t i)
  then show ?case using conc_rep_take by blast
next
  case (link s t p)
  then show ?case using conc_rep_link by blast
next
  case (push_ok s t p)
  then show ?case using conc_rep_push by blast
next
  case (push_fail s t p)
  then show ?case using conc_rep_relink by blast
qed (metis conc_rep_local quiet_simps(1-4) in_window_simps)+

lemma conc_rep_reach:
  "pool_reach True s u \<Longrightarrow> conc_rep s fs \<Longrightarrow> \<exists>gs. conc_rep u gs"
proof (induction rule: pool_reach.induct)
  case (refl s)
  then show ?case by blast
next
  case (step s t u)
  then obtain gs where "conc_rep t gs" by blast
  with step.hyps(2) show ?case by (rule conc_rep_step)
qed

lemma conc_rep_start: "unat (mCount P) < 2 ^ 32 \<Longrightarrow> conc_rep (pool_start P) []"
  using reset_rep [of P] by (auto simp: conc_rep_def pool_start_def pushing_def push_once_def window_ok_def)

subsection \<open>Running a schedule\<close>

text \<open>
  One scheduled step of the loops as written (no calm assumption), as a function: the thread
  and, for a thread between calls, whether it starts \<open>apply\<close> or \<open>recycle\<close>s a node. A
  compare-and-swap succeeds when the values agree.
\<close>

datatype pool_call = Go | Recycle nat

fun pool_exec :: "nat \<times> pool_call \<Rightarrow> pool_sys \<Rightarrow> pool_sys" where
  "pool_exec (t, call) s =
     (case tpc s t of
        Idle \<Rightarrow>
          (case call of
             Go \<Rightarrow> goto t (Apply_Loaded (mStack (shared s))) s
           | Recycle p \<Rightarrow>
               if p \<in> set (held s)
               then goto t (Recycle_Linked p) s
                 \<lparr>shared := set_next p (mStack (shared s)) (shared s), held := remove1 p (held s)\<rparr>
               else s)
      | Apply_Loaded None \<Rightarrow> goto t (Apply_Index (mIndex (shared s))) s
      | Apply_Loaded (Some p) \<Rightarrow> goto t (Apply_Window p (next_of (shared s) p)) s
      | Apply_Window p n \<Rightarrow>
          if mStack (shared s) = Some p
          then goto t Idle s\<lparr>shared := (shared s)\<lparr>mStack := n\<rparr>, held := p # held s\<rparr>
          else goto t (Apply_Loaded (mStack (shared s))) s
      | Apply_Index i \<Rightarrow>
          if unat i < unat (mCount (shared s))
          then if mIndex (shared s) = i
               then goto t Idle s\<lparr>shared := (shared s)\<lparr>mIndex := i + 1\<rparr>, held := unat i # held s\<rparr>
               else goto t (Apply_Index (mIndex (shared s))) s
          else goto t Idle s
      | Recycle_Linked p \<Rightarrow>
          if mStack (shared s) = next_of (shared s) p
          then goto t Idle s\<lparr>shared := (shared s)\<lparr>mStack := Some p\<rparr>\<rparr>
          else s\<lparr>shared := set_next p (mStack (shared s)) (shared s)\<rparr>)"

fun pool_run :: "(nat \<times> pool_call) list \<Rightarrow> pool_sys \<Rightarrow> pool_sys" where
  "pool_run [] s = s"
| "pool_run (e # es) s = pool_run es (pool_exec e s)"

lemma pool_exec_step: "pool_exec (t, call) s = s \<or> pool_step False s (pool_exec (t, call) s)"
proof (cases "tpc s t")
  case Idle
  then show ?thesis by (cases call) (auto intro: pool_step.intros)
next
  case (Apply_Loaded p)
  then show ?thesis by (cases p) (auto intro: pool_step.intros)
qed (auto intro: pool_step.intros)

lemma pool_run_reach: "pool_reach False s u \<Longrightarrow> pool_reach False s (pool_run es u)"
proof (induction es arbitrary: u)
  case Nil
  then show ?case by simp
next
  case (Cons e es)
  obtain t call where e: "e = (t, call)" by fastforce
  have "pool_reach False s (pool_exec e u)"
    using pool_exec_step [of t call u] Cons.prems unfolding e by (metis pool_reach.step)
  then show ?case using Cons.IH by simp
qed

text \<open>A schedule that only starts \<open>apply\<close> calls is calm.\<close>

lemma pool_exec_calm:
  assumes "quiet (tpc s t)"
  shows "pool_exec (t, Go) s = s \<or> pool_step True s (pool_exec (t, Go) s)"
proof (cases "tpc s t")
  case (Apply_Loaded p)
  then show ?thesis by (cases p) (auto intro: pool_step.intros)
qed (use assms in \<open>auto intro: pool_step.intros\<close>)

lemma pool_exec_quiet: "\<forall>u. quiet (tpc s u) \<Longrightarrow> \<forall>u. quiet (tpc (pool_exec (t, Go) s) u)"
  by (cases "tpc s t") (auto split: option.splits)

lemma pool_run_calm:
  "\<forall>t. quiet (tpc u t) \<Longrightarrow> pool_reach True s u \<Longrightarrow> pool_reach True s (pool_run (map (\<lambda>t. (t, Go)) ts) u)"
proof (induction ts arbitrary: u)
  case Nil
  then show ?case by simp
next
  case (Cons t ts)
  have "pool_reach True s (pool_exec (t, Go) u)"
    using pool_exec_calm [of u t] Cons.prems by (metis pool_reach.step)
  then show ?case using Cons.IH pool_exec_quiet [OF Cons.prems(1), of t] by simp
qed

text \<open>
  Thread 1 takes nodes 0 and 1 and gives both back, so the stack is 0, 1. Thread 0 starts
  \<open>apply\<close> and reads node 0 and its successor 1. Thread 1 takes both nodes again and gives back
  node 0 only. Thread 0's compare-and-swap still finds node 0 on top and makes the stack start
  at node 1, which thread 1 holds; its next \<open>apply\<close> receives node 1 a second time.
\<close>

definition aba_schedule :: "(nat \<times> pool_call) list" where
  "aba_schedule =
     replicate 6 (1, Go) @ [(1, Recycle 1), (1, Go), (1, Recycle 0), (1, Go)] @
     replicate 2 (0, Go) @ replicate 6 (1, Go) @ [(1, Recycle 0), (1, Go)] @
     [(0, Go)] @ replicate 3 (1, Go)"

section \<open>Properties\<close>

text \<open>C3. In a run in which no push takes effect between another thread's read of
  \<open>p->next\<close> and its compare-and-swap, the pool never hands out a node twice: at any time, in
  any interleaving of any number of threads, the nodes handed out and not given back are
  distinct, and every one is a valid index of the array.\<close>

theorem pool_exclusive:
  assumes "unat (mCount P) < 2 ^ 32" and "pool_reach True (pool_start P) s"
  shows "distinct (held s) \<and> (\<forall>p \<in> set (held s). p < unat (mCount (shared s)))"
proof -
  from conc_rep_reach [OF assms(2) conc_rep_start [OF assms(1)]]
  obtain gs where "conc_rep s gs" by blast
  then show ?thesis by (auto simp: conc_rep_def pool_rep_def)
qed

definition sample_pool :: AllocPool where
  "sample_pool = AllocPool_new
     \<lparr>mCache = (\<lambda>_. \<lparr>nd_size = 7, nd_addr = 7, nd_trace = replicate 16 7, nd_next = Some 7\<rparr>),
      mCount = 0, mIndex = 9, mStack = Some 3\<rparr> ALLOC_CACHE_SIZE"

lemma sample_pool_count [simp]: "mCount sample_pool = 32768"
  by (simp add: sample_pool_def AllocPool_new_def ALLOC_CACHE_SIZE_def)

theorem pool_exclusive_witness:
  "distinct (held (pool_run (map (\<lambda>t. (t, Go)) [0, 0, 1, 1, 0, 1]) (pool_start sample_pool))) \<and>
   held (pool_run (map (\<lambda>t. (t, Go)) [0, 0, 1, 1, 0, 1]) (pool_start sample_pool)) = [0]"
proof
  have bound: "unat (mCount sample_pool) < 2 ^ 32" by simp
  have "pool_reach True (pool_start sample_pool)
      (pool_run (map (\<lambda>t. (t, Go)) [0, 0, 1, 1, 0, 1]) (pool_start sample_pool))"
    by (rule pool_run_calm [OF _ pool_reach.refl]) (simp add: pool_start_def)
  from pool_exclusive [OF bound this]
  show "distinct (held (pool_run (map (\<lambda>t. (t, Go)) [0, 0, 1, 1, 0, 1]) (pool_start sample_pool)))"
    by (rule conjunct1)
  show "held (pool_run (map (\<lambda>t. (t, Go)) [0, 0, 1, 1, 0, 1]) (pool_start sample_pool)) = [0]"
    by (simp add: pool_start_def AllocPool_reset_def)
qed

text \<open>C4. Without that assumption, in the loops as the code has them, two threads can come
  to hold the same node: for every pool of two nodes or more there is an interleaving of
  \<open>apply\<close> and \<open>recycle\<close> calls after which one node is handed out twice.\<close>

theorem pool_aba:
  assumes "2 \<le> unat (mCount P)"
  shows "\<exists>s. pool_reach False (pool_start P) s \<and> \<not> distinct (held s)"
proof -
  have "held (pool_run aba_schedule (pool_start P)) = [1, 0, 1]"
    using assms by (simp add: aba_schedule_def pool_start_def numeral_eq_Suc AllocPool_reset_def set_next_def)
  then show ?thesis using pool_run_reach [OF pool_reach.refl, of "pool_start P" aba_schedule]
    by (metis distinct_length_2_or_more)
qed

theorem pool_aba_witness:
  "2 \<le> unat (mCount sample_pool) \<and>
   (\<exists>s. pool_reach False (pool_start sample_pool) s \<and> \<not> distinct (held s))"
  using pool_aba [of sample_pool] by simp

end
