(* ===== verification/Leak_Cache.thy ===== *)
theory Leak_Cache
  imports Alloc_Pool
begin

text \<open>
  The interface of the leak cache: the virtual operations of class \<open>Cache\<close> (\<open>cpp/Cache.h\<close>) and
  the contract its clients, the allocation proxies, rely on. The abstract content of a cache
  maps an address to the records made for it, latest first; a record is the recorded size and
  the frames kept of the backtrace.
\<close>

section \<open>Records\<close>

text \<open>The number of frames \<open>insert\<close> keeps of a backtrace, after the first two.\<close>

definition kept_depth :: "Backtrace \<Rightarrow> nat" where
  "kept_depth backtrace = unat (if 2 < bt_depth backtrace then bt_depth backtrace - 2 else 1)"

text \<open>A stored frame list ends before its first zero word.\<close>

definition trace_frames :: "u64 list \<Rightarrow> u64 list" where
  "trace_frames = takeWhile (\<lambda>pc. pc \<noteq> 0)"

definition bt_ok :: "Backtrace \<Rightarrow> bool" where
  "bt_ok bt \<longleftrightarrow> length (bt_trace bt) = MAX_TRACE_DEPTH \<and> unat (bt_depth bt) \<le> MAX_TRACE_DEPTH"

definition trace_record :: "u64 \<Rightarrow> Backtrace \<Rightarrow> u32 \<times> u64 list" where
  "trace_record sz bt = (ucast sz, trace_frames (take (kept_depth bt) (drop 2 (bt_trace bt))))"

lemma trace_frames_zero: "trace_frames (xs @ 0 # ys) = trace_frames xs"
  by (simp add: trace_frames_def takeWhile_tail)

lemma kept_depth_bound: "unat (bt_depth bt) \<le> 16 \<Longrightarrow> kept_depth bt \<le> 14"
  by (auto simp: kept_depth_def word_less_nat_alt unat_sub_if')

section \<open>The virtual operations\<close>

record 'c Cache =
  c_reset :: "'c \<Rightarrow> 'c"
  c_insert :: "u64 \<Rightarrow> u64 \<Rightarrow> Backtrace \<Rightarrow> 'c \<Rightarrow> 'c res"
  c_remove :: "u64 \<Rightarrow> 'c \<Rightarrow> 'c res"

text \<open>A client's sequence of operations, and what it does to the abstract content.\<close>

datatype cache_op = Insert u64 u64 Backtrace | Remove u64

fun run_ops :: "'c Cache \<Rightarrow> cache_op list \<Rightarrow> 'c \<Rightarrow> 'c res" where
  "run_ops V [] c = Inr c"
| "run_ops V (Insert a n bt # os) c = res_bind (c_insert V a n bt c) (run_ops V os)"
| "run_ops V (Remove a # os) c = res_bind (c_remove V a c) (run_ops V os)"

fun spec_run :: "cache_op list \<Rightarrow> (u64 \<Rightarrow> (u32 \<times> u64 list) list) \<times> nat \<Rightarrow>
    (u64 \<Rightarrow> (u32 \<times> u64 list) list) \<times> nat" where
  "spec_run [] s = s"
| "spec_run (Insert a n bt # os) (m, k) =
     spec_run os (if k = 0 then (m, k) else (m(a := trace_record n bt # m a), k - 1))"
| "spec_run (Remove a # os) (m, k) =
     spec_run os (m(a := tl (m a)), k + (if m a = [] then 0 else 1))"

definition op_ok :: "cache_op \<Rightarrow> bool" where
  "op_ok e \<longleftrightarrow> (case e of Insert _ _ bt \<Rightarrow> bt_ok bt | Remove _ \<Rightarrow> True)"

text \<open>
  The contract. \<open>ok\<close> is the invariant, \<open>recs\<close> the content, \<open>space\<close> the number of records that
  still fit. An insertion that finds no space leaves the content alone.
\<close>

locale leak_cache =
  fixes V :: "'c Cache"
    and made :: "'c \<Rightarrow> bool"
    and ok :: "'c \<Rightarrow> bool"
    and recs :: "'c \<Rightarrow> u64 \<Rightarrow> (u32 \<times> u64 list) list"
    and space :: "'c \<Rightarrow> nat"
    and capacity :: nat
  assumes reset_law: "made c \<Longrightarrow>
      ok (c_reset V c) \<and> recs (c_reset V c) = (\<lambda>_. []) \<and> space (c_reset V c) = capacity"
    and insert_law: "ok c \<Longrightarrow> bt_ok bt \<Longrightarrow> 0 < space c \<Longrightarrow>
      \<exists>c'. c_insert V a n bt c = Inr c' \<and> ok c' \<and> Suc (space c') = space c \<and>
        recs c' = (recs c)(a := trace_record n bt # recs c a)"
    and insert_full_law: "ok c \<Longrightarrow> space c = 0 \<Longrightarrow>
      \<exists>c'. c_insert V a n bt c = Inr c' \<and> ok c' \<and> space c' = 0 \<and> recs c' = recs c"
    and remove_law: "ok c \<Longrightarrow>
      \<exists>c'. c_remove V a c = Inr c' \<and> ok c' \<and> recs c' = (recs c)(a := tl (recs c a)) \<and>
        space c' = space c + (if recs c a = [] then 0 else 1)"
begin

text \<open>Any sequence of operations does to the content what the specification says.\<close>

lemma run_refines:
  "ok c \<Longrightarrow> \<forall>e\<in>set os. op_ok e \<Longrightarrow>
     \<exists>c'. run_ops V os c = Inr c' \<and> ok c' \<and> (recs c', space c') = spec_run os (recs c, space c)"
proof (induction os arbitrary: c)
  case Nil
  then show ?case by simp
next
  case (Cons e os)
  show ?case
  proof (cases e)
    case (Insert a n bt)
    then have bt: "bt_ok bt" using Cons.prems by (simp add: op_ok_def)
    show ?thesis
    proof (cases "space c = 0")
      case True
      from insert_full_law [OF Cons.prems(1) True, of a n bt] obtain c' where
        "c_insert V a n bt c = Inr c'" "ok c'" "space c' = 0" "recs c' = recs c" by blast
      then show ?thesis using Cons.IH [of c'] Cons.prems(2) Insert True by simp
    next
      case False
      then have "0 < space c" by simp
      from insert_law [OF Cons.prems(1) bt this, of a n] obtain c' where
        "c_insert V a n bt c = Inr c'" "ok c'" "Suc (space c') = space c"
        "recs c' = (recs c)(a := trace_record n bt # recs c a)" by blast
      moreover from this have "space c' = space c - 1" by simp
      ultimately show ?thesis using Cons.IH [of c'] Cons.prems(2) Insert False
        by (simp del: fun_upd_apply)
    qed
  next
    case (Remove a)
    from remove_law [OF Cons.prems(1), of a] obtain c' where
      "c_remove V a c = Inr c'" "ok c'" "recs c' = (recs c)(a := tl (recs c a))"
      "space c' = space c + (if recs c a = [] then 0 else 1)" by blast
    then show ?thesis using Cons.IH [of c'] Cons.prems(2) Remove
      by (simp del: fun_upd_apply)
  qed
qed

text \<open>Removing right after inserting gives the content back.\<close>

lemma insert_remove:
  assumes "ok c" and "bt_ok bt" and "0 < space c"
  shows "\<exists>c' c''. c_insert V a n bt c = Inr c' \<and> c_remove V a c' = Inr c'' \<and>
    ok c'' \<and> recs c'' = recs c \<and> space c'' = space c"
proof -
  from insert_law [OF assms] obtain c' where c': "c_insert V a n bt c = Inr c'" "ok c'"
    "Suc (space c') = space c" "recs c' = (recs c)(a := trace_record n bt # recs c a)" by blast
  from remove_law [OF c'(2), of a] obtain c'' where "c_remove V a c' = Inr c''" "ok c''"
    "recs c'' = (recs c')(a := tl (recs c' a))" "space c'' = space c' + 1"
    using c'(4) by auto
  with c' show ?thesis by auto
qed

text \<open>One step of either kind always succeeds and keeps the invariant.\<close>

lemma insert_total: "ok c \<Longrightarrow> bt_ok bt \<Longrightarrow> \<exists>c'. c_insert V a n bt c = Inr c' \<and> ok c'"
  by (cases "space c") (use insert_law insert_full_law in \<open>blast+\<close>)

lemma remove_absent:
  assumes "ok c" and "recs c a = []"
  shows "\<exists>c'. c_remove V a c = Inr c' \<and> ok c' \<and> recs c' = recs c \<and> space c' = space c"
  using remove_law [OF assms(1), of a] fun_upd_idem [of "recs c" a "[]"] assms(2) by auto

end

end
