(* ===== verification/Memory_Cache.thy ===== *)
theory Memory_Cache
  imports Leak_Cache
begin

text \<open>
  The leak cache (\<open>cpp/MemoryCache.cpp\<close>, class \<open>Cache\<close> of \<open>cpp/Cache.h\<close>): a table of 65536
  chains of pool nodes, one node per recorded allocation, and the report written from it. The
  table is indexed by the 16-bit hash, so it is a function on 16-bit words. A critical section of
  \<open>alloc_mutex\<close> is one step; the pool operations around it run without interference here
  (\<open>Alloc_Pool\<close> treats their interleavings).
\<close>

section \<open>Operations\<close>

record MemoryCache =
  alloc_table :: "u16 \<Rightarrow> nat option"
  alloc_cache :: AllocPool

abbreviation nodes :: "MemoryCache \<Rightarrow> nat \<Rightarrow> AllocNode" where
  "nodes c \<equiv> mCache (alloc_cache c)"

definition alloc_hash :: "u64 \<Rightarrow> u16" where
  "alloc_hash address = ucast (drop_bit ADDR_HASH_OFFSET address AND 0xFFFF)"

definition MemoryCache_new :: "MemoryCache \<Rightarrow> MemoryCache" where
  "MemoryCache_new junk = junk\<lparr>alloc_cache := AllocPool_new (alloc_cache junk) ALLOC_CACHE_SIZE\<rparr>"

text \<open>The loop of \<open>reset\<close> clears entries \<open>i\<close>, \<open>i + 1\<close>, \<dots> below the table size.\<close>

fun clear_table :: "nat list \<Rightarrow> (u16 \<Rightarrow> nat option) \<Rightarrow> (u16 \<Rightarrow> nat option)" where
  "clear_table [] table = table"
| "clear_table (i # is) table = clear_table is (table(word_of_nat i := None))"

definition MemoryCache_reset :: "MemoryCache \<Rightarrow> MemoryCache" where
  "MemoryCache_reset c =
     \<lparr>alloc_table = clear_table [0..<2 ^ 16] (alloc_table c),
      alloc_cache = AllocPool_reset (alloc_cache c)\<rparr>"

text \<open>
  The node \<open>insert\<close> fills: the kept frames follow the first two of the backtrace and end with a
  zero. The copy must stay inside both arrays.
\<close>

definition fill_node :: "u64 \<Rightarrow> u64 \<Rightarrow> Backtrace \<Rightarrow> AllocNode \<Rightarrow> AllocNode res" where
  "fill_node address sz backtrace node =
     (let depth = kept_depth backtrace in
      if length (bt_trace backtrace) < 2 + depth \<or> length (nd_trace node) \<le> depth
      then Inl Array_Overflow
      else Inr (node
        \<lparr>nd_addr := address, nd_size := ucast sz,
         nd_trace := (take depth (drop 2 (bt_trace backtrace)) @ drop depth (nd_trace node))
           [depth := 0]\<rparr>))"

definition MemoryCache_insert :: "u64 \<Rightarrow> u64 \<Rightarrow> Backtrace \<Rightarrow> MemoryCache \<Rightarrow> MemoryCache res" where
  "MemoryCache_insert address sz backtrace c =
     (case AllocPool_apply (alloc_cache c) of
        (None, P) \<Rightarrow> Inr (c\<lparr>alloc_cache := P\<rparr>)
      | (Some p, P) \<Rightarrow>
          res_bind (fill_node address sz backtrace (mCache P p)) (\<lambda>node.
            let h = alloc_hash address;
                node' = node\<lparr>nd_next := alloc_table c h\<rparr>
            in Inr (c\<lparr>alloc_table := (alloc_table c)(h := Some p),
                      alloc_cache := P\<lparr>mCache := (mCache P)(p := node')\<rparr>\<rparr>)))"

text \<open>
  \<open>remove_alloc\<close>: the loop walks to the last node whose successor is not the one looked for;
  it need not return on an arbitrary heap, so it is a partial function.
\<close>

partial_function (option) seek_prev :: "(nat \<Rightarrow> AllocNode) \<Rightarrow> u64 \<Rightarrow> nat \<Rightarrow> nat option" where
  "seek_prev heap address p =
     (case nd_next (heap p) of
        None \<Rightarrow> Some p
      | Some q \<Rightarrow> if nd_addr (heap q) = address then Some p else seek_prev heap address q)"

definition remove_alloc ::
    "AllocPool \<Rightarrow> nat option \<Rightarrow> u64 \<Rightarrow> (nat option \<times> AllocPool \<times> nat option) res" where
  "remove_alloc P header address =
     (case header of
        None \<Rightarrow> Inr (header, P, None)
      | Some hptr \<Rightarrow>
          if nd_addr (mCache P hptr) = address
          then Inr (next_of P hptr, P, Some hptr)
          else
            (case seek_prev (mCache P) address hptr of
               None \<Rightarrow> Inl No_Return
             | Some p \<Rightarrow>
                 (case next_of P p of
                    None \<Rightarrow> Inr (header, P, None)
                  | Some t \<Rightarrow> Inr (header, set_next p (next_of P t) P, Some t))))"

definition MemoryCache_remove :: "u64 \<Rightarrow> MemoryCache \<Rightarrow> MemoryCache res" where
  "MemoryCache_remove address c =
     (let h = alloc_hash address in
      if alloc_table c h = None then Inr c
      else
        res_bind (remove_alloc (alloc_cache c) (alloc_table c h) address)
          (\<lambda>(header, P, removed).
            Inr \<lparr>alloc_table = (alloc_table c)(h := header),
                 alloc_cache =
                   (case removed of None \<Rightarrow> P | Some p \<Rightarrow> AllocPool_recycle p P)\<rparr>))"

section \<open>The report\<close>

text \<open>
  A line of the report per \<open>fprintf\<close> of \<open>write_trace\<close>, and its text in the arm64 formats of
  \<open>cpp/MemoryCache.h\<close>. \<open>xdl\<close> stands for \<open>xdl_addr\<close> with its handle cache as state, \<open>demangle\<close> for
  \<open>__cxa_demangle\<close>.
\<close>

record Dl_info =
  dli_fname :: "string option"
  dli_fbase :: u64
  dli_sname :: "string option"
  dli_saddr :: u64

datatype report_line =
    Header u64 u32
  | Unknown u64
  | Anonymous u64 u64
  | File u64 string
  | File_Name u64 string string
  | File_Name_Line u64 string string u64

definition hex_digit :: "nat \<Rightarrow> char" where
  "hex_digit d = char_of (if d < 10 then 48 + d else 87 + d)"

fun hex_pad :: "nat \<Rightarrow> nat \<Rightarrow> string" where
  "hex_pad 0 n = []"
| "hex_pad (Suc k) n = hex_pad k (n div 16) @ [hex_digit (n mod 16)]"

fun dec :: "nat \<Rightarrow> string" where
  "dec n = (if n < 10 then [char_of (48 + n)] else dec (n div 10) @ [char_of (48 + n mod 10)])"

abbreviation hex_addr :: "u64 \<Rightarrow> string" where
  "hex_addr w \<equiv> ''0x'' @ hex_pad 16 (unat w)"

abbreviation newline :: string where
  "newline \<equiv> [char_of (10 :: nat)]"

definition render :: "report_line \<Rightarrow> string" where
  "render l =
     (case l of
        Header a n \<Rightarrow> newline @ hex_addr a @ '', '' @ dec (unat n) @ '', 1'' @ newline
      | Unknown pc \<Rightarrow> hex_addr pc @ '' <unknown>'' @ newline
      | Anonymous off base \<Rightarrow>
          hex_addr off @ '' <anonymous:'' @ hex_pad 16 (unat base) @ ''>'' @ newline
      | File off f \<Rightarrow> hex_addr off @ '' '' @ f @ '' (unknown)'' @ newline
      | File_Name off f nm \<Rightarrow> hex_addr off @ '' '' @ f @ '' ('' @ nm @ '' + ?)'' @ newline
      | File_Name_Line off f nm d \<Rightarrow>
          hex_addr off @ '' '' @ f @ '' ('' @ nm @ '' + '' @ dec (unat d) @ '')'' @ newline)"

definition frame_line :: "(string \<Rightarrow> string option) \<Rightarrow> Dl_info option \<Rightarrow> u64 \<Rightarrow> report_line" where
  "frame_line demangle info pc =
     (case info of
        None \<Rightarrow> Unknown pc
      | Some i \<Rightarrow>
          if pc < dli_fbase i then Unknown pc
          else if dli_fname i = None \<or> dli_fname i = Some []
          then Anonymous (pc - dli_fbase i) (dli_fbase i)
          else if dli_sname i = None \<or> dli_sname i = Some []
          then File (pc - dli_fbase i) (the (dli_fname i))
          else
            let s = the (dli_sname i);
                symbol = (case demangle s of None \<Rightarrow> s | Some d \<Rightarrow> d)
            in if dli_saddr i = 0 \<or> pc < dli_saddr i
               then File_Name (pc - dli_fbase i) (the (dli_fname i)) symbol
               else File_Name_Line (pc - dli_fbase i) (the (dli_fname i)) symbol (pc - dli_saddr i))"

text \<open>The loop over \<open>trace\<close> runs to the first zero; without one it leaves the array.\<close>

fun trace_lines ::
    "(u64 \<Rightarrow> 'd \<Rightarrow> Dl_info option \<times> 'd) \<Rightarrow> (string \<Rightarrow> string option) \<Rightarrow> u64 list \<Rightarrow> 'd \<Rightarrow>
     (report_line list \<times> 'd) res" where
  "trace_lines xdl demangle [] d = Inl Array_Overflow"
| "trace_lines xdl demangle (pc # rest) d =
     (if pc = 0 then Inr ([], d)
      else
        let (info, d') = xdl pc d
        in res_bind (trace_lines xdl demangle rest d') (\<lambda>(ls, d'').
             Inr (frame_line demangle info pc # ls, d'')))"

definition write_trace ::
    "(u64 \<Rightarrow> 'd \<Rightarrow> Dl_info option \<times> 'd) \<Rightarrow> (string \<Rightarrow> string option) \<Rightarrow> AllocNode \<Rightarrow> 'd \<Rightarrow>
     (report_line list \<times> 'd) res" where
  "write_trace xdl demangle node d =
     res_bind (trace_lines xdl demangle (nd_trace node) d) (\<lambda>(ls, d').
       Inr (Header (nd_addr node) (nd_size node) # ls, d'))"

partial_function (option) print_chain ::
    "(AllocNode \<Rightarrow> 'd \<Rightarrow> (report_line list \<times> 'd) res) \<Rightarrow> (nat \<Rightarrow> AllocNode) \<Rightarrow> nat option \<Rightarrow>
     report_line list \<Rightarrow> 'd \<Rightarrow> (report_line list \<times> 'd) res option" where
  "print_chain w heap p acc d =
     (case p of
        None \<Rightarrow> Some (Inr (acc, d))
      | Some x \<Rightarrow>
          (case w (heap x) d of
             Inl e \<Rightarrow> Some (Inl e)
           | Inr (ls, d') \<Rightarrow> print_chain w heap (nd_next (heap x)) (acc @ ls) d'))"

fun print_table ::
    "(AllocNode \<Rightarrow> 'd \<Rightarrow> (report_line list \<times> 'd) res) \<Rightarrow> (nat \<Rightarrow> AllocNode) \<Rightarrow> nat option list \<Rightarrow>
     report_line list \<Rightarrow> 'd \<Rightarrow> (report_line list \<times> 'd) res" where
  "print_table w heap [] acc d = Inr (acc, d)"
| "print_table w heap (p # ps) acc d =
     (case print_chain w heap p acc d of
        None \<Rightarrow> Inl No_Return
      | Some r \<Rightarrow> res_bind r (\<lambda>(acc', d'). print_table w heap ps acc' d'))"

text \<open>
  \<open>print\<close> formats the path into a buffer of 1024 bytes without a bound, opens the file
  (\<open>opened\<close> tells whether that works) and walks the table in index order with a fresh handle
  cache \<open>d\<close>.
\<close>

definition table_list :: "MemoryCache \<Rightarrow> nat option list" where
  "table_list c = map (\<lambda>i. alloc_table c (word_of_nat i)) [0..<2 ^ 16]"

definition MemoryCache_print ::
    "(u64 \<Rightarrow> 'd \<Rightarrow> Dl_info option \<times> 'd) \<Rightarrow> (string \<Rightarrow> string option) \<Rightarrow> 'd \<Rightarrow> string \<Rightarrow> bool \<Rightarrow>
     MemoryCache \<Rightarrow> report_line list option res" where
  "MemoryCache_print xdl demangle d mSpace opened c =
     (if 1024 \<le> length (mSpace @ ''/report'') then Inl Array_Overflow
      else if \<not> opened then Inr None
      else res_bind (print_table (write_trace xdl demangle) (nodes c) (table_list c) [] d)
             (\<lambda>(ls, _). Inr (Some ls)))"

section \<open>Representation\<close>

text \<open>
  \<open>mc_rep c fs bs\<close>: the recycled nodes are \<open>fs\<close> and the chain of hash \<open>h\<close> is \<open>bs h\<close>. Every node
  taken from the array is in exactly one of these lists, a node sits in the chain its address
  hashes to, and its frame array ends with a zero.
\<close>

definition node_ok :: "AllocNode \<Rightarrow> bool" where
  "node_ok n \<longleftrightarrow> length (nd_trace n) = MAX_TRACE_DEPTH"

definition mc_rep :: "MemoryCache \<Rightarrow> nat list \<Rightarrow> (u16 \<Rightarrow> nat list) \<Rightarrow> bool" where
  [rep_simps]: "mc_rep c fs bs \<longleftrightarrow>
     pool_rep (alloc_cache c) fs \<and>
     (\<forall>h. linked (next_of (alloc_cache c)) (alloc_table c h) (bs h)) \<and>
     (\<forall>h. set fs \<inter> set (bs h) = {}) \<and>
     (\<forall>h. \<forall>p\<in>set (bs h). alloc_hash (nd_addr (nodes c p)) = h \<and> 0 \<in> set (nd_trace (nodes c p))) \<and>
     set fs \<union> (\<Union>h. set (bs h)) = {..<unat (mIndex (alloc_cache c))} \<and>
     (\<forall>p. node_ok (nodes c p))"

definition cache_ok :: "MemoryCache \<Rightarrow> bool" where
  "cache_ok c \<longleftrightarrow> (\<exists>fs bs. mc_rep c fs bs)"

text \<open>What a node records, and the records of one address, latest first.\<close>

definition node_record :: "AllocNode \<Rightarrow> u32 \<times> u64 list" where
  "node_record n = (nd_size n, trace_frames (nd_trace n))"

definition bucket :: "MemoryCache \<Rightarrow> u16 \<Rightarrow> nat list" where
  "bucket c h = walk (unat (mCount (alloc_cache c))) (next_of (alloc_cache c)) (alloc_table c h)"

definition live :: "MemoryCache \<Rightarrow> u64 \<Rightarrow> (u32 \<times> u64 list) list" where
  "live c a = map (\<lambda>p. node_record (nodes c p))
     (filter (\<lambda>p. nd_addr (nodes c p) = a) (bucket c (alloc_hash a)))"

definition free_nodes :: "MemoryCache \<Rightarrow> nat list" where
  "free_nodes c = walk (unat (mCount (alloc_cache c))) (next_of (alloc_cache c)) (mStack (alloc_cache c))"

definition room :: "MemoryCache \<Rightarrow> nat" where
  "room c = pool_room (alloc_cache c) (free_nodes c)"

lemma mc_rep_walks:
  assumes "mc_rep c fs bs"
  shows "free_nodes c = fs" and "bucket c = bs"
proof -
  have bound: "walk (unat (mCount (alloc_cache c))) (next_of (alloc_cache c)) p = xs"
    if "linked (next_of (alloc_cache c)) p xs" "set xs \<subseteq> {..<unat (mIndex (alloc_cache c))}" for p xs
  proof (rule walk_linked [OF that(1)])
    have "length xs \<le> unat (mIndex (alloc_cache c))"
      using that linked_distinct by (intro length_le_of_bounded) auto
    then show "length xs \<le> unat (mCount (alloc_cache c))"
      using assms by (auto simp: mc_rep_def pool_rep_def)
  qed
  show "free_nodes c = fs"
    unfolding free_nodes_def by (rule bound) (use assms in \<open>auto simp: mc_rep_def pool_rep_def\<close>)
  have "set (bs h) \<subseteq> {..<unat (mIndex (alloc_cache c))}" for h
    using assms by (auto simp: mc_rep_def)
  then show "bucket c = bs"
    unfolding bucket_def by (intro ext bound) (use assms in \<open>auto simp: mc_rep_def\<close>)
qed

lemma mc_rep_live:
  "mc_rep c fs bs \<Longrightarrow>
     live c a = map (\<lambda>p. node_record (nodes c p)) (filter (\<lambda>p. nd_addr (nodes c p) = a) (bs (alloc_hash a)))"
  by (simp add: live_def mc_rep_walks)

lemma mc_rep_room: "mc_rep c fs bs \<Longrightarrow> room c = pool_room (alloc_cache c) fs"
  by (simp add: room_def mc_rep_walks)

section \<open>Insertion\<close>

lemma fill_node_ok:
  assumes "bt_ok bt" and "node_ok n"
  obtains n' where "fill_node a sz bt n = Inr n'" "nd_addr n' = a" "nd_next n' = nd_next n"
    "node_record n' = trace_record sz bt" "0 \<in> set (nd_trace n')" "node_ok n'"
proof -
  let ?d = "kept_depth bt"
  let ?xs = "take ?d (drop 2 (bt_trace bt))"
  have d: "?d \<le> 14" using assms by (auto simp: bt_ok_def MAX_TRACE_DEPTH_def intro: kept_depth_bound)
  then have len: "length ?xs = ?d" using assms by (simp add: bt_ok_def MAX_TRACE_DEPTH_def)
  have "?d < length (nd_trace n)" using assms d by (simp add: node_ok_def MAX_TRACE_DEPTH_def)
  then have "drop ?d (nd_trace n) = nd_trace n ! ?d # drop (Suc ?d) (nd_trace n)"
    by (rule Cons_nth_drop_Suc [symmetric])
  then have upd: "(?xs @ drop ?d (nd_trace n))[?d := 0] = ?xs @ 0 # drop (Suc ?d) (nd_trace n)"
    using len by (simp add: list_update_append)
  show thesis
  proof (rule that)
    show "fill_node a sz bt n =
      Inr (n\<lparr>nd_addr := a, nd_size := ucast sz, nd_trace := ?xs @ 0 # drop (Suc ?d) (nd_trace n)\<rparr>)"
      using assms d by (simp add: fill_node_def Let_def upd bt_ok_def node_ok_def MAX_TRACE_DEPTH_def)
  qed (use assms d in \<open>auto simp: node_record_def trace_record_def trace_frames_zero node_ok_def
      bt_ok_def MAX_TRACE_DEPTH_def\<close>)
qed

lemma apply_take:
  assumes "mc_rep c fs bs" and "0 < pool_room (alloc_cache c) fs"
  obtains p P gs where "AllocPool_apply (alloc_cache c) = (Some p, P)"
    "mCache P = nodes c" "mCount P = mCount (alloc_cache c)" "pool_rep P gs" "p \<notin> set gs"
    "\<And>h. p \<notin> set (bs h)" "set gs \<subseteq> set fs" "insert p (set gs \<union> (\<Union>h. set (bs h))) = {..<unat (mIndex P)}"
    "pool_room (alloc_cache c) fs = Suc (pool_room P gs)"
proof (cases fs)
  case (Cons p gs)
  let ?P = "(alloc_cache c)\<lparr>mStack := next_of (alloc_cache c) p\<rparr>"
  have rep: "pool_rep (alloc_cache c) (p # gs)" using assms(1) Cons by (simp add: mc_rep_def)
  note ap = apply_rep_stack [OF rep]
  show ?thesis
  proof (rule that [OF ap(1)])
    show "pool_rep ?P gs" using ap by simp
    show "p \<notin> set gs" using rep linked_head_fresh unfolding pool_rep_def by fastforce
  qed (use assms Cons in \<open>auto simp: mc_rep_def pool_room_def\<close>)
next
  case Nil
  let ?P = "(alloc_cache c)\<lparr>mIndex := mIndex (alloc_cache c) + 1\<rparr>"
  have rep: "pool_rep (alloc_cache c) []" using assms(1) Nil by (simp add: mc_rep_def)
  have lt: "unat (mIndex (alloc_cache c)) < unat (mCount (alloc_cache c))"
    using assms(2) Nil by (simp add: pool_room_def)
  note ap = apply_rep_fresh [OF rep lt]
  have used: "(\<Union>h. set (bs h)) = {..<unat (mIndex (alloc_cache c))}"
    using assms(1) Nil by (simp add: mc_rep_def)
  show ?thesis
  proof (rule that [OF ap(1)])
    show "pool_rep ?P []" using ap by simp
    show "unat (mIndex (alloc_cache c)) \<notin> set (bs h)" for h using used by blast
    show "insert (unat (mIndex (alloc_cache c))) (set [] \<union> (\<Union>h. set (bs h))) = {..<unat (mIndex ?P)}"
      using ap(3) used by (simp add: lessThan_Suc)
  qed (use ap(3) lt Nil in \<open>auto simp: pool_room_def\<close>)
qed

lemma insert_rep:
  assumes rep: "mc_rep c fs bs" and bt: "bt_ok bt" and "0 < pool_room (alloc_cache c) fs"
  obtains c' p gs where "MemoryCache_insert a sz bt c = Inr c'"
    "mc_rep c' gs (bs(alloc_hash a := p # bs (alloc_hash a)))"
    "\<And>h. p \<notin> set (bs h)" "\<And>q. q \<noteq> p \<Longrightarrow> nodes c' q = nodes c q"
    "nd_addr (nodes c' p) = a" "node_record (nodes c' p) = trace_record sz bt"
    "pool_room (alloc_cache c) fs = Suc (pool_room (alloc_cache c') gs)"
proof -
  from apply_take [OF rep assms(3)] obtain p P gs where
    P: "AllocPool_apply (alloc_cache c) = (Some p, P)" "mCache P = nodes c"
      "mCount P = mCount (alloc_cache c)" "pool_rep P gs" "set gs \<subseteq> set fs"
    and p: "p \<notin> set gs" "\<And>h. p \<notin> set (bs h)"
    and used: "insert p (set gs \<union> (\<Union>h. set (bs h))) = {..<unat (mIndex P)}"
    and rm: "pool_room (alloc_cache c) fs = Suc (pool_room P gs)" by metis
  have "node_ok (nodes c p)" using rep by (simp add: mc_rep_def)
  from fill_node_ok [OF bt this, of a sz] obtain n where
    n: "fill_node a sz bt (nodes c p) = Inr n" "nd_addr n = a" "node_record n = trace_record sz bt"
      "0 \<in> set (nd_trace n)" "node_ok n" by metis
  let ?h = "alloc_hash a"
  let ?n = "n\<lparr>nd_next := alloc_table c ?h\<rparr>"
  define Q where "Q = P\<lparr>mCache := (nodes c)(p := ?n)\<rparr>"
  let ?c = "c\<lparr>alloc_table := (alloc_table c)(?h := Some p), alloc_cache := Q\<rparr>"
  have Q: "mIndex Q = mIndex P" "mCount Q = mCount P" "mStack Q = mStack P"
    "mCache Q p = ?n" "\<And>q. q \<noteq> p \<Longrightarrow> mCache Q q = nodes c q"
    by (simp_all add: Q_def)
  have nx: "linked (next_of Q) q xs = linked (next_of (alloc_cache c)) q xs" if "p \<notin> set xs" for q xs
    using that by (intro linked_cong) (auto simp: Q_def)
  have nP: "next_of P = next_of (alloc_cache c)" using P(2) by simp
  have "mc_rep ?c gs (bs(?h := p # bs ?h))"
    unfolding mc_rep_def
  proof (intro conjI)
    show "pool_rep (alloc_cache ?c) gs" using P(4) p by (simp add: pool_rep_def Q nx nP)
    show "\<forall>h. linked (next_of (alloc_cache ?c)) (alloc_table ?c h) ((bs(?h := p # bs ?h)) h)"
      using rep p by (simp add: mc_rep_def nx Q)
    show "\<forall>h. set gs \<inter> set ((bs(?h := p # bs ?h)) h) = {}"
      using rep P(5) p(1) unfolding mc_rep_def by auto
    show "set gs \<union> (\<Union>h. set ((bs(?h := p # bs ?h)) h)) = {..<unat (mIndex (alloc_cache ?c))}"
      using used unfolding UN_upd_Cons by (simp add: Q)
    have "nodes ?c q = nodes c q" if "q \<in> set (bs h)" for q h
      using that p(2) [of h] Q(5) [of q] by (cases "q = p") simp_all
    then show "\<forall>h. \<forall>q\<in>set ((bs(?h := p # bs ?h)) h).
        alloc_hash (nd_addr (nodes ?c q)) = h \<and> 0 \<in> set (nd_trace (nodes ?c q))"
      using rep n Q by (auto simp: mc_rep_def)
    show "\<forall>q. node_ok (nodes ?c q)"
    proof
      fix q show "node_ok (nodes ?c q)"
        using rep n Q by (cases "q = p") (auto simp: mc_rep_def node_ok_def)
    qed
  qed
  moreover have "MemoryCache_insert a sz bt c = Inr ?c"
    using P n by (simp add: MemoryCache_insert_def Let_def Q_def)
  moreover have "pool_room Q gs = pool_room P gs" by (simp add: pool_room_def Q)
  ultimately show thesis using that [of ?c gs p] p(2) n rm Q by (simp add: node_record_def)
qed

section \<open>Removal\<close>

lemma seek_prev_stops:
  assumes "linked (\<lambda>q. nd_next (heap q)) (Some p) (p # ys @ zs)" and "\<forall>q\<in>set ys. nd_addr (heap q) \<noteq> a"
    and "zs = [] \<or> nd_addr (heap (hd zs)) = a"
  shows "seek_prev heap a p = Some (last (p # ys))"
  using assms
proof (induction ys arbitrary: p)
  case Nil
  then show ?case
    by (cases zs) (auto simp: seek_prev.simps [of heap a p])
next
  case (Cons y ys)
  then show ?case by (simp add: seek_prev.simps [of heap a p])
qed

text \<open>Two pools that differ in \<open>next\<close> fields only.\<close>

definition same_nodes :: "AllocPool \<Rightarrow> AllocPool \<Rightarrow> bool" where
  "same_nodes P Q \<longleftrightarrow>
     mIndex P = mIndex Q \<and> mCount P = mCount Q \<and>
     (\<forall>q. nd_addr (mCache P q) = nd_addr (mCache Q q) \<and> nd_size (mCache P q) = nd_size (mCache Q q) \<and>
          nd_trace (mCache P q) = nd_trace (mCache Q q))"

lemma same_nodes_refl [simp]: "same_nodes P P"
  and same_nodes_set_next [simp]: "same_nodes (set_next p q P) P"
  by (simp_all add: same_nodes_def)

lemma same_nodes_trans [trans]: "same_nodes P Q \<Longrightarrow> same_nodes Q R \<Longrightarrow> same_nodes P R"
  by (simp add: same_nodes_def)

lemma remove_alloc_none:
  assumes "linked (next_of P) header xs" and "\<forall>q\<in>set xs. nd_addr (mCache P q) \<noteq> a"
  shows "remove_alloc P header a = Inr (header, P, None)"
proof (cases xs)
  case Nil
  then show ?thesis using assms by (simp add: remove_alloc_def)
next
  case (Cons p ys)
  then have header: "header = Some p" using assms by simp
  have "seek_prev (mCache P) a p = Some (last (p # ys))"
    using seek_prev_stops [of "mCache P" p ys "[]" a] assms Cons by simp
  moreover have "next_of P (last (p # ys)) = None"
    using linked_suffix [of "next_of P" header "butlast xs" "last xs" "[]"] assms(1)
      append_butlast_last_id [of xs] Cons by simp
  ultimately show ?thesis using assms Cons by (simp add: remove_alloc_def header)
qed

lemma remove_alloc_first:
  assumes "linked (next_of P) header (ys @ t # zs)" and "\<forall>q\<in>set ys. nd_addr (mCache P q) \<noteq> a"
    and "nd_addr (mCache P t) = a"
  obtains header' Q where "remove_alloc P header a = Inr (header', Q, Some t)"
    "linked (next_of Q) header' (ys @ zs)" "same_nodes Q P" "mStack Q = mStack P"
    "\<And>q. q \<notin> set ys \<Longrightarrow> next_of Q q = next_of P q"
proof (cases ys)
  case Nil
  then show thesis using assms that [of "next_of P t" P] by (simp add: remove_alloc_def)
next
  case (Cons p us)
  let ?y = "last ys"
  let ?Q = "set_next ?y (next_of P t) P"
  have ys: "ys = butlast ys @ [?y]" using Cons by simp
  have chain: "linked (next_of P) header (butlast ys @ ?y # t # zs)"
    using assms(1) Cons append_butlast_last_id [of ys] by (metis append.assoc append_Cons append_Nil list.distinct(1))
  have header: "header = Some p" using assms(1) Cons by simp
  have seek: "seek_prev (mCache P) a p = Some ?y"
    using seek_prev_stops [of "mCache P" p us "t # zs" a] assms Cons by simp
  have "next_of P ?y = Some t"
    using linked_suffix [OF chain] by simp
  then have "remove_alloc P header a = Inr (header, ?Q, Some t)"
    using assms(2) seek Cons by (simp add: remove_alloc_def header)
  moreover have "linked (next_of ?Q) header (ys @ zs)"
    using linked_unlink [OF chain] ys by (metis append.assoc append_Cons append_Nil set_next_simps(4))
  moreover have "next_of ?Q q = next_of P q" if "q \<notin> set ys" for q
    using that Cons last_in_set [of ys] unfolding next_set_next by auto
  ultimately show thesis using that [of header ?Q] by simp
qed

lemma mc_rep_disjoint:
  "mc_rep c fs bs \<Longrightarrow> h \<noteq> k \<Longrightarrow> p \<in> set (bs h) \<Longrightarrow> p \<notin> set (bs k)"
  unfolding mc_rep_def by metis

lemma UN_upd_remove:
  assumes "bs k = ys @ t # zs"
  shows "insert t (\<Union>h. set ((bs(k := ys @ zs)) h)) = (\<Union>h. set (bs h))"
proof (intro equalityI subsetI)
  fix x assume "x \<in> (\<Union>h. set (bs h))"
  then obtain h where h: "x \<in> set (bs h)" by blast
  show "x \<in> insert t (\<Union>h. set ((bs(k := ys @ zs)) h))"
  proof (cases "x = t")
    case False
    then have "x \<in> set ((bs(k := ys @ zs)) h)" using h assms by auto
    then show ?thesis by blast
  qed simp
next
  fix x assume "x \<in> insert t (\<Union>h. set ((bs(k := ys @ zs)) h))"
  then consider "x = t" | h where "x \<in> set ((bs(k := ys @ zs)) h)" by blast
  then show "x \<in> (\<Union>h. set (bs h))"
  proof cases
    case 1
    then have "x \<in> set (bs k)" using assms by simp
    then show ?thesis by blast
  next
    case 2
    then have "x \<in> set (bs h)" using assms by (cases "h = k") auto
    then show ?thesis by blast
  qed
qed

lemma recycle_same: "same_nodes (AllocPool_recycle p P) P"
  by (simp add: same_nodes_def AllocPool_recycle_def)

text \<open>Unlinking the node \<open>t\<close> from its chain and recycling it keeps the representation.\<close>

lemma unlink_rep:
  assumes rep: "mc_rep c fs bs" and h: "bs h = ys @ t # zs"
    and Q: "linked (next_of Q) header (ys @ zs)" "same_nodes Q (alloc_cache c)"
      "mStack Q = mStack (alloc_cache c)"
      "\<And>q. q \<notin> set ys \<Longrightarrow> next_of Q q = next_of (alloc_cache c) q"
  shows "mc_rep \<lparr>alloc_table = (alloc_table c)(h := header), alloc_cache = AllocPool_recycle t Q\<rparr>
    (t # fs) (bs(h := ys @ zs))"
proof -
  define R where "R = AllocPool_recycle t Q"
  let ?c = "\<lparr>alloc_table = (alloc_table c)(h := header), alloc_cache = R\<rparr>"
  have same: "same_nodes R (alloc_cache c)"
    unfolding R_def using recycle_same Q(2) by (rule same_nodes_trans)
  have chain: "linked (next_of (alloc_cache c)) (alloc_table c k) (bs k)" for k
    using rep by (simp add: mc_rep_def)
  have dist: "t \<notin> set ys" "t \<notin> set zs" using linked_distinct [OF chain [of h]] h by auto
  have t: "t \<in> set (bs h)" using h by simp
  have tfs: "t \<notin> set fs" and tlt: "t < unat (mIndex (alloc_cache c))"
    using rep t by (auto simp: mc_rep_def)
  have keep: "linked (next_of R) p xs = linked (next_of Q) p xs" if "t \<notin> set xs" for p xs
    using that by (intro linked_cong) (auto simp: R_def AllocPool_recycle_def set_next_def)
  have other: "linked (next_of Q) p xs = linked (next_of (alloc_cache c)) p xs"
    if "set xs \<inter> set ys = {}" for p xs
    using that Q(4) by (intro linked_cong) auto
  have fsbs: "set fs \<inter> set (bs k) = {}" for k using rep by (simp add: mc_rep_def)
  have "set fs \<inter> set ys = {}" using fsbs [of h] h by auto
  then have "pool_rep Q fs"
    using rep Q(2,3) other by (simp add: mc_rep_def pool_rep_def same_nodes_def)
  then have pool: "pool_rep R (t # fs)"
    unfolding R_def using tfs tlt Q(2) by (intro recycle_rep) (auto simp: same_nodes_def)
  have "linked (next_of R) (((alloc_table c)(h := header)) k) ((bs(h := ys @ zs)) k)" for k
  proof (cases "k = h")
    case True
    then show ?thesis using Q(1) keep [of "ys @ zs"] dist by simp
  next
    case False
    have "p \<notin> set (bs k)" if "p \<in> set (bs h)" for p using mc_rep_disjoint [OF rep _ that, of k] False by simp
    then have "t \<notin> set (bs k)" "set (bs k) \<inter> set ys = {}" using h by auto
    then show ?thesis using chain [of k] False keep other by simp
  qed
  moreover have "set (t # fs) \<union> (\<Union>k. set ((bs(h := ys @ zs)) k)) = {..<unat (mIndex R)}"
  proof -
    have "set fs \<union> (\<Union>k. set (bs k)) = {..<unat (mIndex R)}"
      using rep same by (simp add: mc_rep_def same_nodes_def)
    then show ?thesis using UN_upd_remove [of bs h ys t zs, OF h] by (metis Un_insert_left Un_insert_right list.simps(15))
  qed
  moreover have "set (t # fs) \<inter> set ((bs(h := ys @ zs)) k) = {}" for k
  proof (cases "k = h")
    case True
    then show ?thesis using fsbs [of h] h dist by auto
  next
    case False
    then show ?thesis using fsbs [of k] mc_rep_disjoint [OF rep _ t, of k] by auto
  qed
  moreover have "alloc_hash (nd_addr (mCache R p)) = k \<and> 0 \<in> set (nd_trace (mCache R p))"
    if "p \<in> set ((bs(h := ys @ zs)) k)" for p k
  proof -
    have "p \<in> set (bs k)" using that h by (cases "k = h") auto
    then show ?thesis using rep same by (simp add: mc_rep_def same_nodes_def)
  qed
  moreover have "node_ok (mCache R p)" for p
    using rep same by (simp add: mc_rep_def same_nodes_def node_ok_def)
  ultimately show ?thesis
    unfolding R_def [symmetric] mc_rep_def using pool by simp
qed

lemma remove_rep:
  fixes a :: u64
  assumes rep: "mc_rep c fs bs"
  defines "P \<equiv> \<lambda>p. nd_addr (nodes c p) = a"
  obtains c' gs where "MemoryCache_remove a c = Inr c'"
    "mc_rep c' gs (bs(alloc_hash a := del_first P (bs (alloc_hash a))))"
    "same_nodes (alloc_cache c') (alloc_cache c)"
    "pool_room (alloc_cache c') gs =
       pool_room (alloc_cache c) fs + (if filter P (bs (alloc_hash a)) = [] then 0 else 1)"
proof (cases "\<exists>p\<in>set (bs (alloc_hash a)). P p")
  case False
  let ?h = "alloc_hash a"
  have "linked (next_of (alloc_cache c)) (alloc_table c ?h) (bs ?h)" using rep by (simp add: mc_rep_def)
  from remove_alloc_none [OF this, of a] False
  have "remove_alloc (alloc_cache c) (alloc_table c ?h) a = Inr (alloc_table c ?h, alloc_cache c, None)"
    by (auto simp: P_def)
  then have "MemoryCache_remove a c = Inr c" by (simp add: MemoryCache_remove_def Let_def)
  moreover have "bs(?h := del_first P (bs ?h)) = bs" using False by auto
  ultimately show thesis using that [of c fs] rep False by simp
next
  case True
  let ?h = "alloc_hash a"
  from split_at_first [OF True] obtain ys t zs
    where h: "bs ?h = ys @ t # zs" and ys: "\<forall>q\<in>set ys. \<not> P q" and t: "P t" by blast
  have "linked (next_of (alloc_cache c)) (alloc_table c ?h) (ys @ t # zs)"
    using rep h by (metis mc_rep_def)
  from remove_alloc_first [OF this] ys t obtain header Q where
    Q: "remove_alloc (alloc_cache c) (alloc_table c ?h) a = Inr (header, Q, Some t)"
      "linked (next_of Q) header (ys @ zs)" "same_nodes Q (alloc_cache c)"
      "mStack Q = mStack (alloc_cache c)" "\<And>q. q \<notin> set ys \<Longrightarrow> next_of Q q = next_of (alloc_cache c) q"
    unfolding P_def by metis
  let ?c = "\<lparr>alloc_table = (alloc_table c)(?h := header), alloc_cache = AllocPool_recycle t Q\<rparr>"
  have "alloc_table c ?h \<noteq> None" using rep h by (metis list.distinct(1) append_is_Nil_conv linked_None mc_rep_def)
  then have "MemoryCache_remove a c = Inr ?c" using Q(1) by (auto simp: MemoryCache_remove_def Let_def)
  moreover have "mc_rep ?c (t # fs) (bs(?h := del_first P (bs ?h)))"
    using unlink_rep [OF rep h Q(2-5)] del_first_append [OF ys t, of zs] by (simp add: h)
  moreover have same: "same_nodes (alloc_cache ?c) (alloc_cache c)"
    using same_nodes_trans [OF recycle_same Q(3)] by simp
  moreover have "filter P (bs ?h) \<noteq> []" using h t by simp
  moreover have "pool_room (alloc_cache ?c) (t # fs) = Suc (pool_room (alloc_cache c) fs)"
    using same by (simp add: pool_room_def same_nodes_def)
  ultimately show thesis using that [of ?c "t # fs"] by simp
qed

section \<open>The contract of the cache\<close>

lemma clear_table_all: "clear_table is t h = (if h \<in> word_of_nat ` set is then None else t h)"
  by (induction "is" arbitrary: t) auto

lemma clear_table_16: "clear_table [0..<65536] t = (\<lambda>_. None)"
proof
  fix h :: u16
  have "unat h < 65536" using unsigned_less [of h] by simp
  then have "h \<in> word_of_nat ` set [0..<65536]" by (intro image_eqI [of _ _ "unat h"]) auto
  then show "clear_table [0..<65536] t h = None" by (simp add: clear_table_all)
qed

definition cache_made :: "MemoryCache \<Rightarrow> bool" where
  "cache_made c \<longleftrightarrow> mCount (alloc_cache c) = ALLOC_CACHE_SIZE \<and> (\<forall>p. node_ok (nodes c p))"

lemma reset_mc_rep: "cache_made c \<Longrightarrow> mc_rep (MemoryCache_reset c) [] (\<lambda>_. [])"
  by (auto simp: mc_rep_def MemoryCache_reset_def clear_table_16 AllocPool_reset_def pool_rep_def
      cache_made_def ALLOC_CACHE_SIZE_def)

lemma reset_content:
  assumes "cache_made c"
  shows "cache_ok (MemoryCache_reset c) \<and> live (MemoryCache_reset c) = (\<lambda>_. []) \<and>
    room (MemoryCache_reset c) = 2 ^ 15"
proof -
  note rep = reset_mc_rep [OF assms]
  have "room (MemoryCache_reset c) = 2 ^ 15"
    using assms unfolding mc_rep_room [OF rep]
    by (simp add: pool_room_def MemoryCache_reset_def AllocPool_reset_def cache_made_def
        ALLOC_CACHE_SIZE_def)
  moreover have "live (MemoryCache_reset c) = (\<lambda>_. [])" by (simp add: mc_rep_live [OF rep] fun_eq_iff)
  ultimately show ?thesis using rep by (auto simp: cache_ok_def)
qed

lemma insert_content:
  assumes "cache_ok c" and "bt_ok bt" and "0 < room c"
  shows "\<exists>c'. MemoryCache_insert a n bt c = Inr c' \<and> cache_ok c' \<and> Suc (room c') = room c \<and>
    live c' = (live c)(a := trace_record n bt # live c a)"
proof -
  from assms(1) obtain fs bs where rep: "mc_rep c fs bs" by (auto simp: cache_ok_def)
  note rm = mc_rep_room [OF rep]
  from insert_rep [OF rep assms(2), of a n] assms(3) rm obtain c' p gs where
    c': "MemoryCache_insert a n bt c = Inr c'"
      "mc_rep c' gs (bs(alloc_hash a := p # bs (alloc_hash a)))"
      "\<And>h. p \<notin> set (bs h)" "\<And>q. q \<noteq> p \<Longrightarrow> nodes c' q = nodes c q"
      "nd_addr (nodes c' p) = a" "node_record (nodes c' p) = trace_record n bt"
      "pool_room (alloc_cache c) fs = Suc (pool_room (alloc_cache c') gs)" by metis
  have same: "nodes c' q = nodes c q" if "q \<in> set (bs h)" for q h using that c'(3,4) by metis
  have "live c' b = ((live c)(a := trace_record n bt # live c a)) b" for b
    unfolding mc_rep_live [OF c'(2)] fun_upd_apply mc_rep_live [OF rep]
    using c'(5,6) same by (auto intro!: map_cong filter_cong)
  then show ?thesis
    using c' rm mc_rep_room [OF c'(2)] by (auto simp: cache_ok_def)
qed

lemma insert_full_content:
  assumes "cache_ok c" and "room c = 0"
  shows "MemoryCache_insert a n bt c = Inr c"
  using assms apply_rep_full
  by (auto simp: cache_ok_def mc_rep_def mc_rep_room MemoryCache_insert_def)

lemma remove_content:
  assumes "cache_ok c"
  shows "\<exists>c'. MemoryCache_remove a c = Inr c' \<and> cache_ok c' \<and> live c' = (live c)(a := tl (live c a)) \<and>
    room c' = room c + (if live c a = [] then 0 else 1)"
proof -
  from assms(1) obtain fs bs where rep: "mc_rep c fs bs" by (auto simp: cache_ok_def)
  let ?P = "\<lambda>p. nd_addr (nodes c p) = a"
  from remove_rep [OF rep, of a] obtain c' gs where
    c': "MemoryCache_remove a c = Inr c'"
      "mc_rep c' gs (bs(alloc_hash a := del_first ?P (bs (alloc_hash a))))"
      "same_nodes (alloc_cache c') (alloc_cache c)"
      "pool_room (alloc_cache c') gs =
        pool_room (alloc_cache c) fs + (if filter ?P (bs (alloc_hash a)) = [] then 0 else 1)" by metis
  have same: "nd_addr (nodes c' q) = nd_addr (nodes c q)" "node_record (nodes c' q) = node_record (nodes c q)"
    for q using c'(3) by (auto simp: same_nodes_def node_record_def)
  have "live c' b = ((live c)(a := tl (live c a))) b" for b
    unfolding mc_rep_live [OF c'(2)] fun_upd_apply mc_rep_live [OF rep]
    by (auto simp: same map_tl filter_del_first_other)
  then show ?thesis
    using c' mc_rep_room [OF c'(2)] mc_rep_room [OF rep] mc_rep_live [OF rep, of a]
    by (auto simp: cache_ok_def)
qed

definition MemoryCache_vtable :: "MemoryCache Cache" where
  "MemoryCache_vtable =
     \<lparr>c_reset = MemoryCache_reset, c_insert = MemoryCache_insert, c_remove = MemoryCache_remove\<rparr>"

interpretation mc: leak_cache MemoryCache_vtable cache_made cache_ok live room "2 ^ 15"
proof
  show "\<exists>c'. c_insert MemoryCache_vtable a n bt c = Inr c' \<and> cache_ok c' \<and> room c' = 0 \<and> live c' = live c"
    if "cache_ok c" "room c = 0" for c a n bt
    using that by (simp add: MemoryCache_vtable_def insert_full_content)
qed (use reset_content insert_content remove_content in \<open>simp_all add: MemoryCache_vtable_def\<close>)

section \<open>The report lists the live records\<close>

text \<open>The header lines of a report, as pairs of address and size.\<close>

definition headers :: "report_line list \<Rightarrow> (u64 \<times> u32) list" where
  "headers ls = List.map_filter (\<lambda>l. case l of Header a n \<Rightarrow> Some (a, n) | _ \<Rightarrow> None) ls"

lemma headers_simps [simp]:
  "headers [] = []" "headers (xs @ ys) = headers xs @ headers ys"
  "headers (Header a n # ls) = (a, n) # headers ls"
  by (simp_all add: headers_def List.map_filter_def)

lemma headers_frame [simp]: "headers (frame_line dm info pc # ls) = headers ls"
  by (auto simp: headers_def List.map_filter_def frame_line_def Let_def split: option.splits)

lemma trace_lines_ok:
  "0 \<in> set xs \<Longrightarrow> \<exists>ls d'. trace_lines xdl dm xs d = Inr (ls, d') \<and> headers ls = [] \<and>
     length ls = length (trace_frames xs)"
proof (induction xs arbitrary: d)
  case Nil
  then show ?case by simp
next
  case (Cons x xs)
  show ?case
  proof (cases "x = 0")
    case True
    then show ?thesis by (simp add: trace_frames_def)
  next
    case False
    obtain info d1 where x: "xdl x d = (info, d1)" by fastforce
    from False Cons.prems have "0 \<in> set xs" by simp
    from Cons.IH [OF this, of d1] False x show ?thesis by (auto simp: trace_frames_def)
  qed
qed

lemma write_trace_ok:
  assumes "0 \<in> set (nd_trace n)"
  shows "\<exists>ls d'. write_trace xdl dm n d = Inr (ls, d') \<and> headers ls = [(nd_addr n, nd_size n)]"
  using trace_lines_ok [OF assms, of xdl dm d] by (auto simp: write_trace_def)

definition node_header :: "AllocNode \<Rightarrow> u64 \<times> u32" where
  "node_header n = (nd_addr n, nd_size n)"

lemma print_chain_ok:
  assumes "linked (\<lambda>q. nd_next (heap q)) p xs" and "\<forall>q\<in>set xs. 0 \<in> set (nd_trace (heap q))"
  shows "\<exists>ls d'. print_chain (write_trace xdl dm) heap p acc d = Some (Inr (ls, d')) \<and>
    headers ls = headers acc @ map (\<lambda>q. node_header (heap q)) xs"
  using assms
proof (induction xs arbitrary: p acc d)
  case Nil
  then show ?case by (simp add: print_chain.simps)
next
  case (Cons x xs)
  then have tail: "linked (\<lambda>q. nd_next (heap q)) (nd_next (heap x)) xs" and p: "p = Some x"
    and z: "0 \<in> set (nd_trace (heap x))" and zs: "\<forall>q\<in>set xs. 0 \<in> set (nd_trace (heap q))" by auto
  from write_trace_ok [OF z, of xdl dm d] obtain ls d1 where
    w: "write_trace xdl dm (heap x) d = Inr (ls, d1)" "headers ls = [node_header (heap x)]"
    by (auto simp: node_header_def)
  from Cons.IH [OF tail zs, of "acc @ ls" d1] show ?case
    unfolding p by (subst print_chain.simps) (simp add: w)
qed

lemma print_table_ok:
  assumes "\<And>i. i \<in> set is \<Longrightarrow> linked (\<lambda>q. nd_next (heap q)) (t i) (bs i)"
    and "\<And>i. i \<in> set is \<Longrightarrow> \<forall>q\<in>set (bs i). 0 \<in> set (nd_trace (heap q))"
  shows "\<exists>ls d'. print_table (write_trace xdl dm) heap (map t is) acc d = Inr (ls, d') \<and>
    headers ls = headers acc @ concat (map (\<lambda>i. map (\<lambda>q. node_header (heap q)) (bs i)) is)"
  using assms
proof (induction "is" arbitrary: acc d)
  case Nil
  then show ?case by simp
next
  case (Cons i "is")
  have "linked (\<lambda>q. nd_next (heap q)) (t i) (bs i)" "\<forall>q\<in>set (bs i). 0 \<in> set (nd_trace (heap q))"
    using Cons.prems by auto
  from print_chain_ok [OF this, of xdl dm acc d] obtain ls d1 where
    c: "print_chain (write_trace xdl dm) heap (t i) acc d = Some (Inr (ls, d1))"
      "headers ls = headers acc @ map (\<lambda>q. node_header (heap q)) (bs i)" by blast
  have "\<exists>ls' d'. print_table (write_trace xdl dm) heap (map t is) ls d1 = Inr (ls', d') \<and>
      headers ls' = headers ls @ concat (map (\<lambda>i. map (\<lambda>q. node_header (heap q)) (bs i)) is)"
    using Cons.prems by (intro Cons.IH) auto
  then show ?case using c by auto
qed

text \<open>All recorded pairs, in table order, and the pairs of one address among them.\<close>

definition all_headers :: "MemoryCache \<Rightarrow> (u64 \<times> u32) list" where
  "all_headers c =
     concat (map (\<lambda>i. map (\<lambda>q. node_header (nodes c q)) (bucket c (word_of_nat i))) [0..<2 ^ 16])"

lemma print_headers:
  assumes "cache_ok c" and "length mSpace < 1017"
  shows "\<exists>ls. MemoryCache_print xdl dm d mSpace True c = Inr (Some ls) \<and> headers ls = all_headers c"
proof -
  from assms(1) obtain fs bs where rep: "mc_rep c fs bs" by (auto simp: cache_ok_def)
  then have b: "bucket c = bs" by (rule mc_rep_walks)
  have "\<exists>ls d'. print_table (write_trace xdl dm) (nodes c)
      (map (\<lambda>i. alloc_table c (word_of_nat i)) [0..<2 ^ 16]) [] d = Inr (ls, d') \<and>
    headers ls = headers [] @ concat (map (\<lambda>i. map (\<lambda>q. node_header (nodes c q)) (bs (word_of_nat i))) [0..<2 ^ 16])"
    using rep by (intro print_table_ok) (auto simp: mc_rep_def)
  then show ?thesis
    using assms(2) by (auto simp: MemoryCache_print_def table_list_def all_headers_def b
        simp del: upt.simps)
qed

lemma all_headers_live:
  assumes "cache_ok c"
  shows "filter (\<lambda>(b, n). b = a) (all_headers c) = map (\<lambda>(n, _). (a, n)) (live c a)"
proof -
  from assms(1) obtain fs bs where rep: "mc_rep c fs bs" by (auto simp: cache_ok_def)
  then have b: "bucket c = bs" by (rule mc_rep_walks)
  let ?F = "\<lambda>xs. filter (\<lambda>(b, n). b = a) (map (\<lambda>q. node_header (nodes c q)) xs)"
  have "filter (\<lambda>(b, n). b = a) (all_headers c) =
      concat (map (\<lambda>i. ?F (bs (word_of_nat i))) [0..<2 ^ 16])"
    unfolding all_headers_def b by (simp add: filter_concat comp_def del: upt.simps)
  also have "\<dots> = ?F (bs (word_of_nat (unat (alloc_hash a))))"
  proof (rule concat_single)
    show "unat (alloc_hash a) < 2 ^ 16" using unsigned_less [of "alloc_hash a"] by simp
    fix i :: nat assume i: "i < 2 ^ 16" "i \<noteq> unat (alloc_hash a)"
    then have "unat (word_of_nat i :: u16) = i" by (simp add: unat_of_nat)
    with i(2) have "word_of_nat i \<noteq> alloc_hash a" by metis
    then have "\<forall>q\<in>set (bs (word_of_nat i)). nd_addr (nodes c q) \<noteq> a"
      using rep by (auto simp: mc_rep_def)
    then show "?F (bs (word_of_nat i)) = []" by (auto simp: filter_empty_conv node_header_def)
  qed
  also have "\<dots> = map (\<lambda>(n, _). (a, n)) (live c a)"
    unfolding mc_rep_live [OF rep] by (auto simp: filter_map comp_def node_header_def node_record_def
        intro!: map_cong)
  finally show ?thesis .
qed

section \<open>Properties\<close>

text \<open>C5. The leak cache is a faithful store. After \<open>reset\<close>, any sequence of
  insertions (with backtraces that fit the array) and removals returns without a fault, keeps the
  invariant of the chains and of the node pool, and leaves exactly the records the specification
  gives: an insertion puts a record of the truncated size and the kept frames in front of the
  records of its address while one of the 32768 nodes is free and changes nothing otherwise; a
  removal drops the latest record of its address and frees its node.\<close>

theorem memory_cache_refines:
  assumes "cache_made c" and "\<forall>e\<in>set os. op_ok e"
  shows "\<exists>c'. run_ops MemoryCache_vtable os (MemoryCache_reset c) = Inr c' \<and> cache_ok c' \<and>
    (live c', room c') = spec_run os (\<lambda>_. [], 2 ^ 15)"
  using mc.run_refines [OF _ assms(2), of "MemoryCache_reset c"] reset_content [OF assms(1)] by simp

definition sample_cache :: MemoryCache where
  "sample_cache = MemoryCache_new \<lparr>alloc_table = (\<lambda>h. Some 5), alloc_cache = sample_pool\<rparr>"

definition sample_bt :: Backtrace where
  "sample_bt = \<lparr>bt_depth = 5, bt_trace = [11, 12, 13, 14, 15] @ replicate 11 99\<rparr>"

lemma sample_cache_made: "cache_made sample_cache"
  by (simp add: cache_made_def sample_cache_def MemoryCache_new_def sample_pool_def
      AllocPool_new_def node_ok_def MAX_TRACE_DEPTH_def)

lemma sample_bt_ok: "bt_ok sample_bt"
  by (simp add: bt_ok_def sample_bt_def MAX_TRACE_DEPTH_def)

lemma sample_record: "trace_record n sample_bt = (ucast n, [13, 14, 15])"
  by (simp add: trace_record_def sample_bt_def kept_depth_def trace_frames_def)

text \<open>Two blocks whose addresses share a hash, and a block recorded twice.\<close>

theorem memory_cache_refines_witness:
  "\<exists>c'. run_ops MemoryCache_vtable
       [Insert 0x1000 64 sample_bt, Insert 0x401000 32 sample_bt, Insert 0x1000 128 sample_bt,
        Remove 0x1000, Remove 0x2000] (MemoryCache_reset sample_cache) = Inr c' \<and>
     live c' 0x1000 = [(64, [13, 14, 15])] \<and> live c' 0x401000 = [(32, [13, 14, 15])] \<and>
     room c' = 32766"
proof -
  let ?os = "[Insert 0x1000 64 sample_bt, Insert 0x401000 32 sample_bt, Insert 0x1000 128 sample_bt,
    Remove 0x1000, Remove 0x2000]"
  have "\<forall>e\<in>set ?os. op_ok e" by (simp add: op_ok_def sample_bt_ok)
  from memory_cache_refines [OF sample_cache_made this] obtain c' where
    c': "run_ops MemoryCache_vtable ?os (MemoryCache_reset sample_cache) = Inr c'"
    "(live c', room c') = spec_run ?os (\<lambda>_. [], 2 ^ 15)" by blast
  then have "live c' 0x1000 = [(64, [13, 14, 15])] \<and> live c' 0x401000 = [(32, [13, 14, 15])] \<and>
      room c' = 32766"
    by (simp add: sample_record)
  with c'(1) show ?thesis by blast
qed

text \<open>C6. The report is exact. When the report file can be opened and its path fits the
  buffer, \<open>print\<close> walks every chain of a well-formed cache to its end without a fault, and the
  header lines it writes for an address are, in order, one per live record of that address with
  the recorded size: no live record is missing, and nothing is reported that was removed.\<close>

theorem report_exact:
  assumes "cache_ok c" and "length mSpace < 1017"
  shows "\<exists>ls. MemoryCache_print xdl dm d mSpace True c = Inr (Some ls) \<and>
    (\<forall>a. filter (\<lambda>(b, n). b = a) (headers ls) = map (\<lambda>(n, _). (a, n)) (live c a))"
  using print_headers [OF assms, of xdl dm d] all_headers_live [OF assms(1)] by metis

theorem report_exact_witness:
  "\<exists>c ls. MemoryCache_insert 0x1000 64 sample_bt (MemoryCache_reset sample_cache) = Inr c \<and>
     MemoryCache_print (\<lambda>pc d. (None, d)) (\<lambda>_. None) () ''/sdcard/raphael'' True c = Inr (Some ls) \<and>
     filter (\<lambda>(b, n). b = 0x1000) (headers ls) = [(0x1000, 64)]"
proof -
  have "cache_ok (MemoryCache_reset sample_cache)" "0 < room (MemoryCache_reset sample_cache)"
    and lv: "live (MemoryCache_reset sample_cache) = (\<lambda>_. [])"
    using reset_content [OF sample_cache_made] by auto
  from insert_content [OF this(1) sample_bt_ok this(2), of "0x1000" 64] obtain c where
    c: "MemoryCache_insert 0x1000 64 sample_bt (MemoryCache_reset sample_cache) = Inr c"
      "cache_ok c" "live c 0x1000 = [(64, [13, 14, 15])]" by (auto simp: lv sample_record)
  from report_exact [OF c(2), of "''/sdcard/raphael''" "\<lambda>pc d. (None, d)" "\<lambda>_. None" "()"] c(3)
  obtain ls where "MemoryCache_print (\<lambda>pc d. (None, d)) (\<lambda>_. None) () ''/sdcard/raphael'' True c = Inr (Some ls)"
    "filter (\<lambda>(b, n). b = 0x1000) (headers ls) = [(0x1000, 64)]" by fastforce
  with c(1) show ?thesis by blast
qed

end
