(* ===== verification/Hook_Proxy.thy ===== *)
theory Hook_Proxy
  imports Leak_Cache
begin

text \<open>
  The allocation proxies and their configuration (\<open>cpp/HookProxy.h\<close>, \<open>cpp/Raphael.h\<close>), arm64
  build. The C library functions the proxies wrap are not part of the repository: they are the
  fields of \<open>libc\<close>, functions on an unspecified heap state. The cache is used through its virtual
  operations only.
\<close>

section \<open>Configuration\<close>

definition MAP64_MODE :: u32 where "MAP64_MODE = 0x00800000"
definition ALLOC_MODE :: u32 where "ALLOC_MODE = 0x00400000"
definition DEPTH_MASK :: u32 where "DEPTH_MASK = 0x001F0000"
definition LIMIT_MASK :: u32 where "LIMIT_MASK = 0x0000FFFF"
definition MAP_FAILED :: u64 where "MAP_FAILED = - 1"

record 'c proxy =
  cache :: "'c option"
  guard :: "nat \<Rightarrow> bool"
  limit :: u32
  depth :: u32
  isPss :: bool
  isVss :: bool

definition update_configs :: "'c option \<Rightarrow> u32 \<Rightarrow> 'c proxy \<Rightarrow> 'c proxy" where
  "update_configs pNew params s = s
     \<lparr>cache := (case pNew of None \<Rightarrow> cache s | Some c \<Rightarrow> Some c),
      limit := params AND LIMIT_MASK,
      depth := drop_bit 16 (params AND DEPTH_MASK),
      isPss := (params AND ALLOC_MODE \<noteq> 0),
      isVss := (params AND MAP64_MODE \<noteq> 0)\<rparr>"

section \<open>The wrapped functions\<close>

text \<open>
  \<open>mmap\<close> takes its last four arguments as one value. \<open>own_stack\<close> is the stack base of the
  calling thread when \<open>pthread_getattr_np\<close> succeeds.
\<close>

record 'h libc =
  malloc_origin :: "u64 \<Rightarrow> 'h \<Rightarrow> u64 \<times> 'h"
  calloc_origin :: "u64 \<Rightarrow> u64 \<Rightarrow> 'h \<Rightarrow> u64 \<times> 'h"
  realloc_origin :: "u64 \<Rightarrow> u64 \<Rightarrow> 'h \<Rightarrow> u64 \<times> 'h"
  memalign_origin :: "u64 \<Rightarrow> u64 \<Rightarrow> 'h \<Rightarrow> u64 \<times> 'h"
  free_origin :: "u64 \<Rightarrow> 'h \<Rightarrow> 'h"
  mmap_origin :: "u64 \<Rightarrow> u64 \<Rightarrow> u32 \<times> u32 \<times> u32 \<times> u64 \<Rightarrow> 'h \<Rightarrow> u64 \<times> 'h"
  mmap64_origin :: "u64 \<Rightarrow> u64 \<Rightarrow> u32 \<times> u32 \<times> u32 \<times> u64 \<Rightarrow> 'h \<Rightarrow> u64 \<times> 'h"
  munmap_origin :: "u64 \<Rightarrow> u64 \<Rightarrow> 'h \<Rightarrow> u32 \<times> 'h"
  own_stack :: "nat \<Rightarrow> 'h \<Rightarrow> u64 option"
  pthread_exit_origin :: "nat \<Rightarrow> 'h \<Rightarrow> 'h"

text \<open>
  What a proxy runs against: the C library, the cache's virtual table, the frames the unwinder
  writes for a given maximum depth, and what the uninitialised frame array on the stack holds.
\<close>

record ('h, 'c) env =
  lib :: "'h libc"
  vt :: "'c Cache"
  unwind :: "u32 \<Rightarrow> 'h \<Rightarrow> u64 list"
  stale :: "'h \<Rightarrow> u64 list"

record ('h, 'c) world =
  heap :: 'h
  px :: "'c proxy"

definition set_guard :: "nat \<Rightarrow> bool \<Rightarrow> ('h, 'c) world \<Rightarrow> ('h, 'c) world" where
  "set_guard t b w = w\<lparr>px := (px w)\<lparr>guard := (guard (px w))(t := b)\<rparr>\<rparr>"

definition set_cache :: "'c \<Rightarrow> ('h, 'c) world \<Rightarrow> ('h, 'c) world" where
  "set_cache c w = w\<lparr>px := (px w)\<lparr>cache := Some c\<rparr>\<rparr>"

section \<open>Cache updates\<close>

text \<open>The unwinder fills the frame array of 16 words from its start; a longer trace overruns it.\<close>

definition insert_memory_backtrace ::
    "('h, 'c) env \<Rightarrow> u64 \<Rightarrow> u64 \<Rightarrow> ('h, 'c) world \<Rightarrow> ('h, 'c) world res" where
  "insert_memory_backtrace E address sz w =
     (let frames = unwind E (depth (px w) + 1) (heap w) in
      if MAX_TRACE_DEPTH < length frames then Inl Array_Overflow
      else
        let backtrace = \<lparr>bt_depth = word_of_nat (length frames),
                         bt_trace = frames @ drop (length frames) (stale E (heap w))\<rparr>
        in case cache (px w) of
             None \<Rightarrow> Inl Null_Deref
           | Some c \<Rightarrow> res_bind (c_insert (vt E) address sz backtrace c) (\<lambda>c'. Inr (set_cache c' w)))"

definition cache_remove :: "('h, 'c) env \<Rightarrow> u64 \<Rightarrow> ('h, 'c) world \<Rightarrow> ('h, 'c) world res" where
  "cache_remove E address w =
     (case cache (px w) of
        None \<Rightarrow> Inl Null_Deref
      | Some c \<Rightarrow> res_bind (c_remove (vt E) address c) (\<lambda>c'. Inr (set_cache c' w)))"

section \<open>The proxies\<close>

definition malloc_proxy ::
    "('h, 'c) env \<Rightarrow> nat \<Rightarrow> u64 \<Rightarrow> ('h, 'c) world \<Rightarrow> (u64 \<times> ('h, 'c) world) res" where
  "malloc_proxy E t sz w =
     (if isPss (px w) \<and> ucast (limit (px w)) \<le> sz \<and> \<not> guard (px w) t
      then
        let w1 = set_guard t True w;
            (address, h) = malloc_origin (lib E) sz (heap w1);
            w2 = w1\<lparr>heap := h\<rparr>
        in res_bind (if address \<noteq> 0 then insert_memory_backtrace E address sz w2 else Inr w2)
             (\<lambda>w3. Inr (address, set_guard t False w3))
      else let (address, h) = malloc_origin (lib E) sz (heap w) in Inr (address, w\<lparr>heap := h\<rparr>))"

definition calloc_proxy ::
    "('h, 'c) env \<Rightarrow> nat \<Rightarrow> u64 \<Rightarrow> u64 \<Rightarrow> ('h, 'c) world \<Rightarrow> (u64 \<times> ('h, 'c) world) res" where
  "calloc_proxy E t count bytes w =
     (let sz = ucast (count * bytes) :: u32 in
      if isPss (px w) \<and> limit (px w) \<le> sz \<and> \<not> guard (px w) t
      then
        let w1 = set_guard t True w;
            (address, h) = calloc_origin (lib E) count bytes (heap w1);
            w2 = w1\<lparr>heap := h\<rparr>
        in res_bind (if address \<noteq> 0 then insert_memory_backtrace E address (ucast sz) w2 else Inr w2)
             (\<lambda>w3. Inr (address, set_guard t False w3))
      else
        let (address, h) = calloc_origin (lib E) count bytes (heap w) in Inr (address, w\<lparr>heap := h\<rparr>))"

definition realloc_proxy ::
    "('h, 'c) env \<Rightarrow> nat \<Rightarrow> u64 \<Rightarrow> u64 \<Rightarrow> ('h, 'c) world \<Rightarrow> (u64 \<times> ('h, 'c) world) res" where
  "realloc_proxy E t ptr sz w =
     (if isPss (px w) \<and> \<not> guard (px w) t
      then
        let w1 = set_guard t True w;
            (address, h) = realloc_origin (lib E) ptr sz (heap w1);
            w2 = w1\<lparr>heap := h\<rparr>
        in res_bind (if ptr \<noteq> 0 \<and> (sz = 0 \<or> address \<noteq> 0) then cache_remove E ptr w2 else Inr w2)
             (\<lambda>w3.
               res_bind (if address \<noteq> 0 \<and> ucast (limit (px w3)) \<le> sz
                         then insert_memory_backtrace E address sz w3 else Inr w3)
                 (\<lambda>w4. Inr (address, set_guard t False w4)))
      else
        let (address, h) = realloc_origin (lib E) ptr sz (heap w) in Inr (address, w\<lparr>heap := h\<rparr>))"

definition memalign_proxy ::
    "('h, 'c) env \<Rightarrow> nat \<Rightarrow> u64 \<Rightarrow> u64 \<Rightarrow> ('h, 'c) world \<Rightarrow> (u64 \<times> ('h, 'c) world) res" where
  "memalign_proxy E t alignment sz w =
     (if isPss (px w) \<and> ucast (limit (px w)) \<le> sz \<and> \<not> guard (px w) t
      then
        let w1 = set_guard t True w;
            (address, h) = memalign_origin (lib E) alignment sz (heap w1);
            w2 = w1\<lparr>heap := h\<rparr>
        in res_bind (if address \<noteq> 0 then insert_memory_backtrace E address sz w2 else Inr w2)
             (\<lambda>w3. Inr (address, set_guard t False w3))
      else
        let (address, h) = memalign_origin (lib E) alignment sz (heap w)
        in Inr (address, w\<lparr>heap := h\<rparr>))"

definition free_proxy ::
    "('h, 'c) env \<Rightarrow> nat \<Rightarrow> u64 \<Rightarrow> ('h, 'c) world \<Rightarrow> (('h, 'c) world) res" where
  "free_proxy E t address w =
     (if (isVss (px w) \<or> isPss (px w)) \<and> address \<noteq> 0 \<and> \<not> guard (px w) t
      then
        let w1 = set_guard t True w;
            w2 = w1\<lparr>heap := free_origin (lib E) address (heap w1)\<rparr>
        in res_bind (cache_remove E address w2) (\<lambda>w3. Inr (set_guard t False w3))
      else Inr (w\<lparr>heap := free_origin (lib E) address (heap w)\<rparr>))"

definition mmap_proxy ::
    "('h, 'c) env \<Rightarrow> nat \<Rightarrow> u64 \<Rightarrow> u64 \<Rightarrow> u32 \<times> u32 \<times> u32 \<times> u64 \<Rightarrow> ('h, 'c) world \<Rightarrow>
     (u64 \<times> ('h, 'c) world) res" where
  "mmap_proxy E t ptr sz args w =
     (if isVss (px w) \<and> \<not> guard (px w) t
      then
        let w1 = set_guard t True w;
            (address, h) = mmap_origin (lib E) ptr sz args (heap w1);
            w2 = w1\<lparr>heap := h\<rparr>
        in res_bind (if address \<noteq> MAP_FAILED then insert_memory_backtrace E address sz w2 else Inr w2)
             (\<lambda>w3. Inr (address, set_guard t False w3))
      else
        let (address, h) = mmap_origin (lib E) ptr sz args (heap w) in Inr (address, w\<lparr>heap := h\<rparr>))"

definition mmap64_proxy ::
    "('h, 'c) env \<Rightarrow> nat \<Rightarrow> u64 \<Rightarrow> u64 \<Rightarrow> u32 \<times> u32 \<times> u32 \<times> u64 \<Rightarrow> ('h, 'c) world \<Rightarrow>
     (u64 \<times> ('h, 'c) world) res" where
  "mmap64_proxy E t ptr sz args w =
     (if isVss (px w) \<and> \<not> guard (px w) t
      then
        let w1 = set_guard t True w;
            (address, h) = mmap64_origin (lib E) ptr sz args (heap w1);
            w2 = w1\<lparr>heap := h\<rparr>
        in res_bind (if address \<noteq> MAP_FAILED then insert_memory_backtrace E address sz w2 else Inr w2)
             (\<lambda>w3. Inr (address, set_guard t False w3))
      else
        let (address, h) = mmap64_origin (lib E) ptr sz args (heap w) in Inr (address, w\<lparr>heap := h\<rparr>))"

definition munmap_proxy ::
    "('h, 'c) env \<Rightarrow> nat \<Rightarrow> u64 \<Rightarrow> u64 \<Rightarrow> ('h, 'c) world \<Rightarrow> (u32 \<times> ('h, 'c) world) res" where
  "munmap_proxy E t address sz w =
     (if isVss (px w) \<and> address \<noteq> 0 \<and> \<not> guard (px w) t
      then
        let w1 = set_guard t True w;
            (result, h) = munmap_origin (lib E) address sz (heap w1);
            w2 = w1\<lparr>heap := h\<rparr>
        in res_bind (if result = 0 then cache_remove E address w2 else Inr w2)
             (\<lambda>w3. Inr (result, set_guard t False w3))
      else
        let (result, h) = munmap_origin (lib E) address sz (heap w) in Inr (result, w\<lparr>heap := h\<rparr>))"

text \<open>\<open>pthread_exit_proxy\<close> does not look at the guard and leaves it clear.\<close>

definition pthread_exit_proxy ::
    "('h, 'c) env \<Rightarrow> nat \<Rightarrow> ('h, 'c) world \<Rightarrow> ('h, 'c) world res" where
  "pthread_exit_proxy E t w =
     res_bind
       (case own_stack (lib E) t (heap w) of
          Some base \<Rightarrow>
            if isVss (px w)
            then res_bind (cache_remove E base (set_guard t True w)) (\<lambda>w3. Inr (set_guard t False w3))
            else Inr w
        | None \<Rightarrow> Inr w)
       (\<lambda>w4. Inr (w4\<lparr>heap := pthread_exit_origin (lib E) t (heap w4)\<rparr>))"

end
