(* ===== verification/Leak_Tracking.thy ===== *)
theory Leak_Tracking
  imports Memory_Cache Hook_Proxy
begin

text \<open>
  What the proxies of \<open>cpp/HookProxy.h\<close> achieve together with the cache: they are transparent to
  the program (same results, same heap), they do not disturb a call made while the thread's guard
  is set (\<open>pthread_exit\<close> excepted), and the cache holds exactly the tracked allocations that are still live. The lemmas are
  proved in the cache's contract and instantiated with \<open>MemoryCache\<close>.
\<close>

section \<open>Calls\<close>

datatype hook_call =
    Malloc u64
  | Calloc u64 u64
  | Realloc u64 u64
  | Memalign u64 u64
  | Free u64
  | Mmap u64 u64 "u32 \<times> u32 \<times> u32 \<times> u64"
  | Mmap64 u64 u64 "u32 \<times> u32 \<times> u32 \<times> u64"
  | Munmap u64 u64
  | Pthread_Exit

definition no_value :: "'w res \<Rightarrow> (u64 \<times> 'w) res" where
  "no_value r = res_bind r (\<lambda>w. Inr (0, w))"

definition int_value :: "(u32 \<times> 'w) res \<Rightarrow> (u64 \<times> 'w) res" where
  "int_value r = res_bind r (\<lambda>(v, w). Inr (scast v, w))"

text \<open>A call through its proxy, and the call of the wrapped function alone.\<close>

fun proxy_call :: "('h, 'c) env \<Rightarrow> nat \<Rightarrow> hook_call \<Rightarrow> ('h, 'c) world \<Rightarrow> (u64 \<times> ('h, 'c) world) res" where
  "proxy_call E t (Malloc n) w = malloc_proxy E t n w"
| "proxy_call E t (Calloc k n) w = calloc_proxy E t k n w"
| "proxy_call E t (Realloc p n) w = realloc_proxy E t p n w"
| "proxy_call E t (Memalign g n) w = memalign_proxy E t g n w"
| "proxy_call E t (Free p) w = no_value (free_proxy E t p w)"
| "proxy_call E t (Mmap p n args) w = mmap_proxy E t p n args w"
| "proxy_call E t (Mmap64 p n args) w = mmap64_proxy E t p n args w"
| "proxy_call E t (Munmap p n) w = int_value (munmap_proxy E t p n w)"
| "proxy_call E t Pthread_Exit w = no_value (pthread_exit_proxy E t w)"

fun origin_call :: "'h libc \<Rightarrow> nat \<Rightarrow> hook_call \<Rightarrow> 'h \<Rightarrow> u64 \<times> 'h" where
  "origin_call L t (Malloc n) h = malloc_origin L n h"
| "origin_call L t (Calloc k n) h = calloc_origin L k n h"
| "origin_call L t (Realloc p n) h = realloc_origin L p n h"
| "origin_call L t (Memalign g n) h = memalign_origin L g n h"
| "origin_call L t (Free p) h = (0, free_origin L p h)"
| "origin_call L t (Mmap p n args) h = mmap_origin L p n args h"
| "origin_call L t (Mmap64 p n args) h = mmap64_origin L p n args h"
| "origin_call L t (Munmap p n) h = (let (v, h') = munmap_origin L p n h in (scast v, h'))"
| "origin_call L t Pthread_Exit h = (0, pthread_exit_origin L t h)"

fun proxy_calls ::
    "('h, 'c) env \<Rightarrow> (nat \<times> hook_call) list \<Rightarrow> ('h, 'c) world \<Rightarrow> ('h, 'c) world res" where
  "proxy_calls E [] w = Inr w"
| "proxy_calls E ((t, k) # ks) w = res_bind (proxy_call E t k w) (\<lambda>(_, w'). proxy_calls E ks w')"

fun origin_calls :: "'h libc \<Rightarrow> (nat \<times> hook_call) list \<Rightarrow> 'h \<Rightarrow> 'h" where
  "origin_calls L [] h = h"
| "origin_calls L ((t, k) # ks) h = origin_calls L ks (snd (origin_call L t k h))"

lemmas proxy_defs = malloc_proxy_def calloc_proxy_def realloc_proxy_def memalign_proxy_def
  free_proxy_def mmap_proxy_def mmap64_proxy_def munmap_proxy_def pthread_exit_proxy_def
  no_value_def int_value_def

text \<open>
  The unwinder writes as many frames as it is asked for at most, and the frame array has its 16
  words. With a configured depth of at most 15 the array is never overrun.
\<close>

definition unwinder_ok :: "('h, 'c) env \<Rightarrow> bool" where
  "unwinder_ok E \<longleftrightarrow> (\<forall>d h. length (unwind E d h) \<le> unat d \<and> length (stale E h) = MAX_TRACE_DEPTH)"

definition same_config :: "'c proxy \<Rightarrow> 'c proxy \<Rightarrow> bool" where
  "same_config p q \<longleftrightarrow> limit p = limit q \<and> depth p = depth q \<and> isPss p = isPss q \<and> isVss p = isVss q"

lemma same_config_refl [simp]: "same_config p p"
  by (simp add: same_config_def)

lemma set_guard_simps [simp]:
  "heap (set_guard t b w) = heap w"
  "cache (px (set_guard t b w)) = cache (px w)"
  "guard (px (set_guard t b w)) = (guard (px w))(t := b)"
  "limit (px (set_guard t b w)) = limit (px w)"
  "depth (px (set_guard t b w)) = depth (px w)"
  "isPss (px (set_guard t b w)) = isPss (px w)"
  "isVss (px (set_guard t b w)) = isVss (px w)"
  by (simp_all add: set_guard_def)

lemma set_cache_simps [simp]:
  "heap (set_cache c w) = heap w"
  "cache (px (set_cache c w)) = Some c"
  "guard (px (set_cache c w)) = guard (px w)"
  "limit (px (set_cache c w)) = limit (px w)"
  "depth (px (set_cache c w)) = depth (px w)"
  "isPss (px (set_cache c w)) = isPss (px w)"
  "isVss (px (set_cache c w)) = isVss (px w)"
  by (simp_all add: set_cache_def)

section \<open>The backtrace of an insertion\<close>

definition caught :: "('h, 'c) env \<Rightarrow> ('h, 'c) world \<Rightarrow> Backtrace" where
  "caught E w = (let frames = unwind E (depth (px w) + 1) (heap w) in
     \<lparr>bt_depth = word_of_nat (length frames),
      bt_trace = frames @ drop (length frames) (stale E (heap w))\<rparr>)"

lemma unwind_fits:
  assumes "unwinder_ok E" and "unat (depth (px w)) \<le> 15"
  shows "length (unwind E (depth (px w) + 1) (heap w)) \<le> 16"
proof -
  have "unat (depth (px w) + 1) = Suc (unat (depth (px w)))"
    by (rule unat_Suc_less [of _ 16]) (use assms(2) in auto)
  moreover have "length (unwind E (depth (px w) + 1) (heap w)) \<le> unat (depth (px w) + 1)"
    using assms(1) by (simp add: unwinder_ok_def)
  ultimately show ?thesis using assms(2) by linarith
qed

lemma caught_ok:
  assumes "unwinder_ok E" and "unat (depth (px w)) \<le> 15"
  shows "bt_ok (caught E w)"
proof -
  let ?n = "length (unwind E (depth (px w) + 1) (heap w))"
  have n: "?n \<le> 16" by (rule unwind_fits [OF assms])
  then have "unat (word_of_nat ?n :: u32) = ?n" by (simp add: unat_of_nat)
  with n assms(1) show ?thesis
    by (simp add: bt_ok_def caught_def Let_def MAX_TRACE_DEPTH_def unwinder_ok_def)
qed

lemma insert_memory_backtrace_eq:
  assumes "unwinder_ok E" and "unat (depth (px w)) \<le> 15" and "cache (px w) = Some c"
  shows "insert_memory_backtrace E a n w =
    res_bind (c_insert (vt E) a n (caught E w) c) (\<lambda>c'. Inr (set_cache c' w))"
  using unwind_fits [OF assms(1,2)] assms(3)
  by (simp add: insert_memory_backtrace_def Let_def MAX_TRACE_DEPTH_def caught_def not_less)


section \<open>Proxies over the cache's contract\<close>

text \<open>
  The states in which a proxy may run: a cache that satisfies the invariant is installed and the
  backtraces fit. \<open>V\<close> and \<open>ok\<close> are the cache's operations and invariant.
\<close>

definition proxy_ok :: "'c Cache \<Rightarrow> ('c \<Rightarrow> bool) \<Rightarrow> ('h, 'c) env \<Rightarrow> ('h, 'c) world \<Rightarrow> bool" where
  "proxy_ok V ok E w \<longleftrightarrow> vt E = V \<and> unwinder_ok E \<and> unat (depth (px w)) \<le> 15 \<and>
     (case cache (px w) of None \<Rightarrow> False | Some c \<Rightarrow> ok c)"

text \<open>What a proxy does to the sizes recorded, for the address the wrapped function returned.\<close>

fun track :: "u32 \<Rightarrow> hook_call \<Rightarrow> u64 \<Rightarrow> (u64 \<rightharpoonup> u32) \<Rightarrow> u64 \<rightharpoonup> u32" where
  "track l (Malloc n) a T = (if ucast l \<le> n \<and> a \<noteq> 0 then T(a \<mapsto> ucast n) else T)"
| "track l (Calloc k n) a T =
     (if l \<le> ucast (k * n) \<and> a \<noteq> 0 then T(a \<mapsto> ucast (k * n)) else T)"
| "track l (Memalign g n) a T = (if ucast l \<le> n \<and> a \<noteq> 0 then T(a \<mapsto> ucast n) else T)"
| "track l (Realloc p n) a T =
     (let T' = if p \<noteq> 0 \<and> (n = 0 \<or> a \<noteq> 0) then T(p := None) else T
      in if a \<noteq> 0 \<and> ucast l \<le> n then T'(a \<mapsto> ucast n) else T')"
| "track l (Free p) a T = (if p \<noteq> 0 then T(p := None) else T)"
| "track l _ a T = T"

fun track_calls :: "u32 \<Rightarrow> 'h libc \<Rightarrow> (nat \<times> hook_call) list \<Rightarrow> 'h \<Rightarrow> (u64 \<rightharpoonup> u32) \<Rightarrow> u64 \<rightharpoonup> u32" where
  "track_calls l L [] h T = T"
| "track_calls l L ((t, k) # ks) h T =
     (let (a, h') = origin_call L t k h in track_calls l L ks h' (track l k a T))"

definition agrees :: "(u64 \<Rightarrow> (u32 \<times> u64 list) list) \<Rightarrow> (u64 \<rightharpoonup> u32) \<Rightarrow> bool" where
  "agrees R T \<longleftrightarrow> (\<forall>a. map fst (R a) = (case T a of None \<Rightarrow> [] | Some n \<Rightarrow> [n]))"

lemma agrees_insert:
  "agrees R T \<Longrightarrow> T a = None \<Longrightarrow> agrees (R(a := trace_record n bt # R a)) (T(a \<mapsto> ucast n))"
  by (auto simp: agrees_def trace_record_def)

lemma agrees_remove: "agrees R T \<Longrightarrow> agrees (R(a := tl (R a))) (T(a := None))"
  by (auto simp: agrees_def map_tl split: option.splits)

context leak_cache
begin

lemma insert_step:
  assumes "proxy_ok V ok E w" and "cache (px w) = Some c"
  obtains c' where "insert_memory_backtrace E a n w = Inr (set_cache c' w)" "ok c'"
    "space c \<le> Suc (space c')"
    "0 < space c \<Longrightarrow> recs c' = (recs c)(a := trace_record n (caught E w) # recs c a)"
proof -
  have ok: "ok c" and bt: "bt_ok (caught E w)" and V: "vt E = V"
    using assms caught_ok by (auto simp: proxy_ok_def)
  have eq: "insert_memory_backtrace E a n w =
    res_bind (c_insert V a n (caught E w) c) (\<lambda>c'. Inr (set_cache c' w))"
    using insert_memory_backtrace_eq [of E w c] assms V by (auto simp: proxy_ok_def)
  show thesis
  proof (cases "space c = 0")
    case True
    from insert_full_law [OF ok True, of a n "caught E w"] that eq True show thesis by auto
  next
    case False
    then have "0 < space c" by simp
    from insert_law [OF ok bt this, of a n] obtain c' where c':
      "c_insert V a n (caught E w) c = Inr c'" "ok c'" "Suc (space c') = space c"
      "recs c' = (recs c)(a := trace_record n (caught E w) # recs c a)" by blast
    show thesis by (rule that [of c']) (use c' eq in simp_all)
  qed
qed

lemma remove_step:
  assumes "proxy_ok V ok E w" and "cache (px w) = Some c"
  obtains c' where "cache_remove E a w = Inr (set_cache c' w)" "ok c'" "space c \<le> space c'"
    "recs c' = (recs c)(a := tl (recs c a))"
proof -
  have ok: "ok c" and V: "vt E = V" using assms by (auto simp: proxy_ok_def)
  from remove_law [OF ok, of a] obtain c' where "c_remove V a c = Inr c'" "ok c'"
    "recs c' = (recs c)(a := tl (recs c a))" "space c \<le> space c'" by auto
  then show thesis using that assms(2) V by (simp add: cache_remove_def)
qed

end


section \<open>The common shape of the proxies\<close>

text \<open>
  When a proxy does more than the wrapped function, and what it then does to the cache once the
  wrapped function has returned \<open>a\<close>.
\<close>

fun active :: "hook_call \<Rightarrow> nat \<Rightarrow> 'c proxy \<Rightarrow> bool" where
  "active (Malloc n) t p \<longleftrightarrow> isPss p \<and> ucast (limit p) \<le> n \<and> \<not> guard p t"
| "active (Calloc k n) t p \<longleftrightarrow> isPss p \<and> limit p \<le> ucast (k * n) \<and> \<not> guard p t"
| "active (Realloc q n) t p \<longleftrightarrow> isPss p \<and> \<not> guard p t"
| "active (Memalign g n) t p \<longleftrightarrow> isPss p \<and> ucast (limit p) \<le> n \<and> \<not> guard p t"
| "active (Free q) t p \<longleftrightarrow> (isVss p \<or> isPss p) \<and> q \<noteq> 0 \<and> \<not> guard p t"
| "active (Mmap q n args) t p \<longleftrightarrow> isVss p \<and> \<not> guard p t"
| "active (Mmap64 q n args) t p \<longleftrightarrow> isVss p \<and> \<not> guard p t"
| "active (Munmap q n) t p \<longleftrightarrow> isVss p \<and> q \<noteq> 0 \<and> \<not> guard p t"
| "active Pthread_Exit t p \<longleftrightarrow> False"

fun book :: "('h, 'c) env \<Rightarrow> hook_call \<Rightarrow> u64 \<Rightarrow> ('h, 'c) world \<Rightarrow> ('h, 'c) world res" where
  "book E (Malloc n) a w = (if a \<noteq> 0 then insert_memory_backtrace E a n w else Inr w)"
| "book E (Calloc k n) a w =
     (if a \<noteq> 0 then insert_memory_backtrace E a (ucast (ucast (k * n) :: u32)) w else Inr w)"
| "book E (Realloc q n) a w =
     res_bind (if q \<noteq> 0 \<and> (n = 0 \<or> a \<noteq> 0) then cache_remove E q w else Inr w)
       (\<lambda>w'. if a \<noteq> 0 \<and> ucast (limit (px w')) \<le> n then insert_memory_backtrace E a n w' else Inr w')"
| "book E (Memalign g n) a w = (if a \<noteq> 0 then insert_memory_backtrace E a n w else Inr w)"
| "book E (Free q) a w = cache_remove E q w"
| "book E (Mmap q n args) a w =
     (if a \<noteq> MAP_FAILED then insert_memory_backtrace E a n w else Inr w)"
| "book E (Mmap64 q n args) a w =
     (if a \<noteq> MAP_FAILED then insert_memory_backtrace E a n w else Inr w)"
| "book E (Munmap q n) a w = (if a = 0 then cache_remove E q w else Inr w)"
| "book E Pthread_Exit a w = Inr w"

lemma ucast_widen_narrow [simp]: "ucast (ucast (v :: u32) :: u64) = v"
  by (rule bit_word_eqI) (simp add: bit_simps)

lemma scast_zero_iff [simp]: "(scast (v :: u32) :: u64) = 0 \<longleftrightarrow> v = 0"
proof -
  have "v = 0" if "(scast v :: u64) = 0"
  proof (rule bit_word_eqI)
    fix n assume "n < LENGTH(32)"
    then have "bit v n = bit (scast v :: u64) n" by (cases "n = 31") (auto simp: bit_signed_iff min_def)
    then show "bit v n = bit (0 :: u32) n" using that by simp
  qed
  then show ?thesis by auto
qed

lemma proxy_call_shape:
  assumes "k \<noteq> Pthread_Exit"
  shows "proxy_call E t k w =
    (let (a, h) = origin_call (lib E) t k (heap w) in
     if active k t (px w)
     then res_bind (book E k a ((set_guard t True w)\<lparr>heap := h\<rparr>)) (\<lambda>w'. Inr (a, set_guard t False w'))
     else Inr (a, w\<lparr>heap := h\<rparr>))"
  using assms
  by (cases k) (auto simp: proxy_defs Let_def res_bind_def split: prod.splits sum.splits)


text \<open>The address a heap call returned is not recorded, after the block a \<open>realloc\<close> gave up.\<close>

fun fresh :: "hook_call \<Rightarrow> u64 \<Rightarrow> (u64 \<rightharpoonup> u32) \<Rightarrow> bool" where
  "fresh (Realloc p n) a T \<longleftrightarrow> a = 0 \<or> (if p \<noteq> 0 then T(p := None) else T) a = None"
| "fresh (Free p) a T \<longleftrightarrow> True"
| "fresh k a T \<longleftrightarrow> a = 0 \<or> T a = None"

fun heap_call :: "hook_call \<Rightarrow> bool" where
  "heap_call (Mmap _ _ _) \<longleftrightarrow> False"
| "heap_call (Mmap64 _ _ _) \<longleftrightarrow> False"
| "heap_call (Munmap _ _) \<longleftrightarrow> False"
| "heap_call Pthread_Exit \<longleftrightarrow> False"
| "heap_call _ \<longleftrightarrow> True"

lemma set_cache_id [simp]: "cache (px w) = Some c \<Longrightarrow> set_cache c w = w"
  by (simp add: set_cache_def)

lemma set_cache_again [simp]: "set_cache c (set_cache d w) = set_cache c w"
  by (simp add: set_cache_def)

lemma track_inactive:
  "heap_call k \<Longrightarrow> isPss p \<Longrightarrow> \<not> guard p t \<Longrightarrow> \<not> active k t p \<Longrightarrow> track (limit p) k a T = T"
  by (cases k) auto

context leak_cache
begin

lemma proxy_ok_set_cache: "proxy_ok V ok E w \<Longrightarrow> ok c \<Longrightarrow> proxy_ok V ok E (set_cache c w)"
  by (simp add: proxy_ok_def)

definition booked :: "u32 \<Rightarrow> hook_call \<Rightarrow> u64 \<Rightarrow> 'c \<Rightarrow> 'c \<Rightarrow> bool" where
  "booked l k a c c' \<longleftrightarrow> ok c' \<and> space c \<le> Suc (space c') \<and>
     (\<forall>T. 0 < space c \<longrightarrow> heap_call k \<longrightarrow> agrees (recs c) T \<longrightarrow> fresh k a T \<longrightarrow>
        agrees (recs c') (track l k a T))"

lemma book_insert:
  assumes "proxy_ok V ok E w" and "cache (px w) = Some c"
    and "\<And>T. heap_call k \<Longrightarrow> fresh k a T \<Longrightarrow> track (limit (px w)) k a T = T(a \<mapsto> ucast n) \<and> T a = None"
  obtains c' where "insert_memory_backtrace E a n w = Inr (set_cache c' w)"
    "booked (limit (px w)) k a c c'"
proof -
  from insert_step [OF assms(1,2)] obtain c' where c':
    "insert_memory_backtrace E a n w = Inr (set_cache c' w)" "ok c'" "space c \<le> Suc (space c')"
    "0 < space c \<Longrightarrow> recs c' = (recs c)(a := trace_record n (caught E w) # recs c a)" by blast
  then have "booked (limit (px w)) k a c c'"
    using agrees_insert [of "recs c" _ a n "caught E w"] assms(3) by (simp add: booked_def)
  with that c' show thesis by blast
qed

lemma book_remove:
  assumes "proxy_ok V ok E w" and "cache (px w) = Some c"
    and "\<And>T. heap_call k \<Longrightarrow> track (limit (px w)) k a T = T(p := None)"
  obtains c' where "cache_remove E p w = Inr (set_cache c' w)" "booked (limit (px w)) k a c c'"
    "space c \<le> space c'"
proof -
  from remove_step [OF assms(1,2)] obtain c' where c':
    "cache_remove E p w = Inr (set_cache c' w)" "ok c'" "space c \<le> space c'"
    "recs c' = (recs c)(p := tl (recs c p))" by blast
  then have "booked (limit (px w)) k a c c'"
    using agrees_remove [of "recs c" _ p] assms(3) by (simp add: booked_def)
  with that c' show thesis by blast
qed

lemma book_none:
  assumes "proxy_ok V ok E w" and "cache (px w) = Some c"
    and "\<And>T. heap_call k \<Longrightarrow> track (limit (px w)) k a T = T"
  shows "booked (limit (px w)) k a c c"
  using assms by (simp add: booked_def proxy_ok_def)

lemma book_realloc:
  assumes "proxy_ok V ok E w" and "cache (px w) = Some c"
  shows "\<exists>c'. book E (Realloc p n) a w = Inr (set_cache c' w) \<and>
    booked (limit (px w)) (Realloc p n) a c c'"
proof -
  let ?l = "limit (px w)"
  have ok: "ok c" using assms by (simp add: proxy_ok_def)
  define drop where "drop \<longleftrightarrow> p \<noteq> 0 \<and> (n = 0 \<or> a \<noteq> 0)"
  obtain c1 where c1: "(if drop then cache_remove E p w else Inr w) = Inr (set_cache c1 w)" "ok c1"
    "space c \<le> space c1" "\<And>T. agrees (recs c) T \<Longrightarrow> agrees (recs c1) (if drop then T(p := None) else T)"
  proof (cases drop)
    case True
    from remove_step [OF assms, of p] obtain d where "cache_remove E p w = Inr (set_cache d w)"
      "ok d" "space c \<le> space d" "recs d = (recs c)(p := tl (recs c p))" by blast
    then show thesis using that [of d] agrees_remove [of "recs c" _ p] True by simp
  next
    case False
    then show thesis using that [of c] ok assms(2) by simp
  qed
  have ok1: "proxy_ok V ok E (set_cache c1 w)" using assms(1) c1(2) by (rule proxy_ok_set_cache)
  show ?thesis
  proof (cases "a \<noteq> 0 \<and> ucast ?l \<le> n")
    case True
    from insert_step [OF ok1, of c1 a n] obtain c2 where c2:
      "insert_memory_backtrace E a n (set_cache c1 w) = Inr (set_cache c2 w)" "ok c2"
      "space c1 \<le> Suc (space c2)"
      "0 < space c1 \<Longrightarrow> recs c2 = (recs c1)(a := trace_record n (caught E (set_cache c1 w)) # recs c1 a)"
      by auto
    have "booked ?l (Realloc p n) a c c2"
      using c1 c2 True agrees_insert [of "recs c1" "if drop then _(p := None) else _" a n]
      by (auto simp: booked_def drop_def Let_def split: if_splits)
    then show ?thesis using c1 c2 True by (auto simp: drop_def)
  next
    case False
    then have "booked ?l (Realloc p n) a c c1" using c1 by (auto simp: booked_def drop_def Let_def)
    then show ?thesis using c1 False by (auto simp: drop_def)
  qed
qed

end


definition alloc_ok :: "'h libc \<Rightarrow> ('h \<Rightarrow> u64 set) \<Rightarrow> bool" where
  "alloc_ok L blocks \<longleftrightarrow>
     (\<forall>t k h. case k of
        Realloc p n \<Rightarrow> (case realloc_origin L p n h of (a, h') \<Rightarrow>
          p \<in> insert 0 (blocks h) \<longrightarrow>
          (if a \<noteq> 0 then a \<notin> blocks h - {p} \<and> blocks h' = insert a (blocks h - {p})
           else blocks h' = (if n = 0 then blocks h - {p} else blocks h)))
      | Free p \<Rightarrow> p \<in> insert 0 (blocks h) \<longrightarrow> blocks (free_origin L p h) = blocks h - {p}
      | _ \<Rightarrow> heap_call k \<longrightarrow> (case origin_call L t k h of (a, h') \<Rightarrow>
          if a \<noteq> 0 then a \<notin> blocks h \<and> blocks h' = insert a (blocks h) else blocks h' = blocks h))
     \<and> (\<forall>h. 0 \<notin> blocks h)"

text \<open>The program frees and reallocates blocks it holds, and makes heap calls only.\<close>

fun client_ok :: "'h libc \<Rightarrow> ('h \<Rightarrow> u64 set) \<Rightarrow> (nat \<times> hook_call) list \<Rightarrow> 'h \<Rightarrow> bool" where
  "client_ok L blocks [] h \<longleftrightarrow> True"
| "client_ok L blocks ((t, k) # ks) h \<longleftrightarrow> heap_call k \<and>
     (case k of Realloc p n \<Rightarrow> p = 0 \<or> p \<in> blocks h | Free p \<Rightarrow> p = 0 \<or> p \<in> blocks h | _ \<Rightarrow> True) \<and>
     client_ok L blocks ks (snd (origin_call L t k h))"

lemma track_live:
  assumes "alloc_ok L blocks" and "client_ok L blocks ((t, k) # ks) h" and "dom T \<subseteq> blocks h"
    and "origin_call L t k h = (a, h')"
  shows "fresh k a T" and "dom (track l k a T) \<subseteq> blocks h'"
proof -
  have law: "case k of
        Realloc p n \<Rightarrow> (case realloc_origin L p n h of (a, h') \<Rightarrow>
          p \<in> insert 0 (blocks h) \<longrightarrow>
          (if a \<noteq> 0 then a \<notin> blocks h - {p} \<and> blocks h' = insert a (blocks h - {p})
           else blocks h' = (if n = 0 then blocks h - {p} else blocks h)))
      | Free p \<Rightarrow> p \<in> insert 0 (blocks h) \<longrightarrow> blocks (free_origin L p h) = blocks h - {p}
      | _ \<Rightarrow> heap_call k \<longrightarrow> (case origin_call L t k h of (a, h') \<Rightarrow>
          if a \<noteq> 0 then a \<notin> blocks h \<and> blocks h' = insert a (blocks h) else blocks h' = blocks h)"
    and "0 \<notin> blocks h"
    using assms(1) unfolding alloc_ok_def by blast+
  then have nz: "0 \<notin> dom T" using assms(3) by blast
  show "fresh k a T"
    using law assms(2-4) nz by (cases k) (auto simp: dom_def subset_iff split: if_splits)
  show "dom (track l k a T) \<subseteq> blocks h'"
    using law assms(2-4) nz by (cases k) (auto simp: Let_def split: if_splits)
qed

context leak_cache
begin

lemma book_insert_if:
  assumes "proxy_ok V ok E w" and "cache (px w) = Some c"
    and "\<And>T. heap_call k \<Longrightarrow> b \<Longrightarrow> fresh k a T \<Longrightarrow>
      track (limit (px w)) k a T = T(a \<mapsto> ucast n) \<and> T a = None"
    and "\<And>T. heap_call k \<Longrightarrow> \<not> b \<Longrightarrow> track (limit (px w)) k a T = T"
  shows "\<exists>c'. (if b then insert_memory_backtrace E a n w else Inr w) = Inr (set_cache c' w) \<and>
    booked (limit (px w)) k a c c'"
proof (cases b)
  case True
  then show ?thesis using book_insert [OF assms(1,2), of k a n] assms(3) by metis
next
  case False
  then show ?thesis using book_none [OF assms(1,2), of k a] assms(2,4)
    by (intro exI [of _ c]) simp
qed

lemma book_remove_if:
  assumes "proxy_ok V ok E w" and "cache (px w) = Some c"
    and "\<And>T. heap_call k \<Longrightarrow> b \<Longrightarrow> track (limit (px w)) k a T = T(p := None)"
    and "\<And>T. heap_call k \<Longrightarrow> \<not> b \<Longrightarrow> track (limit (px w)) k a T = T"
  shows "\<exists>c'. (if b then cache_remove E p w else Inr w) = Inr (set_cache c' w) \<and>
    booked (limit (px w)) k a c c'"
proof (cases b)
  case True
  then show ?thesis using book_remove [OF assms(1,2), of k a p] assms(3) by metis
next
  case False
  then show ?thesis using book_none [OF assms(1,2), of k a] assms(2,4)
    by (intro exI [of _ c]) simp
qed

lemma book_step:
  assumes "proxy_ok V ok E w" and "cache (px w) = Some c" and "active k t p" and "limit p = limit (px w)"
  shows "\<exists>c'. book E k a w = Inr (set_cache c' w) \<and> booked (limit (px w)) k a c c'"
proof -
  note ins = book_insert_if [OF assms(1,2), of k] and rem = book_remove_if [OF assms(1,2), of k]
  show ?thesis
  proof (cases k)
    case (Malloc n)
    show ?thesis using ins [of "a \<noteq> 0" a n] assms(3,4) by (simp add: Malloc)
  next
    case (Calloc m n)
    show ?thesis using ins [of "a \<noteq> 0" a "ucast (ucast (m * n) :: u32)"] assms(3,4)
      by (simp add: Calloc)
  next
    case (Memalign g n)
    show ?thesis using ins [of "a \<noteq> 0" a n] assms(3,4) by (simp add: Memalign)
  next
    case (Realloc q n)
    then show ?thesis using book_realloc [OF assms(1,2)] by blast
  next
    case (Free q)
    show ?thesis using rem [of True a q] assms(3) by (simp add: Free)
  next
    case (Mmap q n args)
    show ?thesis using ins [of "a \<noteq> MAP_FAILED" a n] by (simp add: Mmap)
  next
    case (Mmap64 q n args)
    show ?thesis using ins [of "a \<noteq> MAP_FAILED" a n] by (simp add: Mmap64)
  next
    case (Munmap q n)
    show ?thesis using rem [of "a = 0" a q] by (simp add: Munmap)
  next
    case Pthread_Exit
    then show ?thesis using assms(3) by simp
  qed
qed


text \<open>One call: what the program sees is what the wrapped function gives.\<close>

lemma call_step:
  assumes "proxy_ok V ok E w" and "cache (px w) = Some c" and "k \<noteq> Pthread_Exit"
    and "origin_call (lib E) t k (heap w) = (a, h)"
  shows "\<exists>w' c'. proxy_call E t k w = Inr (a, w') \<and> heap w' = h \<and> same_config (px w') (px w) \<and>
    guard (px w') = guard (px w) \<and> cache (px w') = Some c' \<and>
    ok c' \<and> (if active k t (px w) then booked (limit (px w)) k a c c' else c' = c)"
proof (cases "active k t (px w)")
  case True
  let ?w = "(set_guard t True w)\<lparr>heap := h\<rparr>"
  have "proxy_ok V ok E ?w" "cache (px ?w) = Some c"
    using assms(1,2) by (simp_all add: proxy_ok_def)
  from book_step [OF this True, of a] obtain c' where
    "book E k a ?w = Inr (set_cache c' ?w)" "booked (limit (px w)) k a c c'" by auto
  moreover have "\<not> guard (px w) t" using True by (cases k) auto
  then have "(guard (px w))(t := False) = guard (px w)" by (intro ext) simp
  ultimately show ?thesis using True proxy_call_shape [OF assms(3), of E t w] assms(4)
    by (auto simp: booked_def same_config_def intro!: exI [of _ "set_guard t False (set_cache c' ?w)"])
next
  case False
  then show ?thesis using proxy_call_shape [OF assms(3), of E t w] assms
    by (auto simp: proxy_ok_def same_config_def)
qed

lemma exit_step:
  assumes "proxy_ok V ok E w" and "cache (px w) = Some c"
  shows "\<exists>w' c'. proxy_call E t Pthread_Exit w = Inr (0, w') \<and>
    heap w' = pthread_exit_origin (lib E) t (heap w) \<and> same_config (px w') (px w) \<and>
    cache (px w') = Some c' \<and> ok c'"
proof (cases "isVss (px w) \<and> own_stack (lib E) t (heap w) \<noteq> None")
  case True
  then obtain base where base: "own_stack (lib E) t (heap w) = Some base" by auto
  have "proxy_ok V ok E (set_guard t True w)" "cache (px (set_guard t True w)) = Some c"
    using assms by (simp_all add: proxy_ok_def)
  from remove_step [OF this, of base] obtain c' where
    "cache_remove E base (set_guard t True w) = Inr (set_cache c' (set_guard t True w))" "ok c'" by blast
  with base True show ?thesis by (auto simp: proxy_defs same_config_def)
next
  case False
  then show ?thesis using assms by (auto simp: proxy_defs proxy_ok_def same_config_def split: option.splits)
qed

lemma transparent:
  assumes "proxy_ok V ok E w"
  shows "\<exists>w'. proxy_call E t k w = Inr (fst (origin_call (lib E) t k (heap w)), w') \<and>
    heap w' = snd (origin_call (lib E) t k (heap w)) \<and> same_config (px w') (px w) \<and> proxy_ok V ok E w'"
proof -
  from assms obtain c where c: "cache (px w) = Some c" by (auto simp: proxy_ok_def split: option.splits)
  obtain a h where ah: "origin_call (lib E) t k (heap w) = (a, h)" by force
  show ?thesis
  proof (cases "k = Pthread_Exit")
    case True
    from exit_step [OF assms c, of t] True assms show ?thesis
      by (auto simp: proxy_ok_def same_config_def)
  next
    case False
    from call_step [OF assms c False ah] assms ah show ?thesis
      by (auto simp: proxy_ok_def same_config_def)
  qed
qed

lemma calls_track:
  assumes "proxy_ok V ok E w" and "cache (px w) = Some c" and "isPss (px w)"
    and "\<forall>t. \<not> guard (px w) t" and "length ks \<le> space c"
    and "alloc_ok (lib E) blocks" and "client_ok (lib E) blocks ks (heap w)"
    and "agrees (recs c) T" and "dom T \<subseteq> blocks (heap w)"
  shows "\<exists>w' c'. proxy_calls E ks w = Inr w' \<and> heap w' = origin_calls (lib E) ks (heap w) \<and>
    cache (px w') = Some c' \<and> ok c' \<and>
    agrees (recs c') (track_calls (limit (px w)) (lib E) ks (heap w) T) \<and>
    dom (track_calls (limit (px w)) (lib E) ks (heap w) T) \<subseteq> blocks (heap w')"
  using assms
proof (induction ks arbitrary: w c T)
  case Nil
  then show ?case by (auto simp: proxy_ok_def)
next
  case (Cons tk ks)
  obtain t k where tk: "tk = (t, k)" by force
  obtain a h where ah: "origin_call (lib E) t k (heap w) = (a, h)" by force
  have hc: "heap_call k" and nx: "k \<noteq> Pthread_Exit" and sp: "0 < space c"
    using Cons.prems(5,7) tk by auto
  have live: "fresh k a T" "dom (track (limit (px w)) k a T) \<subseteq> blocks h"
    by (rule track_live [OF Cons.prems(6) Cons.prems(7) [unfolded tk] Cons.prems(9) ah])+
  from call_step [OF Cons.prems(1,2) nx ah] obtain w' c' where s: "proxy_call E t k w = Inr (a, w')"
    "heap w' = h" "same_config (px w') (px w)" "guard (px w') = guard (px w)" "cache (px w') = Some c'"
    "ok c'" "if active k t (px w) then booked (limit (px w)) k a c c' else c' = c" by blast
  have cfg: "limit (px w') = limit (px w)" "isPss (px w')" "depth (px w') = depth (px w)"
    using s(3) Cons.prems(3) by (simp_all add: same_config_def)
  have agr: "agrees (recs c') (track (limit (px w)) k a T)" and sp': "length ks \<le> space c'"
  proof -
    show "agrees (recs c') (track (limit (px w)) k a T)"
      using s(7) sp hc live(1) Cons.prems(3,4,8) track_inactive [OF hc, of "px w" t a T]
      by (auto simp: booked_def split: if_splits)
    show "length ks \<le> space c'" using s(7) Cons.prems(5) by (auto simp: booked_def split: if_splits)
  qed
  have "proxy_ok V ok E w'" using Cons.prems(1) s(5,6) cfg by (simp add: proxy_ok_def)
  from Cons.IH [OF this s(5) cfg(2) _ sp' Cons.prems(6) _ agr] show ?case
    using s(1,2,4) cfg(1) live(2) Cons.prems(4,7) tk ah by simp
qed

end

section \<open>An allocator\<close>

text \<open>
  A concrete C library for the examples: the heap is the list of live blocks, and an allocation
  fails when the next candidate address is taken.
\<close>

definition take_block :: "u64 list \<Rightarrow> u64 \<times> u64 list" where
  "take_block h = (let a = word_of_nat (4096 * Suc (length h)) in
     if a = 0 \<or> a \<in> set h then (0, h) else (a, a # h))"

definition move_block :: "u64 \<Rightarrow> u64 \<Rightarrow> u64 list \<Rightarrow> u64 \<times> u64 list" where
  "move_block p n h = (if p = 0 then take_block h
     else if n = 0 then (0, removeAll p h) else (p, h))"

definition list_libc :: "u64 list libc" where
  "list_libc = \<lparr>malloc_origin = (\<lambda>n. take_block), calloc_origin = (\<lambda>k n. take_block),
     realloc_origin = move_block, memalign_origin = (\<lambda>g n. take_block), free_origin = removeAll,
     mmap_origin = (\<lambda>p n args. take_block), mmap64_origin = (\<lambda>p n args. take_block),
     munmap_origin = (\<lambda>p n h. (0, removeAll p h)), own_stack = (\<lambda>t h. None),
     pthread_exit_origin = (\<lambda>t h. h)\<rparr>"

definition list_blocks :: "u64 list \<Rightarrow> u64 set" where
  "list_blocks h = set h - {0}"

lemma list_libc_ok: "alloc_ok list_libc list_blocks"
  unfolding alloc_ok_def
  by (auto simp: list_libc_def list_blocks_def take_block_def move_block_def Let_def
      split: hook_call.split if_splits)

definition sample_env :: "(u64 list, MemoryCache) env" where
  "sample_env = \<lparr>lib = list_libc, vt = MemoryCache_vtable,
     unwind = (\<lambda>d h. take (unat d) [11, 12, 13, 14, 15]), stale = (\<lambda>h. replicate 16 99)\<rparr>"

definition sample_world :: "u32 \<Rightarrow> (u64 list, MemoryCache) world" where
  "sample_world params = \<lparr>heap = [],
     px = update_configs (Some (MemoryCache_reset sample_cache)) params
       \<lparr>cache = None, guard = (\<lambda>_. False), limit = 0, depth = 0, isPss = False, isVss = False\<rparr>\<rparr>"

lemmas sample_world_defs = sample_world_def update_configs_def LIMIT_MASK_def DEPTH_MASK_def
  ALLOC_MODE_def MAP64_MODE_def

lemma sample_unwinder_ok: "unwinder_ok sample_env"
  by (simp add: unwinder_ok_def sample_env_def MAX_TRACE_DEPTH_def)

section \<open>Properties of the tracker\<close>

text \<open>C2. The proxies are transparent: whenever the installed cache is well formed and backtraces
  are at most 16 frames, every hooked call succeeds, gives the program the result of the wrapped
  function and leaves the heap as that function does, and the tracker's configuration and cache
  invariant survive.\<close>

theorem proxies_transparent:
  assumes "proxy_ok MemoryCache_vtable cache_ok E w"
  shows "\<exists>w'. proxy_call E t k w = Inr (fst (origin_call (lib E) t k (heap w)), w') \<and>
    heap w' = snd (origin_call (lib E) t k (heap w)) \<and> same_config (px w') (px w) \<and>
    proxy_ok MemoryCache_vtable cache_ok E w'"
  using assms by (rule mc.transparent)

theorem proxies_transparent_witness:
  "\<exists>w'. proxy_call sample_env 1 (Malloc 64) (sample_world 0x00440000) = Inr (4096, w') \<and> heap w' = [4096]"
proof -
  let ?w = "sample_world 0x00440000"
  have "proxy_ok MemoryCache_vtable cache_ok sample_env ?w"
    using reset_content [OF sample_cache_made] sample_unwinder_ok
    by (simp add: proxy_ok_def sample_world_defs) (simp add: sample_env_def)
  from proxies_transparent [OF this, of 1 "Malloc 64"] show ?thesis
    by (auto simp: sample_env_def list_libc_def take_block_def sample_world_def)
qed

text \<open>C7. Calls a thread makes while its guard is set (the allocations of the tracker itself) and
  all calls while both modes are off go straight to the wrapped function; the cache, the guard and
  the configuration are not touched. The exception is \<open>pthread_exit\<close>, which does not look at the guard: with the
  mapping mode on and the stack of the thread known it takes the record of the stack out of the cache and leaves the guard
  clear, whatever the guard was.\<close>

theorem guarded_calls_untouched:
  assumes "guard (px w) t \<or> \<not> isPss (px w) \<and> \<not> isVss (px w)"
  shows "(k \<noteq> Pthread_Exit \<or> \<not> isVss (px w) \<or> own_stack (lib E) t (heap w) = None \<longrightarrow>
      proxy_call E t k w = (let (a, h) = origin_call (lib E) t k (heap w) in Inr (a, w\<lparr>heap := h\<rparr>))) \<and>
    (isVss (px w) \<and> own_stack (lib E) t (heap w) = Some base \<and> cache (px w) = Some c \<and> c_remove (vt E) base c = Inr c' \<longrightarrow>
      proxy_call E t Pthread_Exit w =
        Inr (0, (set_guard t False (set_cache c' w))\<lparr>heap := pthread_exit_origin (lib E) t (heap w)\<rparr>))"
proof (intro conjI impI)
  assume k: "k \<noteq> Pthread_Exit \<or> \<not> isVss (px w) \<or> own_stack (lib E) t (heap w) = None"
  show "proxy_call E t k w = (let (a, h) = origin_call (lib E) t k (heap w) in Inr (a, w\<lparr>heap := h\<rparr>))"
  proof (cases "k = Pthread_Exit")
    case True
    with k show ?thesis by (auto simp: proxy_defs split: option.splits)
  next
    case False
    have "\<not> active k t (px w)" using assms by (cases k) auto
    then show ?thesis by (simp add: proxy_call_shape [OF False])
  qed
next
  assume "isVss (px w) \<and> own_stack (lib E) t (heap w) = Some base \<and> cache (px w) = Some c \<and> c_remove (vt E) base c = Inr c'"
  then show "proxy_call E t Pthread_Exit w =
        Inr (0, (set_guard t False (set_cache c' w))\<lparr>heap := pthread_exit_origin (lib E) t (heap w)\<rparr>)"
    by (simp add: proxy_defs cache_remove_def set_guard_def set_cache_def)
qed

theorem guarded_calls_untouched_witness:
  "proxy_call sample_env 7 (Free 64) (set_guard 7 True (sample_world 0x00440000)) =
     Inr (0, set_guard 7 True (sample_world 0x00440000)) \<and>
   (\<exists>w'. proxy_call (sample_env\<lparr>lib := list_libc\<lparr>own_stack := \<lambda>t h. Some 4096\<rparr>\<rparr>) 7 Pthread_Exit
       (set_guard 7 True (sample_world 0x00840000)) = Inr (0, w') \<and> \<not> guard (px w') 7)"
proof
  show "proxy_call sample_env 7 (Free 64) (set_guard 7 True (sample_world 0x00440000)) =
     Inr (0, set_guard 7 True (sample_world 0x00440000))"
    using guarded_calls_untouched [of "set_guard 7 True (sample_world 0x00440000)" 7 "Free 64" sample_env]
    by (simp add: sample_env_def list_libc_def sample_world_def set_guard_def)
  obtain c' where c: "MemoryCache_remove 4096 (MemoryCache_reset sample_cache) = Inr c'"
    using remove_content [of "MemoryCache_reset sample_cache" 4096] reset_content [OF sample_cache_made] by blast
  show "\<exists>w'. proxy_call (sample_env\<lparr>lib := list_libc\<lparr>own_stack := \<lambda>t h. Some 4096\<rparr>\<rparr>) 7 Pthread_Exit
       (set_guard 7 True (sample_world 0x00840000)) = Inr (0, w') \<and> \<not> guard (px w') 7"
    using guarded_calls_untouched [of "set_guard 7 True (sample_world 0x00840000)" 7 Pthread_Exit
        "sample_env\<lparr>lib := list_libc\<lparr>own_stack := \<lambda>t h. Some 4096\<rparr>\<rparr>" 4096 "MemoryCache_reset sample_cache" c'] c
    by (simp add: sample_env_def sample_world_defs set_guard_def MemoryCache_vtable_def)
qed

text \<open>C1. The tracker records exactly the live tracked blocks: started on a freshly reset cache, over
  an allocator that never hands out a live block, every sequence of up to 2^15 heap calls by any
  threads leaves one record with the (32-bit) size for each address the specification \<open>track\<close>
  keeps and none elsewhere, and every address it keeps is a live block. So a program that frees
  everything is reported to leak nothing.\<close>

theorem tracker_records_live_blocks:
  assumes "cache_made c" and "cache (px w) = Some (MemoryCache_reset c)"
    and "vt E = MemoryCache_vtable" and "unwinder_ok E" and "unat (depth (px w)) \<le> 15"
    and "isPss (px w)" and "\<forall>t. \<not> guard (px w) t" and "length ks \<le> 2 ^ 15"
    and "alloc_ok (lib E) blocks" and "client_ok (lib E) blocks ks (heap w)"
  shows "\<exists>w' c' T. proxy_calls E ks w = Inr w' \<and> heap w' = origin_calls (lib E) ks (heap w) \<and>
    cache (px w') = Some c' \<and> cache_ok c' \<and>
    T = track_calls (limit (px w)) (lib E) ks (heap w) Map.empty \<and>
    (\<forall>a. map fst (live c' a) = (case T a of None \<Rightarrow> [] | Some n \<Rightarrow> [n])) \<and>
    dom T \<subseteq> blocks (heap w')"
proof -
  from reset_content [OF assms(1)] have r: "cache_ok (MemoryCache_reset c)"
    "live (MemoryCache_reset c) = (\<lambda>_. [])" "room (MemoryCache_reset c) = 2 ^ 15" by auto
  have "proxy_ok MemoryCache_vtable cache_ok E w" using assms r by (simp add: proxy_ok_def)
  moreover have "agrees (live (MemoryCache_reset c)) Map.empty" by (simp add: r agrees_def)
  ultimately show ?thesis
    using mc.calls_track [of E w "MemoryCache_reset c" ks blocks Map.empty] assms r
    by (auto simp: agrees_def)
qed

theorem tracker_records_live_blocks_witness:
  "\<exists>w' c'. proxy_calls sample_env
      [(1, Malloc 64), (2, Calloc 4 16), (1, Malloc 8), (2, Realloc 8192 0x100000001), (1, Free 4096)]
      (sample_world 0x00440010) = Inr w' \<and>
     cache (px w') = Some c' \<and> map fst (live c' 4096) = [] \<and> map fst (live c' 8192) = [1] \<and>
     map fst (live c' 12288) = []"
proof -
  let ?w = "sample_world 0x00440010"
  let ?ks = "[(1, Malloc 64), (2, Calloc 4 16), (1, Malloc 8), (2, Realloc 8192 0x100000001), (1, Free 4096)]"
  have "client_ok (lib sample_env) list_blocks ?ks (heap ?w)"
    by (simp add: sample_env_def list_libc_def take_block_def move_block_def sample_world_def list_blocks_def)
  from tracker_records_live_blocks [OF sample_cache_made _ _ sample_unwinder_ok _ _ _ _ _ this]
  obtain w' c' T where w': "proxy_calls sample_env ?ks ?w = Inr w'" "cache (px w') = Some c'"
    "\<forall>a. map fst (live c' a) = (case T a of None \<Rightarrow> [] | Some n \<Rightarrow> [n])"
    "T = track_calls (limit (px ?w)) (lib sample_env) ?ks (heap ?w) Map.empty"
    using list_libc_ok by (auto simp: sample_world_defs) (auto simp: sample_env_def)
  have "T 4096 = None" "T 8192 = Some 1" "T 12288 = None"
    by (simp_all add: w'(4) sample_world_defs sample_env_def list_libc_def take_block_def move_block_def Let_def)
  then have "map fst (live c' 4096) = []" "map fst (live c' 8192) = [1]" "map fst (live c' 12288) = []"
    using w'(3) by (simp_all only: option.case)
  with w'(1,2) show ?thesis by (intro exI conjI)
qed

text \<open>C8. The depth field of the configuration has five bits, the frame array sixteen words. With a
  configured depth above 15 the first tracked allocation overruns the array, if the stack it is made on has more
  frames than the configured depth (17 are enough for a depth of 16). What is needed of the unwinder is
  that it reports the frames of this stack cut at the maximum it is given, as the arm64 one does
  (\<open>unwind64_frames\<close>).\<close>

theorem depth_config_overruns:
  assumes "px w = update_configs (Some c) params p" and "15 < unat (drop_bit 16 (params AND DEPTH_MASK))"
    and "params AND ALLOC_MODE \<noteq> 0" and "ucast (params AND LIMIT_MASK) \<le> sz" and "\<not> guard p t"
    and "malloc_origin (lib E) sz (heap w) = (a, h)" and "a \<noteq> 0"
    and "\<forall>d. unwind E d h = take (unat d) frames" and "unat (drop_bit 16 (params AND DEPTH_MASK)) < length frames"
  shows "malloc_proxy E t sz w = Inl Array_Overflow"
proof -
  let ?d = "drop_bit 16 (params AND DEPTH_MASK)"
  have "params AND DEPTH_MASK \<le> DEPTH_MASK" by (rule word_and_le1)
  then have "unat (params AND DEPTH_MASK) \<le> unat DEPTH_MASK" by (simp add: word_le_nat_alt)
  then have "unat (params AND DEPTH_MASK) div 2 ^ 16 \<le> unat DEPTH_MASK div 2 ^ 16" by (rule div_le_mono)
  moreover have "unat ?d = unat (params AND DEPTH_MASK) div 2 ^ 16"
    by (simp only: unat_drop_bit_eq drop_bit_eq_div [where 'a = nat])
  ultimately have "unat ?d \<le> unat DEPTH_MASK div 2 ^ 16" by simp
  then have "unat (?d + 1) = Suc (unat ?d)" by (intro unat_Suc_less [of _ 32]) (simp_all add: DEPTH_MASK_def)
  then have "MAX_TRACE_DEPTH < length (unwind E (?d + 1) h)" using assms(2,8,9) by (simp add: MAX_TRACE_DEPTH_def)
  with assms show ?thesis
    by (simp add: malloc_proxy_def insert_memory_backtrace_def update_configs_def Let_def)
qed

text \<open>A stack of 40 frames and a configured depth of 16.\<close>

theorem depth_config_overruns_witness:
  "malloc_proxy (sample_env\<lparr>unwind := \<lambda>d h. take (unat d) (replicate 40 77)\<rparr>) 1 64 (sample_world 0x00500010) =
     Inl Array_Overflow"
proof -
  let ?p = "\<lparr>cache = None, guard = (\<lambda>_. False), limit = 0, depth = 0, isPss = False, isVss = False\<rparr>"
  show ?thesis
    by (rule depth_config_overruns [of "sample_world 0x00500010" _ "0x00500010" ?p _ _ _ 4096 "[4096]" "replicate 40 77"])
      (simp_all add: sample_world_def, simp_all add: DEPTH_MASK_def ALLOC_MODE_def LIMIT_MASK_def
        sample_env_def list_libc_def take_block_def)
qed

end
