(* ===== verification/Unwind64.thy ===== *)
theory Unwind64
  imports Raphael_Prelude
begin

text \<open>
  The arm64 unwinder (\<open>unwind64/backtrace_64.cpp\<close>, \<open>unwind64/backtrace_64.h\<close>): a walk over the
  frame records on the stack, and the cache of stack ranges. Memory is a partial map from
  addresses to 64-bit words; the bounds \<open>pthread_getattr_np\<close> gives for a thread's stack and the
  frame address of the caller are inputs.
\<close>

section \<open>Definitions\<close>

definition kFrameSize :: u64 where "kFrameSize = 16"

definition isValid :: "u64 \<Rightarrow> u64 \<Rightarrow> u64 \<Rightarrow> bool" where
  "isValid fp st sb \<longleftrightarrow> sb < fp \<and> fp < st - kFrameSize"

definition load :: "(u64 \<rightharpoonup> u64) \<Rightarrow> u64 \<Rightarrow> u64 res" where
  "load mem a = (case mem a of None \<Rightarrow> Inl Wild_Access | Some v \<Rightarrow> Inr v)"

text \<open>
  The loop of \<open>unwind_backtrace\<close>; \<open>fs\<close> is what has been stored in \<open>stack\<close>, so its length is
  \<open>depth\<close>. It stops because \<open>sb\<close> grows strictly.
\<close>

function unwind_loop ::
    "(u64 \<rightharpoonup> u64) \<Rightarrow> u64 \<Rightarrow> nat \<Rightarrow> u64 \<Rightarrow> u64 \<Rightarrow> u64 \<Rightarrow> u64 list \<Rightarrow> u64 list res" where
  "unwind_loop mem st max_depth sb fp pc fs =
     (if isValid fp st sb \<and> length fs < max_depth
      then case load mem (fp + 8) of Inl e \<Rightarrow> Inl e | Inr tt \<Rightarrow>
           (case load mem fp of Inl e \<Rightarrow> Inl e | Inr pre \<Rightarrow>
             (if pre AND 0xF \<noteq> 0 \<or> pre < fp + kFrameSize then Inr fs
              else unwind_loop mem st max_depth fp pre tt (if tt \<noteq> pc then fs @ [tt] else fs)))
      else Inr fs)"
  by pat_completeness auto

termination
proof (relation "measure (\<lambda>(mem, st, max_depth, sb, fp, pc, fs). 2 ^ 64 - unat sb)")
  fix mem :: "u64 \<rightharpoonup> u64" and st sb fp pc tt pre :: u64 and max_depth :: nat and fs :: "u64 list"
  assume "isValid fp st sb \<and> length fs < max_depth"
  then have "unat sb < unat fp" by (simp add: isValid_def word_less_nat_alt)
  moreover have "unat fp < 2 ^ 64" using unsigned_less [of fp] by simp
  ultimately show "((mem, st, max_depth, fp, pre, tt, if tt \<noteq> pc then fs @ [tt] else fs),
      (mem, st, max_depth, sb, fp, pc, fs))
      \<in> measure (\<lambda>(mem, st, max_depth, sb, fp, pc, fs). 2 ^ 64 - unat sb)" by simp
qed simp

declare unwind_loop.simps [simp del]

record unwind_state =
  fp_main_thread_stack_low :: u64
  fp_main_thread_stack_high :: u64
  thread_t_key :: "nat \<Rightarrow> u64"
  thread_b_key :: "nat \<Rightarrow> u64"
  use_thread_local :: bool

text \<open>The two keys are created, or neither is used.\<close>

definition init_arm64_unwind :: "bool \<Rightarrow> bool \<Rightarrow> unwind_state \<Rightarrow> unwind_state" where
  "init_arm64_unwind t_created b_created s =
     (if \<not> t_created then s
      else if \<not> b_created then s
      else s\<lparr>thread_t_key := \<lambda>_. 0, thread_b_key := \<lambda>_. 0, use_thread_local := True\<rparr>)"

definition GetStackRange :: "(nat \<Rightarrow> u64 \<times> u64) \<Rightarrow> nat \<Rightarrow> u64 \<times> u64" where
  "GetStackRange attr_stack tid = (let (address, sz) = attr_stack tid in (address + sz, address))"

definition stack_range ::
    "(nat \<Rightarrow> u64 \<times> u64) \<Rightarrow> nat \<Rightarrow> nat \<Rightarrow> unwind_state \<Rightarrow> (u64 \<times> u64) \<times> unwind_state" where
  "stack_range attr_stack pid tid s =
     (if use_thread_local s then
        if thread_t_key s tid = 0 \<or> thread_b_key s tid = 0 then
          let (st, sb) = GetStackRange attr_stack tid
          in ((st, sb), s\<lparr>thread_t_key := (thread_t_key s)(tid := st),
                          thread_b_key := (thread_b_key s)(tid := sb)\<rparr>)
        else ((thread_t_key s tid, thread_b_key s tid), s)
      else if tid = pid then
        if fp_main_thread_stack_low s = 0 \<or> fp_main_thread_stack_high s = 0 then
          let (st, sb) = GetStackRange attr_stack tid
          in ((st, sb), s\<lparr>fp_main_thread_stack_high := st, fp_main_thread_stack_low := sb\<rparr>)
        else ((fp_main_thread_stack_high s, fp_main_thread_stack_low s), s)
      else (GetStackRange attr_stack tid, s))"

definition unwind_backtrace ::
    "(nat \<Rightarrow> u64 \<times> u64) \<Rightarrow> nat \<Rightarrow> (u64 \<rightharpoonup> u64) \<Rightarrow> nat \<Rightarrow> u64 \<Rightarrow> nat \<Rightarrow> unwind_state \<Rightarrow>
     u64 list res \<times> unwind_state" where
  "unwind_backtrace attr_stack pid mem tid frame_address max_depth s =
     (let ((st, sb), s') = stack_range attr_stack pid tid s
      in (unwind_loop mem st max_depth sb frame_address 0 [], s'))"

section \<open>The walk\<close>

text \<open>What one more iteration does, when it happens and the two words are mapped.\<close>

lemma unwind_step:
  assumes "isValid fp st sb" "length fs < n" "mem (fp + 8) = Some tt" "mem fp = Some pre"
  shows "unwind_loop mem st n sb fp pc fs =
    (if pre AND 0xF \<noteq> 0 \<or> pre < fp + kFrameSize then Inr fs
     else unwind_loop mem st n fp pre tt (if tt \<noteq> pc then fs @ [tt] else fs))"
  using assms by (subst unwind_loop.simps) (simp add: load_def)

lemma unwind_stop: "\<not> isValid fp st sb \<or> n \<le> length fs \<Longrightarrow> unwind_loop mem st n sb fp pc fs = Inr fs"
  by (subst unwind_loop.simps) auto

text \<open>The stack area above \<open>sb\<close> and below \<open>st\<close> is mapped.\<close>

definition mapped :: "(u64 \<rightharpoonup> u64) \<Rightarrow> u64 \<Rightarrow> u64 \<Rightarrow> bool" where
  "mapped mem sb st \<longleftrightarrow> (\<forall>a. sb < a \<and> unat a + 8 \<le> unat st \<longrightarrow> mem a \<noteq> None)"

lemma valid_reads:
  assumes "isValid fp st sb" and "16 \<le> st"
  shows "unat fp + 16 < unat st" and "unat (fp + 8) = unat fp + 8" and "sb < fp + 8"
proof -
  have "unat (st - 16) = unat st - 16" using assms(2) by (simp add: unat_sub word_le_nat_alt)
  with assms show lt: "unat fp + 16 < unat st"
    by (auto simp: isValid_def kFrameSize_def word_less_nat_alt word_le_nat_alt)
  moreover have "unat st < 2 ^ 64" using unsigned_less [of st] by simp
  ultimately have "unat fp + 8 < 2 ^ 64" by simp
  then show e: "unat (fp + 8) = unat fp + 8" by (simp add: unat_word_ariths)
  then show "sb < fp + 8" using assms by (auto simp: isValid_def word_less_nat_alt)
qed

lemma unwind_safe:
  assumes "16 \<le> st" and "mapped mem sb st" and "length fs \<le> n"
  shows "\<exists>gs. unwind_loop mem st n sb fp pc fs = Inr gs \<and> length gs \<le> n"
  using assms
proof (induction mem st n sb fp pc fs rule: unwind_loop.induct)
  case (1 mem st n sb fp pc fs)
  show ?case
  proof (cases "isValid fp st sb \<and> length fs < n")
    case True
    note v = valid_reads [OF conjunct1 [OF True] "1.prems"(1)]
    have up: "sb < fp" using True by (simp add: isValid_def)
    obtain tt pre where m: "mem (fp + 8) = Some tt" "mem fp = Some pre"
      using "1.prems"(2) v up unfolding mapped_def by force
    have "mapped mem fp st" using "1.prems"(2) up unfolding mapped_def by (meson less_trans)
    then show ?thesis
      using unwind_step [of fp st sb fs n mem tt pre pc] True m "1.prems"
        "1.IH" [OF True, of tt pre] by (auto simp: load_def)
  next
    case False
    then show ?thesis using "1.prems" by (auto simp: unwind_stop not_less)
  qed
qed

text \<open>
  The stack's own account of itself: \<open>frame_chain\<close> lists the return addresses of the frame
  records from \<open>fp\<close> upwards, up to the first record without a valid caller.
\<close>

definition link_ok :: "u64 \<Rightarrow> u64 \<Rightarrow> bool" where
  "link_ok fp pre \<longleftrightarrow> pre AND 0xF = 0 \<and> fp + kFrameSize \<le> pre"

fun frame_chain :: "(u64 \<rightharpoonup> u64) \<Rightarrow> u64 \<Rightarrow> u64 \<Rightarrow> u64 \<Rightarrow> u64 list \<Rightarrow> bool" where
  "frame_chain mem st sb fp [] \<longleftrightarrow> \<not> isValid fp st sb \<or>
     (case (mem (fp + 8), mem fp) of (Some _, Some pre) \<Rightarrow> \<not> link_ok fp pre | _ \<Rightarrow> False)"
| "frame_chain mem st sb fp (r # rs) \<longleftrightarrow> isValid fp st sb \<and> mem (fp + 8) = Some r \<and>
     (case mem fp of Some pre \<Rightarrow> link_ok fp pre \<and> frame_chain mem st fp pre rs | None \<Rightarrow> False)"

text \<open>Calls with the same return address in a row are reported once.\<close>

fun squash :: "u64 \<Rightarrow> u64 list \<Rightarrow> u64 list" where
  "squash pc [] = []"
| "squash pc (r # rs) = (if r \<noteq> pc then r # squash r rs else squash r rs)"

lemma squash_remdups_adj: "squash pc rs = tl (remdups_adj (pc # rs))"
proof (induction rs arbitrary: pc)
  case Nil
  then show ?case by simp
next
  case (Cons r rs)
  have "remdups_adj (r # rs) = r # tl (remdups_adj (r # rs))" by (simp add: remdups_adj_Cons split: list.splits)
  with Cons show ?case by (metis list.sel(3) remdups_adj.simps(3) squash.simps(2))
qed

lemma unwind_chain:
  assumes "frame_chain mem st sb fp rs" and "length fs \<le> n"
  shows "unwind_loop mem st n sb fp pc fs = Inr (take n (fs @ squash pc rs))"
  using assms
proof (induction rs arbitrary: sb fp pc fs)
  case Nil
  show ?case
  proof (cases "isValid fp st sb \<and> length fs < n")
    case True
    with Nil(1) obtain tt pre where "mem (fp + 8) = Some tt" "mem fp = Some pre" "\<not> link_ok fp pre"
      by (auto split: option.splits)
    then show ?thesis using unwind_step [of fp st sb fs n mem tt pre pc] True
      by (auto simp: link_ok_def not_le)
  next
    case False
    then show ?thesis using Nil(2) by (auto simp: unwind_stop)
  qed
next
  case (Cons r rs)
  show ?case
  proof (cases "length fs < n")
    case True
    from Cons.prems(1) obtain pre where m: "isValid fp st sb" "mem (fp + 8) = Some r" "mem fp = Some pre"
      "link_ok fp pre" "frame_chain mem st fp pre rs" by (auto split: option.splits)
    then have "unwind_loop mem st n sb fp pc fs =
        unwind_loop mem st n fp pre r (if r \<noteq> pc then fs @ [r] else fs)"
      using unwind_step [of fp st sb fs n mem r pre pc] True by (auto simp: link_ok_def)
    also have "\<dots> = Inr (take n ((if r \<noteq> pc then fs @ [r] else fs) @ squash r rs))"
      by (rule Cons.IH) (use m True in auto)
    also have "(if r \<noteq> pc then fs @ [r] else fs) @ squash r rs = fs @ squash pc (r # rs)" by simp
    finally show ?thesis .
  next
    case False
    then show ?thesis using Cons.prems(2) by (simp add: unwind_stop)
  qed
qed

section \<open>Stack ranges\<close>

text \<open>A cached range, once both bounds are set, is the thread's range.\<close>

definition ranges_ok :: "(nat \<Rightarrow> u64 \<times> u64) \<Rightarrow> nat \<Rightarrow> unwind_state \<Rightarrow> bool" where
  "ranges_ok attr_stack pid s \<longleftrightarrow>
     (\<forall>t. thread_t_key s t \<noteq> 0 \<longrightarrow> thread_b_key s t \<noteq> 0 \<longrightarrow>
        GetStackRange attr_stack t = (thread_t_key s t, thread_b_key s t)) \<and>
     (fp_main_thread_stack_low s \<noteq> 0 \<longrightarrow> fp_main_thread_stack_high s \<noteq> 0 \<longrightarrow>
        GetStackRange attr_stack pid = (fp_main_thread_stack_high s, fp_main_thread_stack_low s))"

lemma ranges_ok_init: "ranges_ok attr_stack pid s \<Longrightarrow> ranges_ok attr_stack pid (init_arm64_unwind b b' s)"
  by (simp add: ranges_ok_def init_arm64_unwind_def)

lemma stack_range_fst:
  "ranges_ok attr_stack pid s \<Longrightarrow> fst (stack_range attr_stack pid tid s) = GetStackRange attr_stack tid"
  by (auto simp: ranges_ok_def stack_range_def split: prod.splits)

lemma stack_range_keeps:
  "ranges_ok attr_stack pid s \<Longrightarrow> ranges_ok attr_stack pid (snd (stack_range attr_stack pid tid s))"
  by (auto simp: ranges_ok_def stack_range_def split: prod.splits)

lemma unwind_backtrace_eq:
  assumes "ranges_ok attr_stack pid s" and "GetStackRange attr_stack tid = (st, sb)"
  shows "unwind_backtrace attr_stack pid mem tid fa n s =
    (unwind_loop mem st n sb fa 0 [], snd (stack_range attr_stack pid tid s))"
  using stack_range_fst [OF assms(1), of tid] assms(2)
  by (cases "stack_range attr_stack pid tid s") (auto simp: unwind_backtrace_def)

section \<open>Properties of the unwinder\<close>

text \<open>C10. Unwinding always returns, reads only the thread's own stack (anything else is unmapped and
  would fault), stores at most \<open>max_depth\<close> frames and keeps the cached ranges correct.\<close>

theorem unwind64_safe:
  assumes "ranges_ok attr_stack pid s" and "GetStackRange attr_stack tid = (st, sb)" and "16 \<le> st"
    and "mapped mem sb st"
  shows "\<exists>frames s'. unwind_backtrace attr_stack pid mem tid fa max_depth s = (Inr frames, s') \<and>
    length frames \<le> max_depth \<and> ranges_ok attr_stack pid s'"
  using unwind_safe [OF assms(3,4), of "[]" max_depth fa 0] stack_range_keeps [OF assms(1)]
  by (auto simp: unwind_backtrace_eq [OF assms(1,2)])

text \<open>A sample stack of three frame records between 0x1000 and 0x1100; the outermost has no caller.\<close>

definition sample_mem :: "u64 \<rightharpoonup> u64" where
  "sample_mem a = (if a = 0x1010 then Some 0x1040 else if a = 0x1018 then Some 0xAAA4
     else if a = 0x1040 then Some 0x1080 else if a = 0x1048 then Some 0xAAA4
     else if a = 0x1080 then Some 0x10C0 else if a = 0x1088 then Some 0xBBB8
     else if a = 0x10C0 then Some 0 else if a = 0x10C8 then Some 0xCCC0
     else if 0x1000 \<le> a \<and> a < 0x1100 then Some 1 else None)"

definition fresh_state :: "bool \<Rightarrow> unwind_state" where
  "fresh_state local = \<lparr>fp_main_thread_stack_low = 0, fp_main_thread_stack_high = 0,
     thread_t_key = \<lambda>_. 0, thread_b_key = \<lambda>_. 0, use_thread_local = local\<rparr>"

lemma fresh_state_ok: "ranges_ok attr_stack pid (fresh_state local)"
  by (simp add: ranges_ok_def fresh_state_def)

lemma sample_mapped: "mapped sample_mem 0x1000 0x1100"
  unfolding mapped_def sample_mem_def by (auto simp: word_less_nat_alt word_le_nat_alt)

theorem unwind64_safe_witness:
  "\<exists>frames s'. unwind_backtrace (\<lambda>_. (0x1000, 0x100)) 1 sample_mem 1 0x1010 4 (fresh_state True) =
     (Inr frames, s') \<and> length frames \<le> 4"
  using unwind64_safe [of "\<lambda>_. (0x1000, 0x100)" 1 "fresh_state True" 1 "0x1100" "0x1000" sample_mem "0x1010" 4]
    fresh_state_ok sample_mapped by (auto simp: GetStackRange_def)

text \<open>C9. On a well-formed stack the frames reported are the return addresses of the frame chain from
  the innermost outwards, with runs of the same address reported once, cut at \<open>max_depth\<close>.\<close>

theorem unwind64_frames:
  assumes "ranges_ok attr_stack pid s" and "GetStackRange attr_stack tid = (st, sb)"
    and "frame_chain mem st sb fa rs"
  shows "fst (unwind_backtrace attr_stack pid mem tid fa max_depth s) =
    Inr (take max_depth (tl (remdups_adj (0 # rs))))"
  using unwind_chain [OF assms(3), of "[]" max_depth 0]
  by (simp add: unwind_backtrace_eq [OF assms(1,2)] squash_remdups_adj)

theorem unwind64_frames_witness:
  "fst (unwind_backtrace (\<lambda>_. (0x1000, 0x100)) 1 sample_mem 1 0x1010 4 (fresh_state True)) =
     Inr [0xAAA4, 0xBBB8]"
proof -
  have "frame_chain sample_mem 0x1100 0x1000 0x1010 [0xAAA4, 0xAAA4, 0xBBB8]"
    by (simp add: sample_mem_def isValid_def kFrameSize_def link_ok_def)
  from unwind64_frames [of "\<lambda>_. (0x1000, 0x100)" 1 "fresh_state True" 1 "0x1100" "0x1000" sample_mem
      "0x1010" "[0xAAA4, 0xAAA4, 0xBBB8]" 4, OF fresh_state_ok _ this] show ?thesis
    by (simp add: GetStackRange_def)
qed

end
