(* ===== verification/Relocate32.thy ===== *)
theory Relocate32
  imports Raphael_Prelude
begin

text \<open>
  Relocation of the first instructions of a hooked 32-bit ARM function
  (\<open>inline32/relocate.c\<close>): classification of Thumb and ARM instructions, the code emitted for
  each, and the loops that fill a trampoline. Memory is a partial map from addresses to 32-bit
  words, read by the PC-relative loads.
\<close>

section \<open>Classification\<close>

datatype INSTRUCTION_TYPE =
    B1_THUMB16 | B2_THUMB16 | BX_THUMB16 | ADD_THUMB16 | MOV_THUMB16 | ADR_THUMB16 | LDR_THUMB16
  | CB_THUMB16
  | BLX_THUMB32 | BL_THUMB32 | B1_THUMB32 | B2_THUMB32 | ADR1_THUMB32 | ADR2_THUMB32 | LDR_THUMB32
  | TBB_THUMB32 | TBH_THUMB32
  | BLX_ARM | BL_ARM | B_ARM | BX_ARM | ADD_ARM | ADR1_ARM | ADR2_ARM | MOV_ARM | LDR_ARM
  | UNDEFINE

definition ALIGN_PC :: "u32 \<Rightarrow> u32" where
  "ALIGN_PC pc = pc AND 0xFFFFFFFC"

definition getTypeInThumb16 :: "u16 \<Rightarrow> INSTRUCTION_TYPE" where
  "getTypeInThumb16 instruction =
     (if instruction AND 0xF000 = 0xD000 then B1_THUMB16
      else if instruction AND 0xF800 = 0xE000 then B2_THUMB16
      else if instruction AND 0xFFF8 = 0x4778 then BX_THUMB16
      else if instruction AND 0xFF78 = 0x4478 then ADD_THUMB16
      else if instruction AND 0xFF78 = 0x4678 then MOV_THUMB16
      else if instruction AND 0xF800 = 0xA000 then ADR_THUMB16
      else if instruction AND 0xF800 = 0x4800 then LDR_THUMB16
      else if instruction AND 0xF500 = 0xB100 then CB_THUMB16
      else UNDEFINE)"

definition getTypeInThumb32 :: "u32 \<Rightarrow> INSTRUCTION_TYPE" where
  "getTypeInThumb32 instruction =
     (if instruction AND 0xFFF0D000 = 0xF3B08000 then UNDEFINE
      else if instruction AND 0xF800D000 = 0xF000C000 then BLX_THUMB32
      else if instruction AND 0xF800D000 = 0xF000D000 then BL_THUMB32
      else if instruction AND 0xF800D000 = 0xF0008000 then B1_THUMB32
      else if instruction AND 0xF800D000 = 0xF0009000 then B2_THUMB32
      else if instruction AND 0xFBFF8000 = 0xF2AF0000 then ADR1_THUMB32
      else if instruction AND 0xFBFF8000 = 0xF20F0000 then ADR2_THUMB32
      else if instruction AND 0xFF7F0000 = 0xF85F0000 then LDR_THUMB32
      else if instruction AND 0xFFFF00F0 = 0xE8DF0000 then TBB_THUMB32
      else if instruction AND 0xFFFF00F0 = 0xE8DF0010 then TBH_THUMB32
      else UNDEFINE)"

definition getTypeInArm :: "u32 \<Rightarrow> INSTRUCTION_TYPE" where
  "getTypeInArm instruction =
     (if instruction AND 0xFE000000 = 0xFA000000 then BLX_ARM
      else if instruction AND 0xF000000 = 0xB000000 then BL_ARM
      else if instruction AND 0xF000000 = 0xA000000 then B_ARM
      else if instruction AND 0xFF000FF = 0x120001F then BX_ARM
      else if instruction AND 0xFEF0010 = 0x8F0000 then ADD_ARM
      else if instruction AND 0xFFF0000 = 0x28F0000 then ADR1_ARM
      else if instruction AND 0xFFF0000 = 0x24F0000 then ADR2_ARM
      else if instruction AND 0xE5F0000 = 0x41F0000 then LDR_ARM
      else if instruction AND 0xFE00FFF = 0x1A0000F then MOV_ARM
      else UNDEFINE)"

section \<open>Emitted code\<close>

text \<open>A 32-bit literal in the Thumb stream, low half first.\<close>

definition literal :: "u32 \<Rightarrow> u16 list" where
  "literal v = [ucast (v AND 0xFFFF), ucast (drop_bit 16 v)]"

definition load_word :: "(u32 \<rightharpoonup> u32) \<Rightarrow> u32 \<Rightarrow> u32 res" where
  "load_word mem a = (case mem a of None \<Rightarrow> Inl Wild_Access | Some v \<Rightarrow> Inr v)"

text \<open>The highest register of \<open>r, r - 1, \<dots>\<close> that is in use by none of \<open>used\<close>.\<close>

fun scratch_reg :: "nat \<Rightarrow> nat list \<Rightarrow> nat res" where
  "scratch_reg 0 used = (if 0 \<in> set used then Inl No_Return else Inr 0)"
| "scratch_reg (Suc r) used = (if Suc r \<in> set used then scratch_reg r used else Inr (Suc r))"

definition w16 :: "nat \<Rightarrow> nat \<Rightarrow> u16" where
  "w16 s r = push_bit s (word_of_nat r)"

definition w32 :: "nat \<Rightarrow> nat \<Rightarrow> u32" where
  "w32 s r = push_bit s (word_of_nat r)"

definition sign_fill :: "nat \<Rightarrow> bool \<Rightarrow> u32 \<Rightarrow> u32" where
  "sign_fill n neg x = (if neg then x OR push_bit n 0xFFFFFFFF else x)"

subsection \<open>16-bit Thumb\<close>

definition thumb16_branch :: "INSTRUCTION_TYPE \<Rightarrow> u32 \<Rightarrow> u16 \<Rightarrow> u16 list" where
  "thumb16_branch type pc instruction =
     (let (head, value) =
        (if type = B1_THUMB16 then
           let x = push_bit 1 (ucast (instruction AND 0xFF)) :: u32;
               imm32 = sign_fill 8 (drop_bit 8 x \<noteq> 0) x
           in ([instruction AND 0xFF00, 0xE003], pc + imm32)
         else if type = B2_THUMB16 then
           let x = push_bit 1 (ucast (instruction AND 0x7FF)) :: u32;
               imm32 = sign_fill 11 (drop_bit 11 x \<noteq> 0) x
           in ([], pc + imm32)
         else ([], pc))
      in head @ [0xF8DF, 0xF000] @ literal (value OR 1))"

definition thumb16_add :: "u32 \<Rightarrow> u16 \<Rightarrow> u16 list res" where
  "thumb16_add pc instruction =
     (let rdn = unat (drop_bit 4 (instruction AND 0x80) OR (instruction AND 0x7)) in
      res_bind (scratch_reg 7 [rdn]) (\<lambda>r.
        Inr ([0xB400 OR w16 r 1, 0x4802 OR w16 8 r, (instruction AND 0xFF87) OR w16 3 r,
              0xBC00 OR w16 r 1, 0xE002, 0xBF00] @ literal pc)))"

definition thumb16_value :: "(u32 \<rightharpoonup> u32) \<Rightarrow> INSTRUCTION_TYPE \<Rightarrow> u32 \<Rightarrow> u16 \<Rightarrow> u16 list res" where
  "thumb16_value mem type pc instruction =
     (let rd = drop_bit 8 (instruction AND 0x700) in
      res_bind
        (if type = MOV_THUMB16 then Inr (instruction AND 0x7, pc)
         else if type = ADR_THUMB16 then
           Inr (rd, push_bit 2 (ALIGN_PC pc + ucast (instruction AND 0xFF)))
         else res_bind (load_word mem (ALIGN_PC pc + push_bit 2 (ucast (instruction AND 0xFF))))
                (\<lambda>v. Inr (rd, v)))
        (\<lambda>(r, value). Inr ([0x4800 OR push_bit 8 r, 0xE001] @ literal value)))"

definition thumb16_cb :: "u32 \<Rightarrow> u16 \<Rightarrow> u16 list" where
  "thumb16_cb pc instruction =
     (let imm32 = ucast (drop_bit 3 (instruction AND 0x200) OR drop_bit 2 (instruction AND 0xF8)) :: u32;
          value = pc + imm32 + 1
      in [instruction AND 0xFD07, 0xE003, 0xF8DF, 0xF000] @ literal value)"

definition relocateInstructionInThumb16 :: "(u32 \<rightharpoonup> u32) \<Rightarrow> u32 \<Rightarrow> u16 \<Rightarrow> u16 list res" where
  "relocateInstructionInThumb16 mem pc instruction =
     (let type = getTypeInThumb16 instruction in
      if type = B1_THUMB16 \<or> type = B2_THUMB16 \<or> type = BX_THUMB16
      then Inr (thumb16_branch type pc instruction)
      else if type = ADD_THUMB16 then thumb16_add pc instruction
      else if type = MOV_THUMB16 \<or> type = ADR_THUMB16 \<or> type = LDR_THUMB16
      then thumb16_value mem type pc instruction
      else if type = CB_THUMB16 then Inr (thumb16_cb pc instruction)
      else Inr [instruction, 0xBF00])"

subsection \<open>32-bit Thumb\<close>

text \<open>The offset fields of a long branch: 25 bits for \<open>BL\<close>, \<open>BLX\<close> and \<open>B.W\<close>, 21 for the conditional one.\<close>

definition thumb32_branch :: "INSTRUCTION_TYPE \<Rightarrow> u32 \<Rightarrow> u16 \<Rightarrow> u16 \<Rightarrow> u16 list" where
  "thumb32_branch type pc high_instruction low_instruction =
     (let j1 = ucast (drop_bit 13 (low_instruction AND 0x2000)) :: u32;
          j2 = ucast (drop_bit 11 (low_instruction AND 0x800)) :: u32;
          s = ucast (drop_bit 10 (high_instruction AND 0x400)) :: u32;
          i1 = (if j1 XOR s = 0 then 1 else 0) :: u32;
          i2 = (if j2 XOR s = 0 then 1 else 0) :: u32;
          head = (if type = BLX_THUMB32 \<or> type = BL_THUMB32 then [0xF20F, 0x0E09]
                  else if type = B1_THUMB32
                  then [0xD000 OR push_bit 2 (high_instruction AND 0x3C0), 0xE003]
                  else []);
          value =
            (if type = BLX_THUMB32 then
               let x = push_bit 24 s OR push_bit 23 i1 OR push_bit 22 i2 OR
                     push_bit 12 (ucast (high_instruction AND 0x3FF)) OR
                     push_bit 1 (ucast (low_instruction AND 0x7FE))
               in ALIGN_PC pc + sign_fill 25 (s \<noteq> 0) x
             else if type = B1_THUMB32 then
               let x = push_bit 20 s OR push_bit 19 j2 OR push_bit 18 j1 OR
                     push_bit 12 (ucast (high_instruction AND 0x3F)) OR
                     push_bit 1 (ucast (low_instruction AND 0x7FF))
               in ALIGN_PC pc + sign_fill 21 (s \<noteq> 0) x + 1
             else
               let x = push_bit 24 s OR push_bit 23 i1 OR push_bit 22 i2 OR
                     push_bit 12 (ucast (high_instruction AND 0x3FF)) OR
                     push_bit 1 (ucast (low_instruction AND 0x7FF))
               in ALIGN_PC pc + sign_fill 25 (s \<noteq> 0) x + 1)
      in head @ [0xF8DF, 0xF000] @ literal value)"

definition thumb32_value ::
    "(u32 \<rightharpoonup> u32) \<Rightarrow> INSTRUCTION_TYPE \<Rightarrow> u32 \<Rightarrow> u16 \<Rightarrow> u16 \<Rightarrow> u16 list res" where
  "thumb32_value mem type pc high_instruction low_instruction =
     res_bind
       (if type = ADR1_THUMB32 \<or> type = ADR2_THUMB32 then
          let r = drop_bit 8 (low_instruction AND 0xF00);
              i = ucast (drop_bit 10 (high_instruction AND 0x400)) :: u32;
              imm3 = ucast (drop_bit 12 (low_instruction AND 0x7000)) :: u32;
              imm8 = ucast (low_instruction AND 0xFF) :: u32;
              imm32 = push_bit 31 i OR push_bit 30 imm3 OR push_bit 27 imm8
          in Inr (r, if type = ADR1_THUMB32 then ALIGN_PC pc + imm32 else ALIGN_PC pc - imm32)
        else
          let is_add = drop_bit 7 (high_instruction AND 0x80) \<noteq> 0;
              r = drop_bit 12 low_instruction;
              imm32 = ucast (low_instruction AND 0xFFF) :: u32;
              addr = (if is_add then ALIGN_PC pc + imm32 else ALIGN_PC pc - imm32)
          in res_bind (load_word mem addr) (\<lambda>v. Inr (r, v)))
       (\<lambda>(r, value). Inr ([0xF8DF, push_bit 12 r OR 4, 0xBF00, 0xE001] @ literal value))"

definition thumb32_table :: "INSTRUCTION_TYPE \<Rightarrow> u32 \<Rightarrow> u16 \<Rightarrow> u16 list res" where
  "thumb32_table type pc low_instruction =
     (let rm = unat (low_instruction AND 0xF) in
      res_bind (scratch_reg 7 [rm]) (\<lambda>r.
      res_bind (scratch_reg 7 [rm, r]) (\<lambda>rx.
        Inr ([0xB400 OR w16 rx 1, 0x4805 OR w16 8 r, 0x4600 OR w16 3 rm OR w16 0 rx, 0xEB00 OR w16 0 r] @
             (if type = TBB_THUMB32 then [w16 8 rx OR w16 0 rx, 0x7800 OR w16 3 rx OR w16 0 rx]
              else [0x0040 OR w16 8 rx OR w16 0 rx, 0x8800 OR w16 3 rx OR w16 0 rx]) @
             [0xEB00 OR w16 0 r, 0x0040 OR w16 8 r OR w16 0 rx, 0x3001 OR w16 8 r,
              0xBC00 OR w16 rx 1, 0x4700 OR w16 3 r, 0xBF00] @ literal pc))))"

definition relocateInstructionInThumb32 :: "(u32 \<rightharpoonup> u32) \<Rightarrow> u32 \<Rightarrow> u16 \<Rightarrow> u16 \<Rightarrow> u16 list res" where
  "relocateInstructionInThumb32 mem pc high_instruction low_instruction =
     (let instruction = push_bit 16 (ucast high_instruction) OR ucast low_instruction;
          type = getTypeInThumb32 instruction
      in if type = BLX_THUMB32 \<or> type = BL_THUMB32 \<or> type = B1_THUMB32 \<or> type = B2_THUMB32
         then Inr (thumb32_branch type pc high_instruction low_instruction)
         else if type = ADR1_THUMB32 \<or> type = ADR2_THUMB32 \<or> type = LDR_THUMB32
         then thumb32_value mem type pc high_instruction low_instruction
         else if type = TBB_THUMB32 \<or> type = TBH_THUMB32
         then thumb32_table type pc low_instruction
         else Inr [high_instruction, low_instruction])"

subsection \<open>ARM\<close>

definition arm_branch :: "INSTRUCTION_TYPE \<Rightarrow> u32 \<Rightarrow> u32 \<Rightarrow> u32 list" where
  "arm_branch type pc instruction =
     (let x = (if type = BLX_ARM
               then push_bit 2 (instruction AND 0xFFFFFF) OR drop_bit 23 (instruction AND 0x1000000)
               else if type = BL_ARM \<or> type = B_ARM then push_bit 2 (instruction AND 0xFFFFFF)
               else 0);
          imm32 = sign_fill 26 (drop_bit 25 x \<noteq> 0) x;
          value = (if type = BLX_ARM then pc + imm32 + 1 else pc + imm32)
      in (if type = BLX_ARM \<or> type = BL_ARM then [0xE28FE004] else []) @ [0xE51FF004, value])"

definition arm_add :: "u32 \<Rightarrow> u32 \<Rightarrow> u32 list res" where
  "arm_add pc instruction =
     (let rd = unat (drop_bit 12 (instruction AND 0xF000));
          rm = unat (instruction AND 0xF)
      in res_bind (scratch_reg 12 [rd, rm]) (\<lambda>r.
           Inr [0xE52D0004 OR w32 12 r, 0xE59F0008 OR w32 12 r,
                (instruction AND 0xFFF0FFFF) OR w32 16 r, 0xE49D0004 OR w32 12 r, 0xE28FF000, pc]))"

definition arm_value :: "(u32 \<rightharpoonup> u32) \<Rightarrow> INSTRUCTION_TYPE \<Rightarrow> u32 \<Rightarrow> u32 \<Rightarrow> u32 list res" where
  "arm_value mem type pc instruction =
     (let r = drop_bit 12 (instruction AND 0xF000);
          imm32 = instruction AND 0xFFF
      in res_bind
           (if type = ADR1_ARM then Inr (pc + imm32)
            else if type = ADR2_ARM then Inr (pc - imm32)
            else if type = LDR_ARM then
              load_word mem (if drop_bit 23 (instruction AND 0x800000) \<noteq> 0 then pc + imm32 else pc - imm32)
            else Inr pc)
           (\<lambda>value. Inr [0xE51F0000 OR push_bit 12 r, 0xE28FF000, value]))"

definition relocateOneArm :: "(u32 \<rightharpoonup> u32) \<Rightarrow> u32 \<Rightarrow> u32 \<Rightarrow> u32 list res" where
  "relocateOneArm mem pc instruction =
     (let type = getTypeInArm instruction in
      if type = BLX_ARM \<or> type = BL_ARM \<or> type = B_ARM \<or> type = BX_ARM
      then Inr (arm_branch type pc instruction)
      else if type = ADD_ARM then arm_add pc instruction
      else if type = ADR1_ARM \<or> type = ADR2_ARM \<or> type = LDR_ARM \<or> type = MOV_ARM
      then arm_value mem type pc instruction
      else Inr [instruction])"

section \<open>The relocation loops\<close>

text \<open>
  The arrays \<open>orig_boundaries[4]\<close> and \<open>trampoline_boundaries[20]\<close> are adjacent in the hook item:
  \<open>bounds\<close> is the area of 24 integers they share, and an index past the first array falls into
  the second. \<open>count\<close> is where the next boundary goes.
\<close>

definition mark :: "nat \<Rightarrow> nat \<Rightarrow> nat \<times> nat list \<Rightarrow> (nat \<times> nat list) res" where
  "mark orig_off tramp_off cb =
     (let (count, bounds) = cb in
      if 24 \<le> count + 4 then Inl Array_Overflow
      else Inr (Suc count, (bounds[count := orig_off])[count + 4 := tramp_off]))"

function thumb_loop :: "(u32 \<rightharpoonup> u32) \<Rightarrow> u16 list \<Rightarrow> nat \<Rightarrow> nat \<Rightarrow> u32 \<Rightarrow> u16 list \<Rightarrow> nat \<times> nat list \<Rightarrow>
    (nat \<times> u16 list \<times> nat \<times> nat list) res" where
  "thumb_loop mem orig n orig_pos pc tramp cb =
     (case mark (orig_pos * 2) (length tramp * 2) cb of Inl e \<Rightarrow> Inl e | Inr cb' \<Rightarrow>
       (if length orig \<le> orig_pos then Inl Array_Overflow
        else if 0x1D \<le> drop_bit 11 (orig ! orig_pos) \<and> drop_bit 11 (orig ! orig_pos) \<le> 0x1F
        then
          if n < orig_pos + 2 then Inr (orig_pos, tramp, cb')
          else if length orig \<le> orig_pos + 1 then Inl Array_Overflow
          else
            case relocateInstructionInThumb32 mem pc (orig ! orig_pos) (orig ! (orig_pos + 1)) of
              Inl e \<Rightarrow> Inl e
            | Inr code \<Rightarrow>
                if n \<le> orig_pos + 2 then Inr (orig_pos + 2, tramp @ code, cb')
                else thumb_loop mem orig n (orig_pos + 2) (pc + 4) (tramp @ code) cb'
        else
          case relocateInstructionInThumb16 mem pc (orig ! orig_pos) of
            Inl e \<Rightarrow> Inl e
          | Inr code \<Rightarrow>
              if n \<le> orig_pos + 1 then Inr (orig_pos + 1, tramp @ code, cb')
              else thumb_loop mem orig n (orig_pos + 1) (pc + 2) (tramp @ code) cb'))"
  by pat_completeness auto

termination
  by (relation "measure (\<lambda>(mem, orig, n, orig_pos, pc, tramp, cb). n - orig_pos)") auto

declare thumb_loop.simps [simp del]

definition relocateInstructionInThumb :: "(u32 \<rightharpoonup> u32) \<Rightarrow> u32 \<Rightarrow> u16 list \<Rightarrow> nat \<Rightarrow> nat \<times> nat list \<Rightarrow>
    (u16 list \<times> nat \<times> nat list) res" where
  "relocateInstructionInThumb mem target_addr orig len cb =
     res_bind (thumb_loop mem orig (len div 2) 0 (target_addr + 4) [] cb) (\<lambda>(orig_pos, tramp, cb').
       let lr = target_addr + word_of_nat (orig_pos * 2) + 1
       in Inr (tramp @ [0xF8DF, 0xF000] @ literal lr, cb'))"

fun arm_loop :: "(u32 \<rightharpoonup> u32) \<Rightarrow> u32 list \<Rightarrow> nat \<Rightarrow> u32 \<Rightarrow> u32 list \<Rightarrow> nat \<times> nat list \<Rightarrow>
    (u32 list \<times> nat \<times> nat list) res" where
  "arm_loop mem [] orig_pos pc tramp cb = Inr (tramp, cb)"
| "arm_loop mem (instruction # is) orig_pos pc tramp cb =
     (case mark (orig_pos * 4) (length tramp * 4) cb of Inl e \<Rightarrow> Inl e | Inr cb' \<Rightarrow>
       (case relocateOneArm mem pc instruction of Inl e \<Rightarrow> Inl e | Inr code \<Rightarrow>
         arm_loop mem is (Suc orig_pos) (pc + 4) (tramp @ code) cb'))"

definition relocateInstructionInArm :: "(u32 \<rightharpoonup> u32) \<Rightarrow> u32 \<Rightarrow> u32 list \<Rightarrow> nat \<Rightarrow> nat \<times> nat list \<Rightarrow>
    (u32 list \<times> nat \<times> nat list) res" where
  "relocateInstructionInArm mem target_addr orig len cb =
     (if length orig < len div 4 then Inl Array_Overflow
      else res_bind (arm_loop mem (take (len div 4) orig) 0 (target_addr + 8) [] cb) (\<lambda>(tramp, cb').
        let lr = target_addr + word_of_nat len in Inr (tramp @ [0xE51FF004, lr], cb')))"

section \<open>Size of the emitted code\<close>

lemma length_literal [simp]: "length (literal v) = 2"
  by (simp add: literal_def)

lemma scratch_reg_seven: "scratch_reg 7 [x] = Inr (if x = 7 then 6 else 7)"
  by (simp add: eval_nat_numeral)

lemma scratch_reg_seven_two: "\<exists>r\<le>7. scratch_reg 7 [x, y] = Inr r \<and> r \<noteq> x \<and> r \<noteq> y"
  by (auto simp: eval_nat_numeral)

lemma scratch_reg_twelve_two: "\<exists>r\<le>12. scratch_reg 12 [x, y] = Inr r \<and> r \<noteq> x \<and> r \<noteq> y"
  by (auto simp: eval_nat_numeral)

definition code_size :: "nat \<Rightarrow> 'a list \<Rightarrow> bool" where
  "code_size k code \<longleftrightarrow> even (length code) \<and> 0 < length code \<and> length code \<le> k"

text \<open>Every Thumb instruction becomes a whole number of words: at most 4 for a 16-bit one, 7 for a 32-bit one.\<close>

lemma thumb16_size:
  assumes "relocateInstructionInThumb16 mem pc i = Inr code"
  shows "code_size 8 code"
  using assms
  by (auto simp: relocateInstructionInThumb16_def thumb16_branch_def thumb16_add_def thumb16_value_def
      thumb16_cb_def scratch_reg_seven Let_def res_bind_Inr_iff code_size_def split: if_splits)

lemma thumb32_size:
  assumes "relocateInstructionInThumb32 mem pc hi lo = Inr code"
  shows "code_size 14 code"
  using assms
  by (auto simp: relocateInstructionInThumb32_def thumb32_branch_def thumb32_value_def thumb32_table_def
      Let_def res_bind_Inr_iff code_size_def split: if_splits)

text \<open>Relocation of one instruction fails only where a PC-relative load reads unmapped memory.\<close>

definition settled :: "'a res \<Rightarrow> bool" where
  "settled r \<longleftrightarrow> (case r of Inl e \<Rightarrow> e = Wild_Access | Inr _ \<Rightarrow> True)"

lemma settled_simps [simp]: "settled (Inr x)" "settled (Inl e) \<longleftrightarrow> e = Wild_Access"
  by (simp_all add: settled_def)

lemma settled_bind: "settled r \<Longrightarrow> (\<And>x. settled (f x)) \<Longrightarrow> settled (res_bind r f)"
  by (cases r) auto

lemma settled_load: "settled (load_word mem a)"
  by (simp add: load_word_def split: option.split)

lemmas settled_intros = settled_bind settled_load

lemma thumb16_settled: "settled (relocateInstructionInThumb16 mem pc i)"
  by (auto simp: relocateInstructionInThumb16_def thumb16_add_def thumb16_value_def
      scratch_reg_seven Let_def intro!: settled_intros)

lemma thumb32_settled: "settled (relocateInstructionInThumb32 mem pc hi lo)"
proof -
  have g: "settled (thumb32_table type pc lo)" for type
  proof -
    let ?rm = "unat (lo AND 0xF)"
    obtain r where "scratch_reg 7 [?rm] = Inr r" using scratch_reg_seven by metis
    moreover obtain rx where "scratch_reg 7 [?rm, r] = Inr rx" using scratch_reg_seven_two by metis
    ultimately show ?thesis by (simp add: thumb32_table_def Let_def)
  qed
  show ?thesis
    by (auto simp: relocateInstructionInThumb32_def thumb32_value_def g Let_def intro!: settled_intros)
qed

lemma arm_settled: "settled (relocateOneArm mem pc i)"
proof -
  have g: "settled (arm_add pc i)"
    using scratch_reg_twelve_two [of "unat (drop_bit 12 (i AND 0xF000))" "unat (i AND 0xF)"]
    by (auto simp: arm_add_def Let_def)
  show ?thesis
    by (auto simp: relocateOneArm_def arm_value_def g Let_def intro!: settled_intros)
qed

section \<open>The Thumb loop\<close>

text \<open>
  One pass of the loop, as a function of what the decoder makes of the instruction at
  \<open>orig_pos\<close>: how many half-words it covers, or that it straddles the end of the copy.
\<close>

lemma mark_ok:
  assumes "count < 20"
  shows "mark a b (count, bounds) = Inr (Suc count, (bounds[count := a])[count + 4 := b])"
  using assms by (simp add: mark_def)

lemma mark_Inr:
  assumes "mark a b cb = Inr cb'"
  shows "fst cb' = Suc (fst cb)" and "length (snd cb') = length (snd cb)" and "fst cb < 20"
  using assms by (auto simp: mark_def split: if_splits prod.splits)

definition thumb_state_ok :: "nat \<Rightarrow> nat \<Rightarrow> u16 list \<Rightarrow> nat \<times> nat list \<Rightarrow> bool" where
  "thumb_state_ok n orig_pos tramp cb \<longleftrightarrow> even (length tramp) \<and> length tramp \<le> 14 * orig_pos \<and>
     fst cb + (n - orig_pos) \<le> 20"

definition thumb_done :: "nat \<Rightarrow> nat \<Rightarrow> (nat \<times> u16 list \<times> nat \<times> nat list) res \<Rightarrow> bool" where
  "thumb_done n m r \<longleftrightarrow> (case r of Inl e \<Rightarrow> e = Wild_Access
     | Inr (end, tramp, cb') \<Rightarrow> (end = n \<or> Suc end = n) \<and> even (length tramp) \<and>
         length tramp \<le> 14 * n \<and> fst cb' \<le> 20 \<and> length (snd cb') = m)"

lemma thumb_loop_ok:
  assumes "orig_pos < n" and "n \<le> length orig" and "thumb_state_ok n orig_pos tramp cb"
  shows "thumb_done n (length (snd cb)) (thumb_loop mem orig n orig_pos pc tramp cb)"
  using assms
proof (induction mem orig n orig_pos pc tramp cb rule: thumb_loop.induct)
  case (1 mem orig n orig_pos pc tramp cb)
  note st = "1.prems"(3) [unfolded thumb_state_ok_def]
  obtain cb' where m: "mark (orig_pos * 2) (length tramp * 2) cb = Inr cb'"
    using mark_ok [of "fst cb" _ _ "snd cb"] st "1.prems"(1) by (cases cb) auto
  note mi = mark_Inr [OF m]
  have in_range: "\<not> length orig \<le> orig_pos" using "1.prems"(1,2) by simp
  show ?case
  proof (cases "0x1D \<le> drop_bit 11 (orig ! orig_pos) \<and> drop_bit 11 (orig ! orig_pos) \<le> 0x1F")
    case wide: True
    show ?thesis
    proof (cases "n < orig_pos + 2")
      case True
      then show ?thesis using m mi wide in_range st "1.prems"(1)
        by (subst thumb_loop.simps) (auto simp: not_le thumb_done_def)
    next
      case False
      have in_range': "\<not> length orig \<le> orig_pos + 1" using "1.prems"(2) False by simp
      let ?r = "relocateInstructionInThumb32 mem pc (orig ! orig_pos) (orig ! (orig_pos + 1))"
      have eq: "thumb_loop mem orig n orig_pos pc tramp cb =
        (case ?r of Inl e \<Rightarrow> Inl e
         | Inr code \<Rightarrow> if n \<le> orig_pos + 2 then Inr (orig_pos + 2, tramp @ code, cb')
           else thumb_loop mem orig n (orig_pos + 2) (pc + 4) (tramp @ code) cb')"
        using m wide in_range in_range' False by (subst thumb_loop.simps) simp
      show ?thesis
      proof (cases ?r)
        case (Inl e)
        then show ?thesis using eq thumb32_settled [of mem pc "orig ! orig_pos" "orig ! (orig_pos + 1)"]
          by (simp add: thumb_done_def)
      next
        case (Inr code)
        have sz: "code_size 14 code" by (rule thumb32_size [OF Inr])
        have ok: "thumb_state_ok n (orig_pos + 2) (tramp @ code) cb'"
          using st sz mi False by (auto simp: thumb_state_ok_def code_size_def)
        show ?thesis
        proof (cases "n \<le> orig_pos + 2")
          case True
          then show ?thesis using eq Inr ok mi False by (auto simp: thumb_state_ok_def thumb_done_def)
        next
          case more: False
          from "1.IH"(1) [OF m in_range wide False in_range' Inr more _ "1.prems"(2) ok]
          show ?thesis using eq Inr more mi by simp
        qed
      qed
    qed
  next
    case narrow: False
    let ?r = "relocateInstructionInThumb16 mem pc (orig ! orig_pos)"
    have eq: "thumb_loop mem orig n orig_pos pc tramp cb =
      (case ?r of Inl e \<Rightarrow> Inl e
       | Inr code \<Rightarrow> if n \<le> orig_pos + 1 then Inr (orig_pos + 1, tramp @ code, cb')
         else thumb_loop mem orig n (orig_pos + 1) (pc + 2) (tramp @ code) cb')"
      using m narrow in_range by (subst thumb_loop.simps) auto
    show ?thesis
    proof (cases ?r)
      case (Inl e)
      then show ?thesis using eq thumb16_settled [of mem pc "orig ! orig_pos"]
        by (simp add: thumb_done_def)
    next
      case (Inr code)
      have sz: "code_size 8 code" by (rule thumb16_size [OF Inr])
      have ok: "thumb_state_ok n (orig_pos + 1) (tramp @ code) cb'"
        using st sz mi "1.prems"(1) by (auto simp: thumb_state_ok_def code_size_def)
      show ?thesis
      proof (cases "n \<le> orig_pos + 1")
        case True
        then show ?thesis using eq Inr ok mi "1.prems"(1) by (auto simp: thumb_state_ok_def thumb_done_def)
      next
        case more: False
        from "1.IH"(2) [OF m in_range narrow Inr more _ "1.prems"(2) ok]
        show ?thesis using eq Inr more mi by simp
      qed
    qed
  qed
qed

section \<open>Branch offsets\<close>

text \<open>
  An offset a branch can encode: sign extended from bit \<open>k\<close>, with its low \<open>a\<close> bits clear.
\<close>

definition short_off :: "nat \<Rightarrow> nat \<Rightarrow> u32 \<Rightarrow> bool" where
  "short_off k a off \<longleftrightarrow> signed_take_bit k off = off \<and> take_bit a off = 0"

lemma short_off_low: "short_off k a off \<Longrightarrow> n < a \<Longrightarrow> \<not> bit off n"
  by (metis bit_0_eq bit_take_bit_iff bot_apply bot_bool_def short_off_def)

lemma short_off_high: "short_off k a off \<Longrightarrow> k \<le> n \<Longrightarrow> n < 32 \<Longrightarrow> bit off n = bit off k"
  using bit_signed_take_bit_iff [of k off n] by (simp add: short_off_def min_def)

lemma sign_fill_off:
  assumes "short_off k a off" and "m = k \<or> m = Suc k" and "k < 31"
  shows "sign_fill m (bit off k) (take_bit (Suc k) off) = off"
proof (rule bit_word_eqI)
  fix n assume n: "n < LENGTH(32)"
  have f: "bit (push_bit m (0xFFFFFFFF :: u32)) n \<longleftrightarrow> m \<le> n"
    using n bit_mask_iff [where 'a = u32, of 32 "n - m"]
    by (auto simp: bit_push_bit_iff mask_numeral)
  show "bit (sign_fill m (bit off k) (take_bit (Suc k) off)) n \<longleftrightarrow> bit off n"
    using short_off_high [OF assms(1), of n] assms(2,3) n f
    by (cases "n < k") (auto simp: sign_fill_def bit_simps)
qed

text \<open>A run of \<open>k\<close> ones from bit \<open>lo\<close>, for the masks of the decoder.\<close>

definition ones :: "nat \<Rightarrow> nat \<Rightarrow> 'a::len word" where
  "ones lo k = push_bit lo (mask k)"

lemma bit_ones [simp]: "bit (ones lo k :: 'a::len word) n \<longleftrightarrow> lo \<le> n \<and> n < lo + k \<and> n < LENGTH('a)"
  by (auto simp: ones_def bit_simps)

lemma ones16:
  "(0xE000 :: u16) = ones 13 3" "(0x7FF :: u16) = ones 0 11" "(0xFF :: u16) = ones 0 8"
  "(0xF000 :: u16) = ones 12 4" "(0xF800 :: u16) = ones 11 5" "(0x3FF :: u16) = ones 0 10"
  "(0x7FE :: u16) = ones 1 10" "(0x3F :: u16) = ones 0 6" "(0x3C0 :: u16) = ones 6 4"
  "(0xFF00 :: u16) = ones 8 8" "(0xD000 :: u16) = ones 14 2 OR ones 12 1"
  "(0x9000 :: u16) = ones 15 1 OR ones 12 1" "(0x8000 :: u16) = ones 15 1"
  by (simp_all add: ones_def mask_numeral)

lemma ones32:
  "(0x7FF :: u32) = ones 0 11" "(0xFF :: u32) = ones 0 8" "(0x3FF :: u32) = ones 0 10"
  "(0x3F :: u32) = ones 0 6" "(0xFFFFFF :: u32) = ones 0 24" "(0xFE000000 :: u32) = ones 25 7"
  "(0xF000000 :: u32) = ones 24 4"
  "(0xB000000 :: u32) = ones 27 1 OR ones 24 2" "(0xA000000 :: u32) = ones 27 1 OR ones 25 1"
  "(0xF800D000 :: u32) = ones 27 5 OR ones 14 2 OR ones 12 1" "(0xF000D000 :: u32) = ones 28 4 OR ones 14 2 OR ones 12 1"
  "(0xFA000000 :: u32) = ones 27 5 OR ones 25 1" "(0xF0009000 :: u32) = ones 28 4 OR ones 15 1 OR ones 12 1"
  by (simp_all add: ones_def mask_numeral)

lemma top_bit:
  assumes "k < LENGTH('a)"
  shows "drop_bit k (take_bit (Suc k) x) = (of_bool (bit x k) :: 'a::len word)"
  by (rule bit_word_eqI) (use assms in \<open>auto simp: bit_simps\<close>)

lemma top_bit_set: "k < 32 \<Longrightarrow> drop_bit k (take_bit (Suc k) x) \<noteq> 0 \<longleftrightarrow> bit (x :: u32) k"
  by (simp add: top_bit del: take_bit_Suc)

lemma one_bit:
  "drop_bit 13 (w AND 0x2000) = (of_bool (bit w 13) :: u16)" "drop_bit 11 (w AND 0x800) = (of_bool (bit w 11) :: u16)"
  "drop_bit 10 (w AND 0x400) = (of_bool (bit w 10) :: u16)"
proof -
  have *: "drop_bit k (w AND ones k 1) = (of_bool (bit w k) :: u16)" for k
    by (rule bit_word_eqI) (auto simp: bit_simps dest: bit_imp_le_length)
  show "drop_bit 13 (w AND 0x2000) = (of_bool (bit w 13) :: u16)" "drop_bit 11 (w AND 0x800) = (of_bool (bit w 11) :: u16)"
    "drop_bit 10 (w AND 0x400) = (of_bool (bit w 10) :: u16)"
    using * [of 13] * [of 11] * [of 10] by (simp_all add: ones_def)
qed

lemma mask_differs: "bit (w AND m) n \<noteq> bit v n \<Longrightarrow> w AND m \<noteq> v"
  by auto

subsection \<open>Thumb\<close>

text \<open>The architecture's encodings of \<open>B\<close>, \<open>B<c>\<close>, \<open>BL\<close> and \<open>B.W\<close> for a given offset.\<close>

definition encode_b16 :: "u32 \<Rightarrow> u16" where
  "encode_b16 off = 0xE000 OR ucast (drop_bit 1 off AND 0x7FF)"

definition encode_t32 :: "u16 \<Rightarrow> u32 \<Rightarrow> u16 \<times> u16" where
  "encode_t32 op off =
     (0xF000 OR push_bit 10 (of_bool (bit off 24)) OR ucast (drop_bit 12 off AND 0x3FF),
      op OR push_bit 13 (of_bool (bit off 23 = bit off 24)) OR
        push_bit 11 (of_bool (bit off 22 = bit off 24)) OR ucast (drop_bit 1 off AND 0x7FF))"

lemma bit_encode_b16: "bit (encode_b16 off) n \<longleftrightarrow> n < 16 \<and> (13 \<le> n \<or> n < 11 \<and> bit off (n + 1))"
  by (auto simp: encode_b16_def ones16 ones32 bit_simps)

lemma bit_encode_t32_high: "bit (fst (encode_t32 op off)) n \<longleftrightarrow>
    n < 16 \<and> (12 \<le> n \<or> n = 10 \<and> bit off 24 \<or> n < 10 \<and> bit off (n + 12))"
  by (auto simp: encode_t32_def ones16 ones32 bit_simps add.commute)

lemma bit_encode_t32_low: "bit (snd (encode_t32 op off)) n \<longleftrightarrow>
    n < 16 \<and> (bit op n \<or> n = 13 \<and> bit off 23 = bit off 24 \<or> n = 11 \<and> bit off 22 = bit off 24 \<or>
      n < 11 \<and> bit off (n + 1))"
  by (auto simp: encode_t32_def ones32 bit_simps dest: bit_imp_le_length)

lemma b16_type: "getTypeInThumb16 (encode_b16 off) = B2_THUMB16"
proof -
  have "encode_b16 off AND 0xF800 = 0xE000"
    unfolding ones16 by (rule bit_word_eqI) (auto simp: bit_simps bit_encode_b16)
  moreover have "encode_b16 off AND 0xF000 \<noteq> 0xD000"
    by (rule mask_differs [of _ _ 12]) (simp add: bit_simps bit_encode_b16)
  ultimately show ?thesis by (simp add: getTypeInThumb16_def)
qed

lemma b16_field:
  assumes "short_off 11 1 off"
  shows "push_bit 1 (ucast (encode_b16 off AND 0x7FF)) = (take_bit (Suc 11) off :: u32)"
proof (rule bit_word_eqI)
  fix n assume "n < LENGTH(32)"
  then show "bit (push_bit 1 (ucast (encode_b16 off AND 0x7FF)) :: u32) n = bit (take_bit (Suc 11) off) n"
    using short_off_low [OF assms, of n] unfolding ones16
    by (cases n) (auto simp: bit_simps bit_encode_b16 simp del: push_bit_Suc)
qed

lemma relocate_b16:
  assumes "short_off 11 1 off"
  shows "relocateInstructionInThumb16 mem pc (encode_b16 off) =
    Inr ([0xF8DF, 0xF000] @ literal ((pc + off) OR 1))"
proof -
  have "sign_fill 11 (drop_bit 11 (take_bit (Suc 11) off) \<noteq> 0) (take_bit (Suc 11) off) = off"
    by (subst top_bit_set) (use sign_fill_off [OF assms, of 11] in simp_all)
  then show ?thesis
    by (simp only: relocateInstructionInThumb16_def b16_type thumb16_branch_def b16_field [OF assms] Let_def) simp
qed

definition op_bl :: u16 where "op_bl = 0xD000"
definition op_bw :: u16 where "op_bw = 0x9000"

lemma bit_ops:
  "bit op_bl n \<longleftrightarrow> n = 12 \<or> n = 14 \<or> n = 15" "bit op_bw n \<longleftrightarrow> n = 12 \<or> n = 15"
  by (auto simp: op_bl_def op_bw_def ones16 bit_simps)

lemma t32_fields:
  assumes "short_off 24 1 off" and "op = op_bl \<or> op = op_bw" and "(hi, lo) = encode_t32 op off"
  shows "push_bit 24 (of_bool (bit hi 10)) OR push_bit 23 (of_bool (bit lo 13 = bit hi 10)) OR
    push_bit 22 (of_bool (bit lo 11 = bit hi 10)) OR push_bit 12 (ucast (hi AND 0x3FF)) OR
    push_bit 1 (ucast (lo AND 0x7FF)) = (take_bit (Suc 24) off :: u32)" (is "?l = ?r")
proof (rule bit_word_eqI)
  have hi: "hi = fst (encode_t32 op off)" and lo: "lo = snd (encode_t32 op off)" using assms(3) by (cases "encode_t32 op off"; simp)+
  fix n assume "n < LENGTH(32)"
  then consider "n = 0" | "1 \<le> n" "n < 12" | "12 \<le> n" "n < 22" | "n = 22" | "n = 23" | "n = 24" | "24 < n" "n < 32" 
    by fastforce
  then show "bit ?l n = bit ?r n"
    using short_off_low [OF assms(1), of n] assms(2)
    unfolding hi lo ones16
    by cases (auto simp: bit_simps bit_encode_t32_high bit_encode_t32_low bit_ops simp del: push_bit_Suc)
qed

lemma one_bit_word:
  "(ucast (drop_bit 13 (w AND 0x2000)) :: u32) = of_bool (bit w 13)"
  "(ucast (drop_bit 11 (w AND 0x800)) :: u32) = of_bool (bit w 11)"
  "(ucast (drop_bit 10 (w AND 0x400)) :: u32) = of_bool (bit w 10)" for w :: u16
  by (simp_all only: one_bit) simp_all

lemma xor_of_bool: "(if of_bool p XOR of_bool q = (0 :: u32) then 1 else 0 :: u32) = of_bool (p = q)"
  by (cases p; cases q) simp_all

lemma wide_bit:
  "bit (push_bit 16 (ucast (hi :: u16)) OR ucast (lo :: u16) :: u32) n \<longleftrightarrow>
     (if n < 16 then bit lo n else bit hi (n - 16))"
  by (auto simp: bit_simps dest: bit_imp_le_length)

lemma t32_type:
  assumes "encode_t32 op off = (hi, lo)" and "op = op_bl \<or> op = op_bw"
  shows "getTypeInThumb32 (push_bit 16 (ucast hi) OR ucast lo) = (if op = op_bl then BL_THUMB32 else B2_THUMB32)"
proof -
  let ?i = "push_bit 16 (ucast hi) OR ucast lo :: u32"
  have "bit hi n \<longleftrightarrow> n < 16 \<and> (12 \<le> n \<or> n = 10 \<and> bit off 24 \<or> n < 10 \<and> bit off (n + 12))"
    and "bit lo n \<longleftrightarrow> n < 16 \<and> (bit op n \<or> n = 13 \<and> bit off 23 = bit off 24 \<or>
      n = 11 \<and> bit off 22 = bit off 24 \<or> n < 11 \<and> bit off (n + 1))" for n
    using bit_encode_t32_high [of op off n] bit_encode_t32_low [of op off n] assms(1) by simp_all
  note bits = bit_simps this bit_ops
  have ne: "?i AND 0xFFF0D000 \<noteq> 0xF3B08000"
    by (rule mask_differs [of _ _ 12]) (use assms(2) in \<open>auto simp: bits\<close>)
  have ne2: "?i AND 0xF800D000 \<noteq> 0xF000C000" "?i AND 0xF800D000 \<noteq> 0xF0008000"
    by (rule mask_differs [of _ _ 12]; use assms(2) in \<open>auto simp: bits\<close>)+
  have bl: "?i AND 0xF800D000 = 0xF000D000" if "op = op_bl"
    unfolding ones32 that using that
    by (intro bit_word_eqI) (auto simp: bits)
  have bw: "?i AND 0xF800D000 \<noteq> 0xF000D000" "?i AND 0xF800D000 = 0xF0009000" if "op = op_bw"
    subgoal by (rule mask_differs [of _ _ 14]) (use that in \<open>auto simp: bits\<close>)
    subgoal unfolding ones32 using that by (intro bit_word_eqI) (auto simp: bits)
    done
  show ?thesis using ne ne2 bl bw assms(2) by (auto simp: getTypeInThumb32_def)
qed

lemma thumb32_branch_long:
  assumes "type = BL_THUMB32 \<or> type = B2_THUMB32"
  shows "thumb32_branch type pc hi lo =
    (if type = BL_THUMB32 then [0xF20F, 0x0E09] else []) @ [0xF8DF, 0xF000] @
    literal (ALIGN_PC pc + sign_fill 25 (bit hi 10)
      (push_bit 24 (of_bool (bit hi 10)) OR push_bit 23 (of_bool (bit lo 13 = bit hi 10)) OR
       push_bit 22 (of_bool (bit lo 11 = bit hi 10)) OR push_bit 12 (ucast (hi AND 0x3FF)) OR
       push_bit 1 (ucast (lo AND 0x7FF))) + 1)"
  using assms unfolding thumb32_branch_def Let_def one_bit_word xor_of_bool
  by (auto simp del: push_bit_Suc)

lemma relocate_t32:
  assumes "short_off 24 1 off" and "encode_t32 op off = (hi, lo)" and "op = op_bl \<or> op = op_bw"
  shows "relocateInstructionInThumb32 mem pc hi lo =
    Inr ((if op = op_bl then [0xF20F, 0x0E09] else []) @ [0xF8DF, 0xF000] @ literal (ALIGN_PC pc + off + 1))"
proof -
  have "bit hi 10 = bit off 24"
    using bit_encode_t32_high [of op off 10] assms(2) by simp
  then have "sign_fill 25 (bit hi 10) (take_bit (Suc 24) off) = off"
    using sign_fill_off [OF assms(1), of 25] by simp
  then have "thumb32_branch (if op = op_bl then BL_THUMB32 else B2_THUMB32) pc hi lo =
    (if op = op_bl then [0xF20F, 0x0E09] else []) @ [0xF8DF, 0xF000] @ literal (ALIGN_PC pc + off + 1)"
    by (subst thumb32_branch_long)
      (auto simp only: t32_fields [OF assms(1,3) assms(2) [symmetric]] INSTRUCTION_TYPE.simps if_True if_False split: if_splits)
  then show ?thesis
    using t32_type [OF assms(2,3)] by (simp add: relocateInstructionInThumb32_def Let_def split: if_splits)
qed

subsection \<open>ARM\<close>

definition encode_arm_b :: "bool \<Rightarrow> u32 \<Rightarrow> u32 \<Rightarrow> u32" where
  "encode_arm_b link cond off =
     push_bit 28 cond OR (if link then 0xB000000 else 0xA000000) OR (drop_bit 2 off AND 0xFFFFFF)"

lemma bit_encode_arm_b: "bit (encode_arm_b link cond off) n \<longleftrightarrow> n < 32 \<and>
    (28 \<le> n \<and> bit cond (n - 28) \<or> n = 27 \<or> n = 25 \<or> n = 24 \<and> link \<or> n < 24 \<and> bit off (n + 2))"
  unfolding encode_arm_b_def ones32 by (auto simp: bit_simps add.commute)

lemma arm_b_type:
  assumes "take_bit 4 cond \<noteq> 0xF"
  shows "getTypeInArm (encode_arm_b link cond off) = (if link then BL_ARM else B_ARM)"
proof -
  let ?i = "encode_arm_b link cond off"
  have "\<exists>n<4. \<not> bit cond n"
  proof (rule ccontr)
    assume "\<not> ?thesis"
    then have "take_bit 4 cond = ones 0 4" by (intro bit_word_eqI) (auto simp: bit_simps)
    then show False using assms by (simp add: ones_def mask_numeral)
  qed
  then obtain k where k: "k < 4" "\<not> bit cond k" by blast
  have "?i AND 0xFE000000 \<noteq> 0xFA000000"
    by (rule mask_differs [of _ _ "k + 28"]) (use k in \<open>auto simp: ones32 bit_simps bit_encode_arm_b\<close>)
  moreover have "?i AND 0xF000000 = (if link then 0xB000000 else 0xA000000)"
    unfolding ones32 by (rule bit_word_eqI) (auto simp: bit_simps bit_encode_arm_b)
  ultimately show ?thesis by (cases link) (simp_all add: getTypeInArm_def)
qed

lemma relocate_arm_b:
  assumes "short_off 25 2 off" and "take_bit 4 cond \<noteq> 0xF"
  shows "relocateOneArm mem pc (encode_arm_b link cond off) =
    Inr ((if link then [0xE28FE004] else []) @ [0xE51FF004, pc + off])"
proof -
  have x: "push_bit 2 (encode_arm_b link cond off AND 0xFFFFFF) = take_bit (Suc 25) off"
  proof (rule bit_word_eqI)
    fix n assume "n < LENGTH(32)"
    moreover have "\<not> n < 2 \<Longrightarrow> Suc (Suc (n - 2)) = n" by simp
    ultimately show "bit (push_bit 2 (encode_arm_b link cond off AND 0xFFFFFF)) n = bit (take_bit (Suc 25) off) n"
      using short_off_low [OF assms(1), of n] unfolding ones32
      by (cases "n < 2") (auto simp: bit_simps bit_encode_arm_b simp del: push_bit_Suc)
  qed
  have "sign_fill 26 (drop_bit 25 (take_bit (Suc 25) off) \<noteq> 0) (take_bit (Suc 25) off) = off"
    by (subst top_bit_set) (use sign_fill_off [OF assms(1), of 26] in simp_all)
  then show ?thesis
    using x by (auto simp: relocateOneArm_def arm_b_type [OF assms(2)] arm_branch_def Let_def simp del: take_bit_Suc)
qed

section \<open>Properties of the relocation\<close>

text \<open>C11. Relocating the six half-words a Thumb hook copies always ends, with fewer than twenty
  boundaries in use already; the only fault is a PC-relative load from unmapped memory. The
  trampoline fits its page, its jump back is word aligned, as its PC-relative literal needs, and
  resumes after the fifth or the sixth half-word, never inside the (at most ten) bytes the hook
  overwrites.\<close>

theorem thumb_trampoline_shape:
  assumes "length orig = 6" and "fst cb + 6 \<le> 20"
  shows "case relocateInstructionInThumb mem target_addr orig 12 cb of
      Inl e \<Rightarrow> e = Wild_Access
    | Inr (tramp, cb') \<Rightarrow> \<exists>code off. tramp = code @ [0xF8DF, 0xF000] @ literal (target_addr + off + 1) \<and>
        (off = 10 \<or> off = 12) \<and> 4 dvd 2 * length code \<and> 2 * length tramp \<le> 4096 \<and> fst cb' \<le> 20"
proof -
  let ?r = "thumb_loop mem orig 6 0 (target_addr + 4) [] cb"
  have "thumb_done 6 (length (snd cb)) ?r"
    by (rule thumb_loop_ok) (use assms in \<open>auto simp: thumb_state_ok_def\<close>)
  then show ?thesis
  proof (cases ?r)
    case (Inl e)
    with \<open>thumb_done 6 (length (snd cb)) ?r\<close> show ?thesis
      by (simp add: relocateInstructionInThumb_def thumb_done_def)
  next
    case (Inr v)
    obtain fin code cb' where v: "v = (fin, code, cb')" by (metis prod_cases3)
    from \<open>thumb_done 6 (length (snd cb)) ?r\<close> have d: "fin = 6 \<or> fin = 5" "even (length code)"
      "length code \<le> 84" "fst cb' \<le> 20" by (auto simp: Inr v thumb_done_def)
    then have off: "(word_of_nat (fin * 2) :: u32) = 10 \<or> (word_of_nat (fin * 2) :: u32) = 12" by auto
    show ?thesis
      unfolding relocateInstructionInThumb_def
      using d off by (auto simp: Inr v intro!: exI [of _ code] exI [of _ "word_of_nat (fin * 2)"])
  qed
qed

definition sample_code :: "u16 list" where
  "sample_code = [0xB510, 0xE7FE, 0x4678, 0xF000, 0xF801, 0xBD10]"

theorem thumb_trampoline_shape_witness:
  "\<exists>tramp cb'. relocateInstructionInThumb (\<lambda>_. None) 0x8000 sample_code 12 (0, replicate 24 0) = Inr (tramp, cb') \<and>
     2 * length tramp \<le> 4096 \<and> fst cb' = 5"
proof -
  have "case relocateInstructionInThumb (\<lambda>_. None) 0x8000 sample_code 12 (0, replicate 24 0) of
      Inl e \<Rightarrow> False | Inr (tramp, cb') \<Rightarrow> fst cb' = 5"
    by code_simp
  then show ?thesis
    using thumb_trampoline_shape [where orig = sample_code and cb = "(0, replicate 24 0)"
      and mem = "\<lambda>_. None" and target_addr = "0x8000"]
    by (auto simp: sample_code_def split: sum.splits)
qed

text \<open>C12. A 16-bit unconditional branch is relocated to an absolute jump to its target: for every
  offset the encoding can hold, the trampoline loads \<open>pc + offset\<close> with the Thumb bit set.\<close>

theorem thumb16_branch_target:
  assumes "short_off 11 1 off"
  shows "relocateInstructionInThumb16 mem pc (encode_b16 off) =
    Inr ([0xF8DF, 0xF000] @ literal ((pc + off) OR 1))"
  by (rule relocate_b16 [OF assms])

theorem thumb16_branch_target_witness:
  "relocateInstructionInThumb16 (\<lambda>_. None) 0x8004 (encode_b16 (- 4)) = Inr ([0xF8DF, 0xF000] @ literal 0x8001)"
  using thumb16_branch_target [of "- 4" "\<lambda>_. None" "0x8004"] by (simp add: short_off_def)

text \<open>The long branches \<open>BL\<close> and \<open>B.W\<close>, with the offset scrambled over both half-words, are
  relocated to a jump to \<open>offset\<close> bytes from the word-aligned PC; \<open>BL\<close> sets the link register first.\<close>

theorem thumb32_branch_target:
  assumes "short_off 24 1 off" and "encode_t32 op off = (hi, lo)" and "op = op_bl \<or> op = op_bw"
  shows "relocateInstructionInThumb32 mem pc hi lo =
    Inr ((if op = op_bl then [0xF20F, 0x0E09] else []) @ [0xF8DF, 0xF000] @ literal (ALIGN_PC pc + off + 1))"
  by (rule relocate_t32 [OF assms])

theorem thumb32_branch_target_witness:
  "relocateInstructionInThumb32 (\<lambda>_. None) 0x8004 0xF7FF 0xFFFE =
     Inr ([0xF20F, 0x0E09, 0xF8DF, 0xF000] @ literal 0x8001)"
  using thumb32_branch_target [of "- 4" op_bl "0xF7FF" "0xFFFE" "\<lambda>_. None" "0x8004"]
  by (simp add: short_off_def encode_t32_def op_bl_def ALIGN_PC_def)

text \<open>In Thumb state \<open>BL\<close> and \<open>B.W\<close> branch relative to the PC itself. The relocation aligns the PC
  first, so for a branch at an address that is 2 modulo 4 the jump lands two bytes short of the
  target.\<close>

theorem thumb32_branch_short:
  assumes "short_off 24 1 off" and "encode_t32 op off = (hi, lo)" and "op = op_bl \<or> op = op_bw"
    and "take_bit 2 pc = 2"
  shows "relocateInstructionInThumb32 mem pc hi lo =
    Inr ((if op = op_bl then [0xF20F, 0x0E09] else []) @ [0xF8DF, 0xF000] @ literal ((pc + off + 1) - 2))"
proof -
  have "(0xFFFFFFFC :: u32) = ones 2 30" by (simp add: ones_def mask_numeral)
  then have "ALIGN_PC pc = pc AND ones 2 30" by (simp only: ALIGN_PC_def)
  then have "ALIGN_PC pc + take_bit 2 pc = pc"
    by (subst disjunctive_add) (auto simp: bit_simps intro!: bit_word_eqI)
  then have "ALIGN_PC pc + 2 = pc" using assms(4) by simp
  then have "ALIGN_PC pc + off + 1 = (pc + off + 1) - 2" by (auto simp: algebra_simps)
  then show ?thesis using relocate_t32 [OF assms(1-3), of mem pc] by (simp only:)
qed

theorem thumb32_branch_short_witness:
  "relocateInstructionInThumb32 (\<lambda>_. None) 0x8006 0xF7FF 0xFFFE =
     Inr ([0xF20F, 0x0E09, 0xF8DF, 0xF000] @ literal 0x8001)"
  using thumb32_branch_short [of "- 4" op_bl "0xF7FF" "0xFFFE" "0x8006" "\<lambda>_. None"]
  by (simp add: short_off_def encode_t32_def op_bl_def)

text \<open>C13. An ARM \<open>B\<close> or \<open>BL\<close> is relocated to an absolute jump to its target, for every offset; but
  the code emitted does not depend on the condition field, so a conditional branch becomes an
  unconditional one.\<close>

theorem arm_branch_target:
  assumes "short_off 25 2 off" and "take_bit 4 cond \<noteq> 0xF"
  shows "relocateOneArm mem pc (encode_arm_b link cond off) =
    Inr ((if link then [0xE28FE004] else []) @ [0xE51FF004, pc + off])"
  by (rule relocate_arm_b [OF assms])

theorem arm_branch_target_witness:
  "relocateOneArm (\<lambda>_. None) 0x8008 0x0AFFFFFE = Inr [0xE51FF004, 0x8000]"
  using arm_branch_target [of "- 8" 0 "\<lambda>_. None" "0x8008" False] by (simp add: short_off_def encode_arm_b_def)

text \<open>The relocated 16-bit \<open>ADR\<close> loads a wrong address for every PC outside the first word of
  memory: the shift by two applies to the sum of PC and immediate, not to the immediate.\<close>

theorem adr_thumb16_wrong:
  assumes "i AND 0xF800 = 0xA000" and "ALIGN_PC pc \<noteq> 0"
  shows "\<exists>v. relocateInstructionInThumb16 mem pc i =
      Inr ([0x4800 OR push_bit 8 (drop_bit 8 (i AND 0x700)), 0xE001] @ literal v) \<and>
    v \<noteq> ALIGN_PC pc + push_bit 2 (ucast (i AND 0xFF))"
proof -
  have "\<not> bit i 14" "\<not> bit i 12"
    using arg_cong [OF assms(1), of "\<lambda>w. bit w 14"] arg_cong [OF assms(1), of "\<lambda>w. bit w 12"]
    by (simp_all add: bit_simps)
  then have "i AND 0xF000 \<noteq> 0xD000" "i AND 0xFFF8 \<noteq> 0x4778" "i AND 0xFF78 \<noteq> 0x4478"
    "i AND 0xFF78 \<noteq> 0x4678"
    by (intro mask_differs [of _ _ 14]; simp add: bit_simps)+
  then have ty: "getTypeInThumb16 i = ADR_THUMB16" using assms(1) by (simp add: getTypeInThumb16_def)
  let ?a = "ALIGN_PC pc" and ?k = "ucast (i AND 0xFF) :: u32"
  have "push_bit 2 (?a + ?k) \<noteq> ?a + push_bit 2 ?k"
  proof
    assume "push_bit 2 (?a + ?k) = ?a + push_bit 2 ?k"
    then have "3 * ?a = 0" by (simp add: push_bit_eq_mult algebra_simps)
    moreover have "(0xAAAAAAAB * 3 :: u32) = 1" by simp
    ultimately have "?a = 0"
      using mult.assoc [of "0xAAAAAAAB" 3 ?a] by (simp only: mult_1_left mult_zero_right)
    with assms(2) show False by simp
  qed
  then show ?thesis
    by (intro exI [of _ "push_bit 2 (?a + ?k)"])
      (simp add: relocateInstructionInThumb16_def ty thumb16_value_def Let_def)
qed

theorem adr_thumb16_wrong_witness:
  "\<exists>v. relocateInstructionInThumb16 (\<lambda>_. None) 0x8004 0xA102 = Inr ([0x4900, 0xE001] @ literal v) \<and> v \<noteq> 0x800C"
  using adr_thumb16_wrong [of "0xA102" "0x8004" "\<lambda>_. None"] by (simp add: ALIGN_PC_def)

end
