(* ===== verification/Byte_Memory.thy ===== *)
theory Byte_Memory
  imports Raphael_Prelude
begin

text \<open>
  Byte-addressed process memory, for the components that patch code or parse binary data in
  place: reading and writing runs of bytes, and the little-endian encodings of 16-bit and
  32-bit integers.
\<close>

type_synonym 'a memory = "'a word \<Rightarrow> u8"

fun write_bytes :: "'a::len word \<Rightarrow> 'b list \<Rightarrow> ('a word \<Rightarrow> 'b) \<Rightarrow> ('a word \<Rightarrow> 'b)" where
  "write_bytes a [] m = m"
| "write_bytes a (b # bs) m = write_bytes (a + 1) bs (m(a := b))"

fun read_bytes :: "'a::len word \<Rightarrow> nat \<Rightarrow> ('a word \<Rightarrow> 'b) \<Rightarrow> 'b list" where
  "read_bytes a 0 m = []"
| "read_bytes a (Suc n) m = m a # read_bytes (a + 1) n m"

definition region :: "'a::len word \<Rightarrow> nat \<Rightarrow> 'a word set" where
  "region a n = (\<lambda>i. a + word_of_nat i) ` {..<n}"

lemma length_read_bytes [simp]: "length (read_bytes a n m) = n"
  by (induction n arbitrary: a) auto

lemma nth_read_bytes: "i < n \<Longrightarrow> read_bytes a n m ! i = m (a + word_of_nat i)"
proof (induction n arbitrary: a i)
  case (Suc n)
  then show ?case by (cases i) (auto simp: algebra_simps)
qed simp

lemma region_0 [simp]: "region a 0 = {}"
  by (simp add: region_def)

lemma region_Suc: "region a (Suc n) = insert a (region (a + 1) n)"
proof -
  have "{..<Suc n} = insert 0 (Suc ` {..<n})" by (rule lessThan_Suc_eq_insert_0)
  then show ?thesis by (simp add: region_def image_image algebra_simps)
qed

lemma region_mono: "k \<le> n \<Longrightarrow> region a k \<subseteq> region a n"
  by (auto simp: region_def)

lemma region_memI: "i < n \<Longrightarrow> a + word_of_nat i \<in> region a n"
  by (auto simp: region_def)

lemma region_memE:
  assumes "x \<in> region a n" obtains i where "i < n" "x = a + word_of_nat i"
  using assms by (auto simp: region_def)

lemma write_bytes_other: "x \<notin> region a (length bs) \<Longrightarrow> write_bytes a bs m x = m x"
  by (induction bs arbitrary: a m) (auto simp: region_Suc)

lemma region_fresh:
  fixes a :: "'a::len word"
  assumes "n < 2 ^ LENGTH('a)"
  shows "a \<notin> region (a + 1) n"
proof
  assume "a \<in> region (a + 1) n"
  then obtain i where i: "i < n" "a = a + 1 + word_of_nat i" by (rule region_memE)
  from i(2) have "a + 0 = a + (1 + word_of_nat i)" by (simp only: add_0_right add.assoc)
  then have "(0 :: 'a word) = 1 + word_of_nat i" by (simp only: add_left_cancel)
  then have "(0 :: 'a word) = word_of_nat (Suc i)" by simp
  then have "unat (word_of_nat (Suc i) :: 'a word) = 0" by (metis unat_0)
  moreover have "unat (word_of_nat (Suc i) :: 'a word) = Suc i"
    using i(1) assms by (simp add: unat_of_nat del: of_nat_Suc)
  ultimately show False by simp
qed

lemma write_bytes_at:
  fixes a :: "'a::len word"
  assumes "i < length bs" and "length bs \<le> 2 ^ LENGTH('a)"
  shows "write_bytes a bs m (a + word_of_nat i) = bs ! i"
  using assms
proof (induction bs arbitrary: a i m)
  case (Cons b bs)
  show ?case
  proof (cases i)
    case 0
    have "a \<notin> region (a + 1) (length bs)" by (rule region_fresh) (use Cons.prems(2) in simp)
    then show ?thesis using 0 by (simp add: write_bytes_other)
  next
    case (Suc j)
    have "write_bytes (a + 1) bs (m(a := b)) (a + 1 + word_of_nat j) = bs ! j"
      by (rule Cons.IH) (use Cons.prems Suc in auto)
    then show ?thesis using Suc by (simp add: algebra_simps)
  qed
qed simp

lemma read_write_bytes:
  fixes a :: "'a::len word"
  assumes "length bs \<le> 2 ^ LENGTH('a)"
  shows "read_bytes a (length bs) (write_bytes a bs m) = bs"
  by (rule nth_equalityI) (use assms in \<open>simp_all add: nth_read_bytes write_bytes_at\<close>)

lemma read_bytes_cong: "(\<And>x. x \<in> region a n \<Longrightarrow> m x = m' x) \<Longrightarrow> read_bytes a n m = read_bytes a n m'"
  by (rule nth_equalityI) (simp_all add: nth_read_bytes region_memI)

text \<open>Writing back what was read.\<close>

lemma restore_in:
  fixes a :: "'a::len word"
  assumes "x \<in> region a n" and "n \<le> 2 ^ LENGTH('a)"
  shows "write_bytes a (read_bytes a n m0) m x = m0 x"
proof -
  from assms(1) obtain i where "i < n" "x = a + word_of_nat i" by (rule region_memE)
  then show ?thesis using assms(2) write_bytes_at [of i "read_bytes a n m0" a m]
    by (simp add: nth_read_bytes)
qed

lemma restore_out: "x \<notin> region a n \<Longrightarrow> write_bytes a (read_bytes a n m0) m x = m x"
  by (simp add: write_bytes_other)

section \<open>Little-endian integers\<close>

definition le16 :: "u16 \<Rightarrow> u8 list" where
  "le16 w = [ucast w, ucast (drop_bit 8 w)]"

definition le32 :: "u32 \<Rightarrow> u8 list" where
  "le32 w = [ucast w, ucast (drop_bit 8 w), ucast (drop_bit 16 w), ucast (drop_bit 24 w)]"

definition get16 :: "'a::len word \<Rightarrow> 'a memory \<Rightarrow> u16" where
  "get16 a m = ucast (m a) OR push_bit 8 (ucast (m (a + 1)))"

definition get32 :: "'a::len word \<Rightarrow> 'a memory \<Rightarrow> u32" where
  "get32 a m = ucast (m a) OR push_bit 8 (ucast (m (a + 1))) OR push_bit 16 (ucast (m (a + 2))) OR
     push_bit 24 (ucast (m (a + 3)))"

lemma length_le [simp]: "length (le16 w) = 2" "length (le32 v) = 4"
  by (simp_all add: le16_def le32_def)

lemma join16: "ucast (ucast w :: u8) OR push_bit 8 (ucast (ucast (drop_bit 8 w) :: u8)) = (w :: u16)"
  by (rule bit_word_eqI) (auto simp: bit_simps)

lemma join32:
  "ucast (ucast w :: u8) OR push_bit 8 (ucast (ucast (drop_bit 8 w) :: u8)) OR
   push_bit 16 (ucast (ucast (drop_bit 16 w) :: u8)) OR push_bit 24 (ucast (ucast (drop_bit 24 w) :: u8)) =
   (w :: u32)"
proof (rule bit_word_eqI)
  fix n assume "n < LENGTH(32)"
  then consider "n < 8" | "8 \<le> n" "n < 16" | "16 \<le> n" "n < 24" | "24 \<le> n" "n < 32" by fastforce
  then show "bit (ucast (ucast w :: u8) OR push_bit 8 (ucast (ucast (drop_bit 8 w) :: u8)) OR
      push_bit 16 (ucast (ucast (drop_bit 16 w) :: u8)) OR
      push_bit 24 (ucast (ucast (drop_bit 24 w) :: u8)) :: u32) n = bit w n"
    by cases (auto simp: bit_simps)
qed

lemma get32_le32:
  assumes "read_bytes a 4 m = le32 w"
  shows "get32 a m = w"
proof -
  have "m a = ucast w" "m (a + 1) = ucast (drop_bit 8 w)" "m (a + 2) = ucast (drop_bit 16 w)"
    "m (a + 3) = ucast (drop_bit 24 w)"
    using assms by (simp_all add: eval_nat_numeral le32_def add.assoc)
  then show ?thesis by (simp add: get32_def join32)
qed

lemma get16_le16:
  assumes "read_bytes a 2 m = le16 w"
  shows "get16 a m = w"
proof -
  have "m a = ucast w" "m (a + 1) = ucast (drop_bit 8 w)"
    using assms by (simp_all add: eval_nat_numeral le16_def)
  then show ?thesis by (simp add: get16_def join16)
qed

text \<open>A run of bytes, in pieces that start at given offsets.\<close>

lemma read_bytes_append:
  "read_bytes a (m + n) f = read_bytes a m f @ read_bytes (a + word_of_nat m) n f"
  by (induction m arbitrary: a) (auto simp: algebra_simps)

lemma read_bytes_split:
  assumes "read_bytes a (length xs + length ys) f = xs @ ys"
  shows "read_bytes a (length xs) f = xs" and "read_bytes (a + word_of_nat (length xs)) (length ys) f = ys"
  using assms by (simp_all add: read_bytes_append)

section \<open>Words of any width\<close>

fun le_word :: "u8 list \<Rightarrow> 'a::len word" where
  "le_word [] = 0"
| "le_word (b # bs) = ucast b OR push_bit 8 (le_word bs)"

definition le64 :: "u64 \<Rightarrow> u8 list" where
  "le64 w = map (\<lambda>i. ucast (drop_bit (8 * i) w)) [0..<8]"

lemma bit_le_word:
  assumes "n < LENGTH('a::len)"
  shows "bit (le_word bs :: 'a word) n \<longleftrightarrow> n div 8 < length bs \<and> bit (bs ! (n div 8)) (n mod 8)"
  using assms
proof (induction bs arbitrary: n)
  case (Cons b bs)
  show ?case
  proof (cases "n < 8")
    case True
    then show ?thesis using Cons.prems by (auto simp: bit_simps)
  next
    case False
    then have "n div 8 = Suc ((n - 8) div 8)" "n mod 8 = (n - 8) mod 8"
      by (simp_all add: div_if mod_if)
    then show ?thesis using Cons.IH [of "n - 8"] Cons.prems False
      by (auto simp: bit_simps dest: bit_imp_le_length)
  qed
qed simp

lemma le_word_le64 [simp]: "le_word (le64 w) = w"
proof (rule bit_word_eqI)
  fix n assume n: "n < LENGTH(64)"
  then have "n div 8 < 8" by simp
  moreover have "8 * (n div 8) + n mod 8 = n" by simp
  ultimately show "bit (le_word (le64 w) :: u64) n = bit w n"
    using n by (auto simp: bit_le_word le64_def bit_simps)
qed

lemma length_le64 [simp]: "length (le64 w) = 8"
  by (simp add: le64_def)

end
