(* ===== verification/C_Text.thy ===== *)
theory C_Text
  imports Raphael_Prelude
begin

text \<open>
  Text as the C library handles it, for the components that read \<open>/proc\<close> files: digits and
  numbers, \<open>fgets\<close> into a buffer, \<open>strstr\<close>, the conversions of \<open>sscanf\<close> that the sources use; and
  the printed form of a number, with the proof that reading it back gives the number.
\<close>

section \<open>Digits\<close>

definition hex_digit :: "char \<Rightarrow> nat option" where
  "hex_digit c =
     (let n = of_char c :: nat in
      if 48 \<le> n \<and> n \<le> 57 then Some (n - 48)
      else if 97 \<le> n \<and> n \<le> 102 then Some (n - 87)
      else if 65 \<le> n \<and> n \<le> 70 then Some (n - 55)
      else None)"

definition dec_digit :: "char \<Rightarrow> nat option" where
  "dec_digit c = (let n = of_char c :: nat in if 48 \<le> n \<and> n \<le> 57 then Some (n - 48) else None)"

fun digits_value :: "(char \<Rightarrow> nat option) \<Rightarrow> nat \<Rightarrow> nat \<Rightarrow> string \<Rightarrow> nat" where
  "digits_value dig base acc [] = acc"
| "digits_value dig base acc (c # cs) =
     (case dig c of None \<Rightarrow> acc | Some d \<Rightarrow> digits_value dig base (acc * base + d) cs)"

definition isspace :: "char \<Rightarrow> bool" where
  "isspace c \<longleftrightarrow> c \<in> {CHR '' '', CHR 0x09, CHR 0x0A, CHR 0x0B, CHR 0x0C, CHR 0x0D}"

section \<open>Lines\<close>

definition text_of :: "string list \<Rightarrow> string" where
  "text_of ls = concat (map (\<lambda>l. l @ [CHR 0x0A]) ls)"

text \<open>\<open>fgets\<close> with a buffer of \<open>n\<close>: up to \<open>n - 1\<close> characters, through the first line feed.\<close>

fun fgets :: "nat \<Rightarrow> string \<Rightarrow> string \<times> string" where
  "fgets 0 s = ([], s)"
| "fgets (Suc 0) s = ([], s)"
| "fgets (Suc n) [] = ([], [])"
| "fgets (Suc n) (c # s) =
     (if c = CHR 0x0A then ([c], s) else let (l, r) = fgets n s in (c # l, r))"

lemma fgets_length: "length (snd (fgets n s)) \<le> length s"
  by (induction n s rule: fgets.induct) (auto simp: Let_def split: prod.splits)

lemma fgets_progress: "1 < n \<Longrightarrow> s \<noteq> [] \<Longrightarrow> length (snd (fgets n s)) < length s"
proof (induction n s rule: fgets.induct)
  case (4 n c s)
  then show ?case using fgets_length [of "Suc n" s] by (auto simp: Let_def less_Suc_eq_le split: prod.splits)
qed auto

function fgets_lines :: "nat \<Rightarrow> string \<Rightarrow> string list" where
  "fgets_lines n s = (if s = [] \<or> n \<le> 1 then [] else let (l, r) = fgets n s in l # fgets_lines n r)"
  by auto
termination
proof (relation "measure (length \<circ> snd)")
  fix n s x l r assume *: "\<not> (s = [] \<or> n \<le> (1::nat))" and "x = fgets n s" and "(l, r) = x"
  then have "r = snd (fgets n s)" by (metis snd_conv)
  with * show "((n, r), (n, s)) \<in> measure (length \<circ> snd)" using fgets_progress [of n s] by simp
qed simp

lemma fgets_line: "CHR 0x0A \<notin> set l \<Longrightarrow> length l + 2 \<le> n \<Longrightarrow> fgets n (l @ CHR 0x0A # s) = (l @ [CHR 0x0A], s)"
proof (induction l arbitrary: n)
  case Nil
  then obtain k where "n = Suc (Suc k)" by (metis add_2_eq_Suc add.commute le_Suc_ex list.size(3) add_0)
  then show ?case by simp
next
  case (Cons c l)
  then obtain k where n: "n = Suc (Suc k)" by (metis add_2_eq_Suc' le_Suc_ex add_Suc)
  with Cons have "fgets (Suc k) (l @ CHR 0x0A # s) = (l @ [CHR 0x0A], s)" by (intro Cons.IH) auto
  moreover have "c \<noteq> CHR 0x0A" using Cons.prems by auto
  ultimately show ?case using n by simp
qed

declare fgets_lines.simps [simp del]

lemma fgets_lines_text:
  assumes "\<forall>l\<in>set ls. CHR 0x0A \<notin> set l \<and> length l + 2 \<le> n"
  shows "fgets_lines n (text_of ls) = map (\<lambda>l. l @ [CHR 0x0A]) ls"
  using assms
proof (induction ls)
  case Nil
  then show ?case by (simp add: text_of_def fgets_lines.simps)
next
  case (Cons l ls)
  have *: "text_of (l # ls) = l @ CHR 0x0A # text_of ls" by (simp add: text_of_def)
  from Cons.prems have "fgets n (text_of (l # ls)) = (l @ [CHR 0x0A], text_of ls)"
    unfolding * by (intro fgets_line) auto
  moreover have "text_of (l # ls) \<noteq> []" "\<not> n \<le> 1" using * Cons.prems by auto
  ultimately show ?case using Cons by (subst fgets_lines.simps) simp
qed

fun strstr :: "string \<Rightarrow> string \<Rightarrow> bool" where
  "strstr [] pat \<longleftrightarrow> pat = []"
| "strstr (c # s) pat \<longleftrightarrow> take (length pat) (c # s) = pat \<or> strstr s pat"

lemma strstr_iff: "strstr s pat \<longleftrightarrow> (\<exists>us vs. s = us @ pat @ vs)"
proof (induction s)
  case (Cons c s)
  show ?case
  proof
    assume "strstr (c # s) pat"
    then consider "take (length pat) (c # s) = pat" | "strstr s pat" by auto
    then show "\<exists>us vs. c # s = us @ pat @ vs"
    proof cases
      case 1
      then show ?thesis by (metis append_Nil append_take_drop_id)
    next
      case 2
      then obtain us vs where "s = us @ pat @ vs" using Cons.IH by blast
      then show ?thesis by (metis append_Cons)
    qed
  next
    assume "\<exists>us vs. c # s = us @ pat @ vs"
    then obtain us vs where "c # s = us @ pat @ vs" by blast
    then show "strstr (c # s) pat"
    proof (cases us)
      case Nil
      then have "c # s = pat @ vs" using \<open>c # s = us @ pat @ vs\<close> by simp
      then have "take (length pat) (c # s) = pat" by (simp only:) simp
      then show ?thesis by (simp only: strstr.simps) blast
    next
      case (Cons u us')
      then have "s = us' @ pat @ vs" using \<open>c # s = us @ pat @ vs\<close> by simp
      then have "strstr s pat" using \<open>strstr s pat \<longleftrightarrow> _\<close> by blast
      then show ?thesis by simp
    qed
  qed
qed auto

section \<open>Numbers in print\<close>

definition hex_char :: "nat \<Rightarrow> char" where
  "hex_char d = char_of (if d < 10 then 48 + d else 87 + d)"

definition hex_text :: "nat \<Rightarrow> nat \<Rightarrow> string" where
  "hex_text k x = map (\<lambda>i. hex_char (x div 16 ^ i mod 16)) (rev [0..<k])"

lemma hex_digit_char: "d < 16 \<Longrightarrow> hex_digit (hex_char d) = Some d"
  by (auto simp: hex_digit_def hex_char_def of_char_of split: if_splits)

lemma hex_char_table: "map hex_char [0,1,2,3,4,5,6,7,8,9,10,11,12,13,14,15] = ''0123456789abcdef''"
  by code_simp

lemma hex_char_nth:
  assumes "d < 16" shows "hex_char d = ''0123456789abcdef'' ! d"
proof -
  have "hex_char d = map hex_char [0,1,2,3,4,5,6,7,8,9,10,11,12,13,14,15] ! d"
    using assms by (simp add: less_Suc_eq numeral_eq_Suc) auto
  then show ?thesis by (simp only: hex_char_table)
qed

lemma length_hex_text [simp]: "length (hex_text k x) = k"
  by (simp add: hex_text_def)

lemma fold_digits:
  "foldl (\<lambda>a d. a * 16 + d) (x div 16 ^ k) (map (\<lambda>i. x div 16 ^ i mod 16) (rev [0..<k])) = (x :: nat)"
proof (induction k)
  case (Suc k)
  have "x div 16 ^ Suc k * 16 + x div 16 ^ k mod 16 = x div 16 ^ k"
    by (simp only: power_Suc2 div_mult2_eq) (rule div_mult_mod_eq)
  then show ?case using Suc by simp
qed simp

lemma digits_value_map:
  assumes "\<forall>d\<in>set ds. d < 16"
  shows "digits_value hex_digit 16 acc (map hex_char ds @ s) =
    digits_value hex_digit 16 (foldl (\<lambda>a d. a * 16 + d) acc ds) s"
  using assms by (induction ds arbitrary: acc) (simp_all add: hex_digit_char)

lemma hex_text_value:
  assumes "x < 16 ^ k"
  shows "digits_value hex_digit 16 0 (hex_text k x) = x"
proof -
  have "hex_text k x = map hex_char (map (\<lambda>i. x div 16 ^ i mod 16) (rev [0..<k])) @ []"
    by (simp add: hex_text_def comp_def)
  then have "digits_value hex_digit 16 0 (hex_text k x) =
    foldl (\<lambda>a d. a * 16 + d) 0 (map (\<lambda>i. x div 16 ^ i mod 16) (rev [0..<k]))"
    by (simp only: digits_value_map) (subst digits_value_map, auto)
  then show ?thesis using fold_digits [of x k] assms by simp
qed

section \<open>Reading a number\<close>

text \<open>
  \<open>strtoul\<close> of the 32-bit C library: white space, a sign, for base 16 a prefix \<open>0x\<close> that a digit follows, and
  digits while they last; the greatest number when they overflow.
\<close>

definition strtoul :: "(char \<Rightarrow> nat option) \<Rightarrow> nat \<Rightarrow> string \<Rightarrow> u32" where
  "strtoul dig base s =
     (let s1 = dropWhile isspace s;
          s2 = (if take 1 s1 = ''-'' \<or> take 1 s1 = ''+'' then drop 1 s1 else s1);
          s3 = (if base = 16 \<and> (take 2 s2 = ''0x'' \<or> take 2 s2 = ''0X'') \<and>
                  (case drop 2 s2 of [] \<Rightarrow> False | c # r \<Rightarrow> dig c \<noteq> None) then drop 2 s2 else s2);
          n = digits_value dig base 0 s3
      in if 2 ^ 32 \<le> n then - 1 else if take 1 s1 = ''-'' then - word_of_nat n else word_of_nat n)"

lemma digit_not_special:
  "hex_digit c \<noteq> None \<Longrightarrow> \<not> isspace c \<and> c \<noteq> CHR ''-'' \<and> c \<noteq> CHR ''+'' \<and> c \<noteq> CHR ''x'' \<and> c \<noteq> CHR ''X''"
  "dec_digit c \<noteq> None \<Longrightarrow> \<not> isspace c \<and> c \<noteq> CHR ''-'' \<and> c \<noteq> CHR ''+''"
  by (auto simp: isspace_def hex_digit_def dec_digit_def)

text \<open>A number without decoration, and one with the prefix.\<close>

lemma strtoul_hex:
  assumes "hex_digit c \<noteq> None" and "hex_digit d \<noteq> None" and "digits_value hex_digit 16 0 (c # d # r) = unat v"
  shows "strtoul hex_digit 16 (c # d # r) = v" and "strtoul hex_digit 16 (''0x'' @ c # d # r) = v"
proof -
  have n: "unat v < 2 ^ 32" using unsigned_less [of v] by simp
  have z: "\<not> isspace (CHR ''0'')" by (simp add: isspace_def)
  show "strtoul hex_digit 16 (c # d # r) = v" using assms n digit_not_special(1) by (simp add: strtoul_def del: digits_value.simps)
  show "strtoul hex_digit 16 (''0x'' @ c # d # r) = v" using assms n z by (simp add: strtoul_def del: digits_value.simps)
qed

lemma strtoul_dec:
  assumes "s \<noteq> []" and "dec_digit (hd s) \<noteq> None" and "digits_value dec_digit 10 0 s = unat v"
  shows "strtoul dec_digit 10 s = v"
proof -
  have n: "unat v < 2 ^ 32" using unsigned_less [of v] by simp
  show ?thesis using assms n digit_not_special(2) by (cases s) (simp_all add: strtoul_def del: digits_value.simps)
qed

end
