(* ===== verification/Inline_Hook32.thy ===== *)
theory Inline_Hook32
  imports Relocate32 Byte_Memory C_Text
begin

text \<open>
  The inline hooks of the 32-bit build (\<open>inline32/inlineHook.c\<close>): the registry of hook items and
  the operations that copy, patch and restore code in process memory. The permissions of pages and
  the success of \<open>malloc\<close> and \<open>mprotect\<close> are not part of the model; \<open>mmap\<close> returns the page given
  as an argument, filled with zeros. The addresses that \<open>munmap\<close> takes away are recorded, and so are the
  ranges passed to \<open>cacheflush\<close>. A copy of code belongs to its item; freed, it is empty.
\<close>

section \<open>Data\<close>

datatype ele7en_status =
    ELE7EN_ERROR_UNKNOWN
  | ELE7EN_OK
  | ELE7EN_ERROR_NOT_INITIALIZED
  | ELE7EN_ERROR_NOT_EXECUTABLE
  | ELE7EN_ERROR_NOT_REGISTERED
  | ELE7EN_ERROR_NOT_HOOKED
  | ELE7EN_ERROR_ALREADY_REGISTERED
  | ELE7EN_ERROR_ALREADY_HOOKED
  | ELE7EN_ERROR_SO_NOT_FOUND
  | ELE7EN_ERROR_FUNCTION_NOT_FOUND

datatype hook_status = REGISTERED | HOOKED

record inlineHookItem =
  target_addr :: u32
  new_addr :: u32
  proto_addr :: u32
  orig_instructions :: "u8 list"
  boundaries :: "nat list"
  hcount :: nat
  trampoline_instructions :: u32
  hlength :: nat
  hstatus :: hook_status

text \<open>The registry, the memory of the process, the addresses unmapped from it and the ranges flushed from the
  instruction cache.\<close>

record hooks =
  item :: "nat \<Rightarrow> inlineHookItem"
  isize :: nat
  hmem :: "32 memory"
  unmapped :: "u32 set"
  flushed :: "(u32 \<times> u32) list"

definition CLEAR_BIT0 :: "u32 \<Rightarrow> u32" where "CLEAR_BIT0 addr = addr AND 0xFFFFFFFE"
definition PAGE_SIZE32 :: nat where "PAGE_SIZE32 = 4096"
definition SET_BIT0 :: "u32 \<Rightarrow> u32" where "SET_BIT0 addr = addr OR 1"
definition TEST_BIT0 :: "u32 \<Rightarrow> bool" where "TEST_BIT0 addr \<longleftrightarrow> addr AND 1 \<noteq> 0"

section \<open>Relocating a copied function head\<close>

fun half_words :: "u8 list \<Rightarrow> u16 list" where
  "half_words (b0 # b1 # bs) = (ucast b0 OR push_bit 8 (ucast b1)) # half_words bs"
| "half_words _ = []"

fun full_words :: "u8 list \<Rightarrow> u32 list" where
  "full_words (b0 # b1 # b2 # b3 # bs) =
     (ucast b0 OR push_bit 8 (ucast b1) OR push_bit 16 (ucast b2) OR push_bit 24 (ucast b3)) # full_words bs"
| "full_words _ = []"

definition relocateInstruction :: "32 memory \<Rightarrow> u32 \<Rightarrow> u8 list \<Rightarrow> nat \<Rightarrow> nat \<times> nat list \<Rightarrow>
    (u8 list \<times> nat \<times> nat list) res" where
  "relocateInstruction m target orig len cb =
     (let rd = (\<lambda>a. Some (get32 a m)) in
      if target AND 1 \<noteq> 0
      then res_bind (relocateInstructionInThumb rd (target - 1) (half_words orig) len cb)
             (\<lambda>(code, cb'). Inr (concat (map le16 code), cb'))
      else res_bind (relocateInstructionInArm rd target (full_words orig) len cb)
             (\<lambda>(code, cb'). Inr (concat (map le32 code), cb')))"

section \<open>The registry\<close>

text \<open>
  The text of \<open>/proc/self/maps\<close>, \<open>None\<close> when it cannot be opened. \<open>strtok\<close> with one delimiter gives a
  token and the rest behind the delimiter, or null.
\<close>

type_synonym maps = "string option"

definition strtok :: "char \<Rightarrow> string \<Rightarrow> (string \<times> string) option" where
  "strtok d s =
     (let s' = dropWhile (\<lambda>c. c = d) s
      in if s' = [] then None else Some (takeWhile (\<lambda>c. c \<noteq> d) s', drop 1 (dropWhile (\<lambda>c. c \<noteq> d) s')))"

fun executable_in :: "u32 \<Rightarrow> string list \<Rightarrow> bool res" where
  "executable_in addr [] = Inr False"
| "executable_in addr (line # lines) =
     (if strstr line ''r-xp'' \<or> strstr line ''rwxp'' then
        (case strtok (CHR ''-'') line of
           None \<Rightarrow> Inl Null_Deref
         | Some (t1, rest) \<Rightarrow>
             (case strtok (CHR '' '') rest of
                None \<Rightarrow> Inl Null_Deref
              | Some (t2, rest') \<Rightarrow>
                  if strtoul hex_digit 16 t1 \<le> addr \<and> addr \<le> strtoul hex_digit 16 t2 then Inr True else executable_in addr lines))
      else executable_in addr lines)"

definition isExecutableAddr :: "maps \<Rightarrow> u32 \<Rightarrow> bool res" where
  "isExecutableAddr ms addr =
     (case ms of None \<Rightarrow> Inr False | Some text \<Rightarrow> executable_in addr (fgets_lines 1024 text))"

definition findInlineHookItem :: "u32 \<Rightarrow> hooks \<Rightarrow> nat option" where
  "findInlineHookItem t s = List.find (\<lambda>i. target_addr (item s i) = t) [0..<isize s]"

definition addInlineHookItem :: "hooks \<Rightarrow> (nat \<times> hooks) option" where
  "addInlineHookItem s = (if 1024 \<le> isize s then None else Some (isize s, s\<lparr>isize := isize s + 1\<rparr>))"

definition deleteInlineHookItem :: "nat \<Rightarrow> hooks \<Rightarrow> hooks" where
  "deleteInlineHookItem pos s =
     s\<lparr>item := (item s)(pos := item s (isize s - 1)), isize := isize s - 1\<rparr>"

text \<open>What registration does with two executable addresses.\<close>

definition registered :: "u32 \<Rightarrow> u32 \<Rightarrow> u32 \<Rightarrow> u32 \<Rightarrow> hooks \<Rightarrow> (ele7en_status \<times> hooks) res" where
  "registered page t new proto s =
     (case findInlineHookItem t s of
        Some i \<Rightarrow> Inr (case hstatus (item s i) of
            REGISTERED \<Rightarrow> ELE7EN_ERROR_ALREADY_REGISTERED
          | HOOKED \<Rightarrow> ELE7EN_ERROR_ALREADY_HOOKED, s)
      | None \<Rightarrow> (case addInlineHookItem s of
          None \<Rightarrow> Inl Null_Deref
        | Some (i, s1) \<Rightarrow>
            let len = (if TEST_BIT0 t then 12 else 8);
                orig = read_bytes (CLEAR_BIT0 t) len (hmem s1);
                old = item s1 i;
                m = write_bytes page (replicate PAGE_SIZE32 0) (hmem s1)
            in res_bind (relocateInstruction m t orig len (hcount old, boundaries old))
                 (\<lambda>(code, count, bounds).
                   let it = old\<lparr>target_addr := t, new_addr := new, proto_addr := proto,
                              orig_instructions := orig, boundaries := bounds, hcount := count,
                              trampoline_instructions := page, hlength := len, hstatus := REGISTERED\<rparr>
                   in Inr (ELE7EN_OK, s1\<lparr>item := (item s1)(i := it), hmem := write_bytes page code m,
                        unmapped := unmapped s1 - region page PAGE_SIZE32\<rparr>))))"

definition registerInlineHook ::
    "maps \<Rightarrow> u32 \<Rightarrow> u32 \<Rightarrow> u32 \<Rightarrow> u32 \<Rightarrow> hooks \<Rightarrow> (ele7en_status \<times> hooks) res" where
  "registerInlineHook ms page t new proto s =
     res_bind (res_bind (isExecutableAddr ms t) (\<lambda>x. if x then isExecutableAddr ms new else Inr False)) (\<lambda>executable.
       if \<not> executable then Inr (ELE7EN_ERROR_NOT_EXECUTABLE, s) else registered page t new proto s)"

lemma register_executable:
  "isExecutableAddr ms t = Inr True \<Longrightarrow> isExecutableAddr ms new = Inr True \<Longrightarrow>
    registerInlineHook ms page t new proto s = registered page t new proto s"
  by (simp add: registerInlineHook_def)

section \<open>Hooking and unhooking\<close>

definition flush_range :: "inlineHookItem \<Rightarrow> u32 \<times> u32" where
  "flush_range it = (CLEAR_BIT0 (target_addr it), CLEAR_BIT0 (target_addr it) + word_of_nat (hlength it))"

definition doInlineUnHook :: "nat \<Rightarrow> hooks \<Rightarrow> hooks" where
  "doInlineUnHook pos s =
     (let it = item s pos;
          s1 = s\<lparr>hmem := write_bytes (CLEAR_BIT0 (target_addr it)) (take (hlength it) (orig_instructions it)) (hmem s),
                 unmapped := unmapped s \<union> region (trampoline_instructions it) PAGE_SIZE32,
                 item := (item s)(pos := it\<lparr>orig_instructions := []\<rparr>)\<rparr>;
          s2 = deleteInlineHookItem pos s1
      in s2\<lparr>flushed := flush_range (item s2 pos) # flushed s2\<rparr>)"

definition inlineUnHook :: "u32 \<Rightarrow> hooks \<Rightarrow> ele7en_status \<times> hooks" where
  "inlineUnHook t s =
     (case List.find (\<lambda>i. target_addr (item s i) = t \<and> hstatus (item s i) = HOOKED) [0..<isize s] of
        Some i \<Rightarrow> (ELE7EN_OK, doInlineUnHook i s)
      | None \<Rightarrow> (ELE7EN_ERROR_NOT_HOOKED, s))"

lemma isize_doInlineUnHook [simp]: "isize (doInlineUnHook pos s) = isize s - 1"
  by (simp add: doInlineUnHook_def deleteInlineHookItem_def Let_def)

function unhook_loop :: "nat \<Rightarrow> hooks \<Rightarrow> hooks" where
  "unhook_loop i s =
     (if i < isize s
      then if hstatus (item s i) = HOOKED then unhook_loop i (doInlineUnHook i s)
           else unhook_loop (i + 1) s
      else s)"
  by pat_completeness auto

termination
  by (relation "measure (\<lambda>(i, s). isize s - i)") auto

declare unhook_loop.simps [simp del]

definition inlineUnHookAll :: "hooks \<Rightarrow> hooks" where
  "inlineUnHookAll s = unhook_loop 0 s"

text \<open>The words written over the head of the function.\<close>

definition patch :: "inlineHookItem \<Rightarrow> u8 list" where
  "patch it =
     (if TEST_BIT0 (target_addr it)
      then concat (map le16
             ((if CLEAR_BIT0 (target_addr it) mod 4 \<noteq> 0 then [0xBF00] else []) @
              [0xF8DF, 0xF000] @ literal (new_addr it)))
      else le32 0xE51FF004 @ le32 (new_addr it))"

definition doInlineHook :: "nat \<Rightarrow> hooks \<Rightarrow> hooks" where
  "doInlineHook pos s =
     (let it = item s pos;
          entry = (if TEST_BIT0 (target_addr it) then SET_BIT0 (trampoline_instructions it)
                   else trampoline_instructions it);
          m1 = (if proto_addr it \<noteq> 0 then write_bytes (proto_addr it) (le32 entry) (hmem s) else hmem s);
          m2 = write_bytes (CLEAR_BIT0 (target_addr it)) (patch it) m1
      in s\<lparr>hmem := m2, item := (item s)(pos := it\<lparr>hstatus := HOOKED\<rparr>),
           flushed := flush_range it # flushed s\<rparr>)"

definition inlineHook :: "u32 \<Rightarrow> hooks \<Rightarrow> ele7en_status \<times> hooks" where
  "inlineHook t s =
     (case findInlineHookItem t s of
        None \<Rightarrow> (ELE7EN_ERROR_NOT_REGISTERED, s)
      | Some i \<Rightarrow> (case hstatus (item s i) of
            REGISTERED \<Rightarrow> (ELE7EN_OK, doInlineHook i s)
          | HOOKED \<Rightarrow> (ELE7EN_ERROR_ALREADY_HOOKED, s)))"

fun hook_loop :: "nat list \<Rightarrow> hooks \<Rightarrow> hooks" where
  "hook_loop [] s = s"
| "hook_loop (i # is) s =
     hook_loop is (if hstatus (item s i) = REGISTERED then doInlineHook i s else s)"

definition inlineHookAll :: "hooks \<Rightarrow> hooks" where
  "inlineHookAll s = hook_loop [0..<isize s] s"

section \<open>Threads caught inside a hook\<close>

datatype action = ACTION_ENABLE | ACTION_DISABLE

definition find_boundary :: "nat list \<Rightarrow> nat \<Rightarrow> nat \<Rightarrow> u32 \<Rightarrow> nat option" where
  "find_boundary bounds base n off = List.find (\<lambda>i. off = word_of_nat (bounds ! (base + i))) [0..<n]"

text \<open>The new program counter of a stopped thread; \<open>None\<close> when it is left alone.\<close>

definition doProcessThreadPC :: "inlineHookItem \<Rightarrow> u32 \<Rightarrow> action \<Rightarrow> u32 option" where
  "doProcessThreadPC it pc act = (case act of
     ACTION_ENABLE \<Rightarrow>
       map_option (\<lambda>i. trampoline_instructions it + word_of_nat (boundaries it ! (4 + i)))
         (find_boundary (boundaries it) 0 (hcount it) (pc - CLEAR_BIT0 (target_addr it)))
   | ACTION_DISABLE \<Rightarrow>
       map_option (\<lambda>i. CLEAR_BIT0 (target_addr it) + word_of_nat (boundaries it ! i))
         (find_boundary (boundaries it) 4 (hcount it) (pc - trampoline_instructions it)))"

fun first_hit :: "(nat \<Rightarrow> u32 option) \<Rightarrow> nat list \<Rightarrow> u32 option" where
  "first_hit f [] = None"
| "first_hit f (i # is) = (case f i of Some pc \<Rightarrow> Some pc | None \<Rightarrow> first_hit f is)"

text \<open>What is written back to the thread whose registers were read: for one item, or the first of all that matches.\<close>

definition processThreadPC :: "nat option \<Rightarrow> action \<Rightarrow> u32 \<Rightarrow> hooks \<Rightarrow> u32" where
  "processThreadPC pos act pc s =
     (case pos of
        None \<Rightarrow> (case first_hit (\<lambda>i. doProcessThreadPC (item s i) pc act) [0..<isize s] of
                   Some pc' \<Rightarrow> pc' | None \<Rightarrow> pc)
      | Some i \<Rightarrow> (case doProcessThreadPC (item s i) pc act of Some pc' \<Rightarrow> pc' | None \<Rightarrow> pc))"

section \<open>The registry invariant\<close>

definition item_ok :: "inlineHookItem \<Rightarrow> bool" where
  "item_ok it \<longleftrightarrow> hlength it = (if TEST_BIT0 (target_addr it) then 12 else 8) \<and>
     length (orig_instructions it) = hlength it"

definition registry_ok :: "hooks \<Rightarrow> bool" where
  "registry_ok s \<longleftrightarrow> isize s \<le> 1024 \<and> (\<forall>i<isize s. item_ok (item s i)) \<and>
     inj_on (\<lambda>i. target_addr (item s i)) {..<isize s}"

lemma find_item_Some: "findInlineHookItem t s = Some i \<Longrightarrow> i < isize s \<and> target_addr (item s i) = t"
  by (auto simp: findInlineHookItem_def find_Some_iff)

lemma find_item_None: "findInlineHookItem t s = None \<longleftrightarrow> (\<forall>i<isize s. target_addr (item s i) \<noteq> t)"
  by (auto simp: findInlineHookItem_def find_None_iff)

lemma registry_ok_find:
  assumes "registry_ok s" and "i < isize s"
  shows "findInlineHookItem (target_addr (item s i)) s = Some i"
proof (cases "findInlineHookItem (target_addr (item s i)) s")
  case None
  then show ?thesis using assms(2) by (auto simp: find_item_None)
next
  case (Some j)
  from find_item_Some [OF Some] assms show ?thesis
    by (auto simp: Some registry_ok_def dest: inj_onD)
qed

lemma hook_item:
  "item (doInlineHook i s) j = (if j = i then (item s i)\<lparr>hstatus := HOOKED\<rparr> else item s j)"
  "isize (doInlineHook i s) = isize s"
  by (simp_all add: doInlineHook_def Let_def)

lemma registry_ok_hook:
  assumes "registry_ok s"
  shows "registry_ok (doInlineHook i s)"
proof -
  have "target_addr (item (doInlineHook i s) j) = target_addr (item s j)"
    and "item_ok (item (doInlineHook i s) j) = item_ok (item s j)" for j
    by (simp_all add: hook_item item_ok_def)
  then show ?thesis using assms by (simp add: registry_ok_def hook_item(2))
qed

text \<open>The items in use after an item is deleted.\<close>

lemma unhook_item:
  "j < isize s - 1 \<Longrightarrow> item (doInlineUnHook i s) j = (if j = i then item s (isize s - 1) else item s j)"
  by (simp add: doInlineUnHook_def deleteInlineHookItem_def Let_def)

lemma registry_ok_unhook:
  assumes "registry_ok s" and "i < isize s"
  shows "registry_ok (doInlineUnHook i s)"
proof -
  have "inj_on (\<lambda>j. target_addr (item (doInlineUnHook i s) j)) {..<isize s - 1}"
    using assms by (fastforce simp: registry_ok_def inj_on_def unhook_item)
  then show ?thesis using assms by (auto simp: registry_ok_def unhook_item)
qed

lemma register_cases:
  assumes "registerInlineHook ms page t new proto s = Inr (r, s')"
  obtains (unchanged) "r \<noteq> ELE7EN_OK" "s' = s"
  | (added) it where "r = ELE7EN_OK" "isize s < 1024" "\<forall>i<isize s. target_addr (item s i) \<noteq> t"
      "isize s' = Suc (isize s)" "item s' = (item s)(isize s := it)" "target_addr it = t" "new_addr it = new"
      "proto_addr it = proto" "item_ok it"
      "orig_instructions it = read_bytes (CLEAR_BIT0 t) (hlength it) (hmem s)" "hstatus it = REGISTERED"
proof -
  from assms obtain x where x: "(if \<not> x then Inr (ELE7EN_ERROR_NOT_EXECUTABLE, s) else registered page t new proto s) = Inr (r, s')"
    unfolding registerInlineHook_def res_bind_Inr_iff by blast
  show thesis
  proof (cases "x \<and> findInlineHookItem t s = None")
    case False
    then have "r \<noteq> ELE7EN_OK \<and> s' = s" using x by (auto simp: registered_def split: if_splits option.splits hook_status.splits)
    with unchanged show thesis by blast
  next
    case True
    let ?len = "if TEST_BIT0 t then 12 else 8 :: nat"
    let ?orig = "read_bytes (CLEAR_BIT0 t) ?len (hmem s)" and ?old = "item s (isize s)"
    let ?m = "write_bytes page (replicate PAGE_SIZE32 0) (hmem s)"
    have sz: "isize s < 1024" using x True
      by (auto simp: registered_def addInlineHookItem_def not_le split: if_splits)
    then have "res_bind (relocateInstruction ?m t ?orig ?len (hcount ?old, boundaries ?old))
        (\<lambda>(code, count, bounds). Inr (ELE7EN_OK, s\<lparr>isize := isize s + 1, item := (item s)(isize s := ?old
          \<lparr>target_addr := t, new_addr := new, proto_addr := proto, orig_instructions := ?orig,
           boundaries := bounds, hcount := count, trampoline_instructions := page, hlength := ?len,
           hstatus := REGISTERED\<rparr>), hmem := write_bytes page code ?m,
           unmapped := unmapped s - region page PAGE_SIZE32\<rparr>)) = Inr (r, s')"
      using x True by (simp add: registered_def addInlineHookItem_def Let_def)
    then obtain code count bounds where
      "r = ELE7EN_OK" "s' = s\<lparr>isize := isize s + 1, item := (item s)(isize s := ?old
          \<lparr>target_addr := t, new_addr := new, proto_addr := proto, orig_instructions := ?orig,
           boundaries := bounds, hcount := count, trampoline_instructions := page, hlength := ?len,
           hstatus := REGISTERED\<rparr>), hmem := write_bytes page code ?m,
           unmapped := unmapped s - region page PAGE_SIZE32\<rparr>"
      by (auto simp: res_bind_Inr_iff)
    then show thesis using added sz True by (simp add: find_item_None item_ok_def)
  qed
qed

lemma registry_ok_register:
  assumes "registry_ok s" and "registerInlineHook ms page t new proto s = Inr (r, s')"
  shows "registry_ok s'"
  using assms(2)
proof (cases rule: register_cases)
  case unchanged
  then show ?thesis using assms(1) by simp
next
  case (added it)
  have "inj_on (\<lambda>i. target_addr (item s' i)) {..<Suc (isize s)}"
    using assms(1) added by (auto simp: registry_ok_def inj_on_def less_Suc_eq)
  then show ?thesis using assms(1) added by (auto simp: registry_ok_def less_Suc_eq)
qed

lemma registry_ok_hook_loop: "registry_ok s \<Longrightarrow> set is \<subseteq> {..<isize s} \<Longrightarrow> registry_ok (hook_loop is s)"
proof (induction "is" arbitrary: s)
  case (Cons i "is")
  then show ?case using registry_ok_hook [of s i] by (auto simp: doInlineHook_def Let_def)
qed simp

lemma registry_ok_unhook_loop: "registry_ok s \<Longrightarrow> registry_ok (unhook_loop i s)"
proof (induction i s rule: unhook_loop.induct)
  case (1 i s)
  then show ?case using registry_ok_unhook [of s i] by (subst unhook_loop.simps) auto
qed

text \<open>The calls a program makes, and the registries they lead to from the initial one.\<close>

inductive hooks_reach :: "hooks \<Rightarrow> hooks \<Rightarrow> bool" for s0 where
  start: "hooks_reach s0 s0"
| register: "hooks_reach s0 s \<Longrightarrow> registerInlineHook ms page t new proto s = Inr (r, s') \<Longrightarrow> hooks_reach s0 s'"
| hook: "hooks_reach s0 s \<Longrightarrow> hooks_reach s0 (snd (inlineHook t s))"
| hook_all: "hooks_reach s0 s \<Longrightarrow> hooks_reach s0 (inlineHookAll s)"
| unhook: "hooks_reach s0 s \<Longrightarrow> hooks_reach s0 (snd (inlineUnHook t s))"
| unhook_all: "hooks_reach s0 s \<Longrightarrow> hooks_reach s0 (inlineUnHookAll s)"

lemma reach_registry_ok: "hooks_reach s0 s \<Longrightarrow> registry_ok s0 \<Longrightarrow> registry_ok s"
proof (induction rule: hooks_reach.induct)
  case (hook s t)
  then show ?case using registry_ok_hook find_item_Some
    by (auto simp: inlineHook_def split: option.splits hook_status.splits)
next
  case (unhook s t)
  then show ?case using registry_ok_unhook
    by (auto simp: inlineUnHook_def find_Some_iff split: option.splits)
qed (auto simp: inlineHookAll_def inlineUnHookAll_def
    intro: registry_ok_register registry_ok_hook_loop registry_ok_unhook_loop)

section \<open>Patching and restoring\<close>

lemma length_concat_le16: "length (concat (map le16 ws)) = 2 * length ws"
  by (induction ws) auto

lemma length_patch: "item_ok it \<Longrightarrow> length (patch it) \<le> hlength it"
  by (auto simp: patch_def length_concat_le16 item_ok_def)

definition code_area :: "inlineHookItem \<Rightarrow> u32 set" where
  "code_area it = region (CLEAR_BIT0 (target_addr it)) (hlength it)"

definition proto_area :: "inlineHookItem \<Rightarrow> u32 set" where
  "proto_area it = (if proto_addr it = 0 then {} else region (proto_addr it) 4)"

definition trampoline_area :: "inlineHookItem \<Rightarrow> u32 set" where
  "trampoline_area it = region (trampoline_instructions it) PAGE_SIZE32"

text \<open>The copy kept in the item is what the memory \<open>m0\<close> had there.\<close>

definition synced :: "32 memory \<Rightarrow> inlineHookItem \<Rightarrow> bool" where
  "synced m0 it \<longleftrightarrow> item_ok it \<and> orig_instructions it = read_bytes (CLEAR_BIT0 (target_addr it)) (hlength it) m0"

lemma hook_outside:
  assumes "item_ok (item s i)" and "a \<notin> code_area (item s i)" and "a \<notin> proto_area (item s i)"
  shows "hmem (doInlineHook i s) a = hmem s a"
proof -
  have "a \<notin> region (CLEAR_BIT0 (target_addr (item s i))) (length (patch (item s i)))"
    using assms(2) region_mono [OF length_patch [OF assms(1)]] by (auto simp: code_area_def)
  then show ?thesis using assms(3) by (simp add: doInlineHook_def Let_def write_bytes_other proto_area_def split: if_splits)
qed

lemma hook_loop_items:
  "isize (hook_loop is s) = isize s \<and>
   (\<forall>j. item (hook_loop is s) j = (if j \<in> set is then (item s j)\<lparr>hstatus := HOOKED\<rparr> else item s j))"
proof (induction "is" arbitrary: s)
  case Nil
  then show ?case by simp
next
  case (Cons i "is")
  have hooked: "hstatus (item s i) \<noteq> REGISTERED \<Longrightarrow> (item s i)\<lparr>hstatus := HOOKED\<rparr> = item s i"
    by (cases "hstatus (item s i)") auto
  show ?case
    using Cons.IH [of "if hstatus (item s i) = REGISTERED then doInlineHook i s else s"] hooked
    by (auto simp: hook_item)
qed

lemma hook_loop_outside:
  assumes "\<forall>i\<in>set is. item_ok (item s i) \<and> a \<notin> code_area (item s i) \<and> a \<notin> proto_area (item s i)"
  shows "hmem (hook_loop is s) a = hmem s a"
  using assms
proof (induction "is" arbitrary: s)
  case (Cons i "is")
  let ?s = "if hstatus (item s i) = REGISTERED then doInlineHook i s else s"
  have "hmem (hook_loop is ?s) a = hmem ?s a"
    by (rule Cons.IH) (use Cons.prems in \<open>auto simp: hook_item item_ok_def code_area_def proto_area_def\<close>)
  then show ?case using hook_outside [of s i a] Cons.prems by auto
qed simp

lemma unhook_mem:
  assumes "synced m0 (item s i)"
  shows "hmem (doInlineUnHook i s) a = (if a \<in> code_area (item s i) then m0 a else hmem s a)"
proof -
  have "hlength (item s i) \<le> 2 ^ LENGTH(32)" using assms by (simp add: synced_def item_ok_def)
  then show ?thesis
    using assms by (auto simp: synced_def doInlineUnHook_def deleteInlineHookItem_def Let_def code_area_def
        restore_in restore_out)
qed

lemma unhook_unmaps: "unmapped (doInlineUnHook i s) = unmapped s \<union> trampoline_area (item s i)"
  by (simp add: doInlineUnHook_def deleteInlineHookItem_def trampoline_area_def Let_def)

lemma hook_loop_unmaps: "unmapped (hook_loop is s) = unmapped s"
  by (induction "is" arbitrary: s) (auto simp: doInlineHook_def Let_def)

text \<open>Deleting the first item: it and the items left are the items there were.\<close>

lemma unhook_first:
  assumes "0 < isize s"
  shows "(\<exists>i<isize s. P (item s i)) \<longleftrightarrow> (\<exists>i<isize s - 1. P (item (doInlineUnHook 0 s) i)) \<or> P (item s 0)"
proof
  assume "\<exists>i<isize s. P (item s i)"
  then obtain i where i: "i < isize s" "P (item s i)" by blast
  show "(\<exists>i<isize s - 1. P (item (doInlineUnHook 0 s) i)) \<or> P (item s 0)"
  proof (cases "i = 0 \<or> i < isize s - 1")
    case True
    then show ?thesis using i by (cases "i = 0") (auto simp: unhook_item intro!: exI [of _ i])
  next
    case False
    then have "i = isize s - 1" "0 < isize s - 1" using i by auto
    then show ?thesis using i by (auto simp: unhook_item intro!: exI [of _ 0])
  qed
next
  assume "(\<exists>i<isize s - 1. P (item (doInlineUnHook 0 s) i)) \<or> P (item s 0)"
  then show "\<exists>i<isize s. P (item s i)"
  proof
    assume "\<exists>i<isize s - 1. P (item (doInlineUnHook 0 s) i)"
    then obtain i where i: "i < isize s - 1" "P (item (doInlineUnHook 0 s) i)" by blast
    then show ?thesis
      by (cases "i = 0") (auto simp: unhook_item intro: exI [of _ "isize s - 1"] exI [of _ i])
  qed (use assms in blast)
qed

lemma unhook_all_restores:
  assumes "\<forall>i<isize s. synced m0 (item s i) \<and> hstatus (item s i) = HOOKED"
  shows "isize (unhook_loop 0 s) = 0 \<and>
    (\<forall>a. hmem (unhook_loop 0 s) a = (if \<exists>i<isize s. a \<in> code_area (item s i) then m0 a else hmem s a)) \<and>
    unmapped (unhook_loop 0 s) = unmapped s \<union> (\<Union>i<isize s. trampoline_area (item s i))"
  using assms
proof (induction "isize s" arbitrary: s)
  case 0
  then show ?case by (subst (1 2 3) unhook_loop.simps) simp
next
  case (Suc n)
  let ?s = "doInlineUnHook 0 s"
  have step: "unhook_loop 0 s = unhook_loop 0 ?s"
    using Suc.hyps(2) Suc.prems by (subst unhook_loop.simps) simp
  have sz: "n = isize ?s" "0 < isize s" using Suc.hyps(2) by simp_all
  have items: "\<forall>i<isize ?s. synced m0 (item ?s i) \<and> hstatus (item ?s i) = HOOKED"
    using Suc.prems by (auto simp: unhook_item)
  have m: "synced m0 (item s 0)" using Suc.prems sz(2) by auto
  note IH = Suc.hyps(1) [OF sz(1) items]
  have "(\<Union>i<isize s. trampoline_area (item s i)) = (\<Union>i<isize ?s. trampoline_area (item ?s i)) \<union> trampoline_area (item s 0)"
    using unhook_first [OF sz(2), of "\<lambda>it. a \<in> trampoline_area it" for a] by (auto simp: set_eq_iff)
  then have "unmapped (unhook_loop 0 s) = unmapped s \<union> (\<Union>i<isize s. trampoline_area (item s i))"
    using IH step by (auto simp: unhook_unmaps)
  moreover have "hmem (unhook_loop 0 s) a = (if \<exists>i<isize s. a \<in> code_area (item s i) then m0 a else hmem s a)" for a
    using IH step unhook_first [OF sz(2), of "\<lambda>it. a \<in> code_area it"] by (auto simp: unhook_mem [OF m])
  ultimately show ?case using IH step by simp
qed

section \<open>Registering the same ARM function again\<close>

lemma arm_total:
  assumes "\<forall>a. mem a \<noteq> None"
  shows "\<exists>code. relocateOneArm mem pc i = Inr code"
proof -
  have f: "load_word mem a = Inr (the (mem a))" for a
    using spec [OF assms, of a] by (auto simp: load_word_def)
  obtain r where "scratch_reg 12 [unat (drop_bit 12 (i AND 0xF000)), unat (i AND 0xF)] = Inr r"
    using scratch_reg_twelve_two by metis
  then have "\<exists>code. arm_add pc i = Inr code" by (simp add: arm_add_def Let_def)
  then show ?thesis by (auto simp: relocateOneArm_def arm_value_def f Let_def)
qed

lemma full_words_two:
  "length bs = 8 \<Longrightarrow> \<exists>v w. full_words bs = [v, w]"
  by (auto simp: eval_nat_numeral length_Suc_conv)

text \<open>An ARM function head has two words, so two boundaries are added.\<close>

lemma relocate_arm_count:
  assumes "\<not> TEST_BIT0 t" and "length orig = 8" and "count + 2 \<le> 20"
  shows "\<exists>code bounds'. relocateInstruction m t orig 8 (count, bounds) = Inr (code, count + 2, bounds')"
proof -
  let ?rd = "\<lambda>a. Some (get32 a m)"
  obtain v w where vw: "full_words orig = [v, w]" using full_words_two [OF assms(2)] by blast
  have tot: "\<forall>a. ?rd a \<noteq> None" by simp
  obtain c1 c2 where "relocateOneArm ?rd (t + 8) v = Inr c1" "relocateOneArm ?rd (t + 12) w = Inr c2"
    using arm_total [OF tot] by metis
  then show ?thesis
    using assms vw by (simp add: relocateInstruction_def TEST_BIT0_def relocateInstructionInArm_def
        mark_def add.assoc)
qed

lemma relocate_arm_overflow:
  assumes "\<not> TEST_BIT0 t" and "length orig = 8" and "20 \<le> count"
  shows "relocateInstruction m t orig 8 (count, bounds) = Inl Array_Overflow"
proof -
  obtain v w where vw: "full_words orig = [v, w]" using full_words_two [OF assms(2)] by blast
  then show ?thesis
    using assms by (simp add: relocateInstruction_def TEST_BIT0_def relocateInstructionInArm_def mark_def)
qed

fun rehook :: "maps \<Rightarrow> u32 \<Rightarrow> u32 \<Rightarrow> u32 \<Rightarrow> u32 \<Rightarrow> nat \<Rightarrow> hooks \<Rightarrow> hooks res" where
  "rehook ms page t new proto 0 s = Inr s"
| "rehook ms page t new proto (Suc n) s =
     res_bind (registerInlineHook ms page t new proto s) (\<lambda>(_, s1).
       rehook ms page t new proto n (snd (inlineUnHook t (snd (inlineHook t s1)))))"

lemma rehook_once:
  assumes "isExecutableAddr ms t = Inr True" and "isExecutableAddr ms new = Inr True" and "\<not> TEST_BIT0 t"
    and "isize s = 0" and "hcount (item s 0) + 2 \<le> 20"
  shows "\<exists>s1. registerInlineHook ms page t new proto s = Inr (ELE7EN_OK, s1) \<and>
    isize (snd (inlineUnHook t (snd (inlineHook t s1)))) = 0 \<and>
    hcount (item (snd (inlineUnHook t (snd (inlineHook t s1)))) 0) = hcount (item s 0) + 2"
proof -
  define m where "m = write_bytes page (replicate PAGE_SIZE32 0) (hmem s)"
  from relocate_arm_count [OF assms(3) _ assms(5), of "read_bytes (CLEAR_BIT0 t) 8 (hmem s)" m "boundaries (item s 0)"]
  obtain code bounds where c: "relocateInstruction m t (read_bytes (CLEAR_BIT0 t) 8 (hmem s)) 8
      (hcount (item s 0), boundaries (item s 0)) = Inr (code, hcount (item s 0) + 2, bounds)" by auto
  define it where "it = (item s 0)\<lparr>target_addr := t, new_addr := new, proto_addr := proto,
      orig_instructions := read_bytes (CLEAR_BIT0 t) 8 (hmem s), boundaries := bounds,
      hcount := hcount (item s 0) + 2, trampoline_instructions := page, hlength := 8, hstatus := REGISTERED\<rparr>"
  define s1 where "s1 = s\<lparr>isize := 1, item := (item s)(0 := it), hmem := write_bytes page code m,
      unmapped := unmapped s - region page PAGE_SIZE32\<rparr>"
  have "registerInlineHook ms page t new proto s = Inr (ELE7EN_OK, s1)"
    using assms c by (simp add: register_executable registered_def findInlineHookItem_def addInlineHookItem_def Let_def
        it_def s1_def m_def)
  moreover have "inlineHook t s1 = (ELE7EN_OK, doInlineHook 0 s1)"
    by (simp add: inlineHook_def findInlineHookItem_def s1_def it_def)
  moreover have "inlineUnHook t (doInlineHook 0 s1) = (ELE7EN_OK, doInlineUnHook 0 (doInlineHook 0 s1))"
    by (simp add: inlineUnHook_def hook_item) (simp add: s1_def it_def)
  moreover have "hcount (item (doInlineUnHook 0 (doInlineHook 0 s1)) 0) = hcount (item s1 0)" "isize s1 = 1"
    by (simp_all add: doInlineUnHook_def deleteInlineHookItem_def Let_def hook_item) (simp_all add: s1_def)
  ultimately show ?thesis by (simp add: hook_item) (simp add: s1_def it_def)
qed

lemma rehook_many:
  assumes "isExecutableAddr ms t = Inr True" and "isExecutableAddr ms new = Inr True" and "\<not> TEST_BIT0 t"
    and "isize s = 0" and "hcount (item s 0) + 2 * n \<le> 20"
  shows "\<exists>s'. rehook ms page t new proto n s = Inr s' \<and> isize s' = 0 \<and>
    hcount (item s' 0) = hcount (item s 0) + 2 * n"
  using assms(4,5)
proof (induction n arbitrary: s)
  case (Suc n)
  from rehook_once [OF assms(1-3) Suc.prems(1), of page proto] Suc.prems(2)
  obtain s1 where s1: "registerInlineHook ms page t new proto s = Inr (ELE7EN_OK, s1)"
    "isize (snd (inlineUnHook t (snd (inlineHook t s1)))) = 0"
    "hcount (item (snd (inlineUnHook t (snd (inlineHook t s1)))) 0) = hcount (item s 0) + 2" by auto
  from Suc.IH [OF s1(2)] s1 Suc.prems(2) show ?case by auto
qed simp

lemma rehook_add:
  "rehook ms page t new proto (n + k) s =
     res_bind (rehook ms page t new proto n s) (rehook ms page t new proto k)"
proof (induction n arbitrary: s)
  case (Suc n)
  then show ?case by (cases "registerInlineHook ms page t new proto s") (auto split: prod.splits)
qed simp

lemma settled_not_null: "settled r \<Longrightarrow> r \<noteq> Inl Null_Deref"
  by auto

lemma mark_not_null: "mark a b cb \<noteq> Inl Null_Deref"
  by (simp add: mark_def split: prod.split)

lemma thumb_loop_not_null: "thumb_loop mem orig n orig_pos pc tramp cb \<noteq> Inl Null_Deref"
proof (induction mem orig n orig_pos pc tramp cb rule: thumb_loop.induct)
  case (1 mem orig n orig_pos pc tramp cb)
  then show ?case
    by (subst thumb_loop.simps) (auto simp: mark_not_null settled_not_null [OF thumb16_settled]
        settled_not_null [OF thumb32_settled] split: sum.split)
qed

lemma arm_loop_not_null: "arm_loop mem is orig_pos pc tramp cb \<noteq> Inl Null_Deref"
proof (induction "is" arbitrary: orig_pos pc tramp cb)
  case (Cons i "is")
  then show ?case by (auto simp: mark_not_null settled_not_null [OF arm_settled] split: sum.split)
qed simp

lemma relocate_not_null: "relocateInstruction m t orig len cb \<noteq> Inl Null_Deref"
  by (auto simp: thumb_loop_not_null arm_loop_not_null relocateInstruction_def relocateInstructionInThumb_def relocateInstructionInArm_def
      res_bind_def Let_def split: sum.splits)

section \<open>Properties of the hooks\<close>

definition empty_hooks :: "32 memory \<Rightarrow> hooks" where
  "empty_hooks m = \<lparr>item = \<lambda>_. \<lparr>target_addr = 0, new_addr = 0, proto_addr = 0, orig_instructions = [],
      boundaries = replicate 24 0, hcount = 0, trampoline_instructions = 0, hlength = 0, hstatus = REGISTERED\<rparr>,
     isize = 0, hmem = m, unmapped = {}, flushed = []\<rparr>"

text \<open>An item in use after a step is an item in use before it, up to its status.\<close>

definition same_code :: "inlineHookItem \<Rightarrow> inlineHookItem \<Rightarrow> bool" where
  "same_code it it' \<longleftrightarrow> target_addr it = target_addr it' \<and> new_addr it = new_addr it' \<and> proto_addr it = proto_addr it' \<and>
     orig_instructions it = orig_instructions it' \<and> hlength it = hlength it'"

definition items_from :: "hooks \<Rightarrow> hooks \<Rightarrow> bool" where
  "items_from s' s \<longleftrightarrow> (\<forall>i<isize s'. \<exists>j<isize s. same_code (item s' i) (item s j))"

lemma items_from_refl: "items_from s s"
  by (auto simp: items_from_def same_code_def)

lemma items_from_trans: "items_from s2 s1 \<Longrightarrow> items_from s1 s \<Longrightarrow> items_from s2 s"
  unfolding items_from_def same_code_def by metis

lemma items_from_hook: "items_from (doInlineHook i s) s"
  by (auto simp: items_from_def same_code_def hook_item)

lemma isize_unhook: "isize (doInlineUnHook i s) = isize s - 1"
  by (simp add: doInlineUnHook_def deleteInlineHookItem_def Let_def)

lemma items_from_unhook: "i < isize s \<Longrightarrow> items_from (doInlineUnHook i s) s"
  unfolding items_from_def
proof (intro allI impI)
  fix k assume "i < isize s" and "k < isize (doInlineUnHook i s)"
  then show "\<exists>j<isize s. same_code (item (doInlineUnHook i s) k) (item s j)"
    by (intro exI [of _ "if k = i then isize s - 1 else k"]) (auto simp: isize_unhook unhook_item same_code_def)
qed

lemma items_from_hook_loop: "items_from (hook_loop is s) s"
proof (induction "is" arbitrary: s)
  case (Cons i "is")
  then show ?case using items_from_trans [OF Cons.IH items_from_hook] by (simp add: items_from_refl)
qed (simp add: items_from_refl)

lemma items_from_unhook_loop: "items_from (unhook_loop i s) s"
proof (induction i s rule: unhook_loop.induct)
  case (1 i s)
  then show ?case using items_from_trans [OF _ items_from_unhook [of i s]] by (subst unhook_loop.simps) (auto simp: items_from_refl)
qed

text \<open>The item was made by a registration on the way, and its copy is what was at its target then.\<close>

definition copied_on_way :: "hooks \<Rightarrow> hooks \<Rightarrow> inlineHookItem \<Rightarrow> bool" where
  "copied_on_way s0 s it \<longleftrightarrow> (\<exists>ms page s1 s2. hooks_reach s0 s1 \<and>
     registerInlineHook ms page (target_addr it) (new_addr it) (proto_addr it) s1 = Inr (ELE7EN_OK, s2) \<and> hooks_reach s2 s \<and>
     hlength it = (if TEST_BIT0 (target_addr it) then 12 else 8) \<and>
     orig_instructions it = read_bytes (CLEAR_BIT0 (target_addr it)) (hlength it) (hmem s1))"

lemma copied_step:
  assumes "\<forall>j<isize s. copied_on_way s0 s (item s j)" and "items_from s' s" and "\<And>s2. hooks_reach s2 s \<Longrightarrow> hooks_reach s2 s'"
  shows "\<forall>i<isize s'. copied_on_way s0 s' (item s' i)"
proof (intro allI impI)
  fix i assume "i < isize s'"
  with assms(2) obtain j where "j < isize s" "same_code (item s' i) (item s j)" by (auto simp: items_from_def)
  with assms(1,3) show "copied_on_way s0 s' (item s' i)" unfolding copied_on_way_def same_code_def by metis
qed

lemma reach_copied: "hooks_reach s0 s \<Longrightarrow> isize s0 = 0 \<Longrightarrow> \<forall>i<isize s. copied_on_way s0 s (item s i)"
proof (induction rule: hooks_reach.induct)
  case start
  then show ?case by simp
next
  case (register s ms page t new proto r s')
  have up: "hooks_reach s2 s \<Longrightarrow> hooks_reach s2 s'" for s2 by (rule hooks_reach.register [OF _ register.hyps(2)])
  show ?case
    using register.hyps(2)
  proof (cases rule: register_cases)
    case unchanged
    then show ?thesis using register.IH register.prems by simp
  next
    case (added it)
    have "copied_on_way s0 s' it"
      unfolding copied_on_way_def added(6-8)
      using register.hyps added by (intro exI [of _ ms] exI [of _ page] exI [of _ s] exI [of _ s'])
        (auto simp: item_ok_def intro: hooks_reach.start)
    moreover have "copied_on_way s0 s' (item s' i)" if "i < isize s" for i
      using register.IH [OF register.prems] that added(5) up unfolding copied_on_way_def by (metis fun_upd_other less_irrefl)
    ultimately show ?thesis using added(4,5) by (auto simp: less_Suc_eq)
  qed
next
  case (hook s t)
  have "items_from (snd (inlineHook t s)) s"
    by (auto simp: inlineHook_def items_from_refl items_from_hook split: option.splits hook_status.splits)
  then show ?case by (rule copied_step [OF hook.IH [OF hook.prems]]) (rule hooks_reach.hook)
next
  case (hook_all s)
  have "items_from (inlineHookAll s) s" by (simp add: inlineHookAll_def items_from_hook_loop)
  then show ?case by (rule copied_step [OF hook_all.IH [OF hook_all.prems]]) (rule hooks_reach.hook_all)
next
  case (unhook s t)
  have "items_from (snd (inlineUnHook t s)) s"
    by (auto simp: inlineUnHook_def items_from_refl items_from_unhook find_Some_iff split: option.splits)
  then show ?case by (rule copied_step [OF unhook.IH [OF unhook.prems]]) (rule hooks_reach.unhook)
next
  case (unhook_all s)
  have "items_from (inlineUnHookAll s) s" by (simp add: inlineUnHookAll_def items_from_unhook_loop)
  then show ?case by (rule copied_step [OF unhook_all.IH [OF unhook_all.prems]]) (rule hooks_reach.unhook_all)
qed

text \<open>C15. In every registry reached by registering, hooking and unhooking from an empty one, at most
  1024 items are in use, no two have the same target, looking up a target finds its own item, and
  each item was made by a successful registration on the way and still holds the 12 (Thumb) or 8 (ARM) bytes
  that were at its target then.\<close>

theorem inline_registry_invariant:
  assumes "hooks_reach s0 s" and "isize s0 = 0"
  shows "isize s \<le> 1024 \<and> inj_on (\<lambda>i. target_addr (item s i)) {..<isize s} \<and>
    (\<forall>i<isize s. findInlineHookItem (target_addr (item s i)) s = Some i \<and>
      (\<exists>ms page s1 s2. hooks_reach s0 s1 \<and> hooks_reach s2 s \<and>
        registerInlineHook ms page (target_addr (item s i)) (new_addr (item s i)) (proto_addr (item s i)) s1 = Inr (ELE7EN_OK, s2) \<and>
        orig_instructions (item s i) = read_bytes (CLEAR_BIT0 (target_addr (item s i)))
          (if TEST_BIT0 (target_addr (item s i)) then 12 else 8) (hmem s1)))"
proof -
  have ok: "registry_ok s" by (rule reach_registry_ok [OF assms(1)]) (simp add: registry_ok_def assms(2))
  show ?thesis
  proof (intro conjI allI impI)
    fix i assume i: "i < isize s"
    then show "findInlineHookItem (target_addr (item s i)) s = Some i" by (rule registry_ok_find [OF ok])
    from reach_copied [OF assms] i have "copied_on_way s0 s (item s i)" by blast
    then obtain ms page s1 s2 where "hooks_reach s0 s1"
      "registerInlineHook ms page (target_addr (item s i)) (new_addr (item s i)) (proto_addr (item s i)) s1 = Inr (ELE7EN_OK, s2)"
      "hooks_reach s2 s" "hlength (item s i) = (if TEST_BIT0 (target_addr (item s i)) then 12 else 8)"
      "orig_instructions (item s i) = read_bytes (CLEAR_BIT0 (target_addr (item s i))) (hlength (item s i)) (hmem s1)"
      unfolding copied_on_way_def by blast
    then show "\<exists>ms page s1 s2. hooks_reach s0 s1 \<and> hooks_reach s2 s \<and>
        registerInlineHook ms page (target_addr (item s i)) (new_addr (item s i)) (proto_addr (item s i)) s1 = Inr (ELE7EN_OK, s2) \<and>
        orig_instructions (item s i) = read_bytes (CLEAR_BIT0 (target_addr (item s i)))
          (if TEST_BIT0 (target_addr (item s i)) then 12 else 8) (hmem s1)"
      by (intro exI [of _ ms] exI [of _ page] exI [of _ s1] exI [of _ s2]) simp
  qed (use ok in \<open>auto simp: registry_ok_def\<close>)
qed

text \<open>A memory map with one executable mapping, and a registration in it.\<close>

definition sample_maps :: string where
  "sample_maps = text_of [''00008000-0000a000 r-xp 00000000 103:08 77 /l.so'']"

lemma sample_executable: "isExecutableAddr (Some sample_maps) 0x8000 = Inr True" "isExecutableAddr (Some sample_maps) 0x9000 = Inr True"
proof -
  have l: "fgets_lines 1024 sample_maps = [''00008000-0000a000 r-xp 00000000 103:08 77 /l.so'' @ [CHR 0x0A]]"
    unfolding sample_maps_def by (subst fgets_lines_text) simp_all
  have x: "strstr (''00008000-0000a000 r-xp 00000000 103:08 77 /l.so'' @ [CHR 0x0A]) ''r-xp''" by code_simp
  have t: "strtok (CHR ''-'') (''00008000-0000a000 r-xp 00000000 103:08 77 /l.so'' @ [CHR 0x0A]) =
      Some (''00008000'', ''0000a000 r-xp 00000000 103:08 77 /l.so'' @ [CHR 0x0A])"
    "strtok (CHR '' '') (''0000a000 r-xp 00000000 103:08 77 /l.so'' @ [CHR 0x0A]) =
      Some (''0000a000'', ''r-xp 00000000 103:08 77 /l.so'' @ [CHR 0x0A])"
    by code_simp+
  have n: "strtoul hex_digit 16 ''00008000'' = 0x8000" "strtoul hex_digit 16 ''0000a000'' = 0xa000"
    by (rule strtoul_hex(1); simp add: hex_digit_def)+
  show "isExecutableAddr (Some sample_maps) 0x8000 = Inr True" "isExecutableAddr (Some sample_maps) 0x9000 = Inr True"
    by (simp_all add: isExecutableAddr_def l x t n del: strstr.simps append.simps)
qed

lemma sample_registered:
  "\<exists>s1. registerInlineHook (Some sample_maps) 0x20000 0x8000 0x9000 0x30000 (empty_hooks (\<lambda>_. 0x55)) =
     Inr (ELE7EN_OK, s1) \<and> isize s1 = 1 \<and> target_addr (item s1 0) = 0x8000"
proof -
  have "\<not> TEST_BIT0 0x8000" by (simp add: TEST_BIT0_def)
  from relocate_arm_count [OF this, of "read_bytes (CLEAR_BIT0 0x8000) 8 (\<lambda>_. 0x55)" 0
      "write_bytes 0x20000 (replicate PAGE_SIZE32 0) (\<lambda>_. 0x55)" "replicate 24 0"]
  obtain code bounds where "relocateInstruction (write_bytes 0x20000 (replicate PAGE_SIZE32 0) (\<lambda>_. 0x55)) 0x8000
      (read_bytes (CLEAR_BIT0 0x8000) 8 (\<lambda>_. 0x55)) 8 (0, replicate 24 0) = Inr (code, 2, bounds)" by auto
  then show ?thesis
    by (simp add: register_executable [OF sample_executable] registered_def findInlineHookItem_def addInlineHookItem_def
        empty_hooks_def TEST_BIT0_def Let_def)
qed

theorem inline_registry_invariant_witness:
  "\<exists>s s1. hooks_reach (empty_hooks (\<lambda>_. 0x55)) s \<and> isize s = 1 \<and> findInlineHookItem 0x8000 s = Some 0 \<and>
     hooks_reach (empty_hooks (\<lambda>_. 0x55)) s1 \<and> orig_instructions (item s 0) = read_bytes 0x8000 8 (hmem s1)"
proof -
  from sample_registered obtain s where s:
    "registerInlineHook (Some sample_maps) 0x20000 0x8000 0x9000 0x30000 (empty_hooks (\<lambda>_. 0x55)) =
     Inr (ELE7EN_OK, s)" "isize s = 1" "target_addr (item s 0) = 0x8000" by blast
  have r: "hooks_reach (empty_hooks (\<lambda>_. 0x55)) s" by (rule hooks_reach.register [OF hooks_reach.start s(1)])
  have "\<not> TEST_BIT0 0x8000" "CLEAR_BIT0 0x8000 = 0x8000" by (simp_all add: TEST_BIT0_def CLEAR_BIT0_def)
  then show ?thesis using inline_registry_invariant [OF r] s(2,3) r by (fastforce simp: empty_hooks_def)
qed

text \<open>C14. Hooking everything and unhooking everything takes every hook back: if the registered items hold
  copies of what is in memory, then after \<open>inlineHookAll\<close> and \<open>inlineUnHookAll\<close> the registry is
  empty, the pages of the trampolines, and nothing else, have been unmapped, and every byte outside those pages and
  the cells that received the pointers to the original functions is what it was.\<close>

theorem hook_all_unhook_all:
  assumes "\<forall>i<isize s. synced (hmem s) (item s i) \<and> hstatus (item s i) = REGISTERED"
    and "\<forall>i<isize s. a \<notin> proto_area (item s i) \<and> a \<notin> region (trampoline_instructions (item s i)) 4096"
  shows "isize (inlineUnHookAll (inlineHookAll s)) = 0 \<and>
    unmapped (inlineUnHookAll (inlineHookAll s)) = unmapped s \<union> (\<Union>i<isize s. region (trampoline_instructions (item s i)) 4096) \<and>
    hmem (inlineUnHookAll (inlineHookAll s)) a = hmem s a"
proof -
  let ?s = "hook_loop [0..<isize s] s"
  note it = hook_loop_items [of "[0..<isize s]" s]
  have area: "code_area (item ?s i) = code_area (item s i)" "trampoline_area (item ?s i) = trampoline_area (item s i)" for i
    using it by (simp_all add: code_area_def trampoline_area_def)
  have sync: "\<forall>i<isize ?s. synced (hmem s) (item ?s i) \<and> hstatus (item ?s i) = HOOKED"
    using it assms(1) by (simp add: synced_def item_ok_def)
  have out: "hmem ?s a = hmem s a" if "\<not> (\<exists>i<isize s. a \<in> code_area (item s i))"
    by (rule hook_loop_outside) (use that assms in \<open>auto simp: synced_def\<close>)
  have "unmapped (unhook_loop 0 ?s) = unmapped s \<union> (\<Union>i<isize s. region (trampoline_instructions (item s i)) 4096)"
    using unhook_all_restores [OF sync] it by (simp add: area) (simp add: hook_loop_unmaps trampoline_area_def PAGE_SIZE32_def)
  moreover have "isize (unhook_loop 0 ?s) = 0 \<and> hmem (unhook_loop 0 ?s) a = hmem s a"
    using unhook_all_restores [OF sync] out it [THEN conjunct1] by (cases "\<exists>i<isize s. a \<in> code_area (item s i)")
      (simp_all only: area if_True if_False simp_thms)
  ultimately show ?thesis by (simp add: inlineUnHookAll_def inlineHookAll_def)
qed

theorem hook_all_unhook_all_witness:
  "\<exists>s. isize s = 1 \<and> isize (inlineUnHookAll (inlineHookAll s)) = 0 \<and>
     unmapped (inlineUnHookAll (inlineHookAll s)) = region 0x20000 4096 \<and>
     hmem (inlineUnHookAll (inlineHookAll s)) 0x8000 = 0x55"
proof -
  define s where "s = (empty_hooks (\<lambda>_. 0x55))\<lparr>isize := 1, item := \<lambda>_. \<lparr>target_addr = 0x8001, new_addr = 0x9001,
    proto_addr = 0x30000, orig_instructions = replicate 12 0x55, boundaries = replicate 24 0, hcount = 6,
    trampoline_instructions = 0x20000, hlength = 12, hstatus = REGISTERED\<rparr>\<rparr>"
  have "read_bytes b n (\<lambda>_. 0x55) = replicate n (0x55 :: u8)" for b :: u32 and n
    by (induction n arbitrary: b) auto
  then have "\<forall>i<isize s. synced (hmem s) (item s i) \<and> hstatus (item s i) = REGISTERED"
    by (simp add: s_def empty_hooks_def synced_def item_ok_def TEST_BIT0_def)
  moreover have "(0x8000 :: u32) \<notin> region b n" if "unat b + n \<le> 2 ^ 32" and "0x8000 < unat b" for b n
  proof
    assume "(0x8000 :: u32) \<in> region b n"
    then obtain k where k: "k < n" "(0x8000 :: u32) = b + word_of_nat k" by (auto simp: region_def)
    then have "unat (0x8000 :: u32) = (unat b + k) mod 2 ^ 32" using that
      by (simp only: k(2) unat_word_ariths) (simp add: unat_of_nat)
    then show False using that k by simp
  qed
  from this [of "0x20000" 4096] this [of "0x30000" 4]
  have "\<forall>i<isize s. 0x8000 \<notin> proto_area (item s i) \<and> 0x8000 \<notin> region (trampoline_instructions (item s i)) 4096"
    by (simp add: s_def proto_area_def)
  ultimately show ?thesis using hook_all_unhook_all [of s "0x8000"]
    by (intro exI [of _ s]) (simp add: s_def empty_hooks_def lessThan_Suc)
qed

lemma hook_code:
  assumes "item_ok (item s i)"
  shows "read_bytes (CLEAR_BIT0 (target_addr (item s i))) (length (patch (item s i))) (hmem (doInlineHook i s)) =
    patch (item s i)"
proof -
  have "length (patch (item s i)) \<le> 2 ^ LENGTH(32)"
    using length_patch [OF assms] assms by (auto simp: item_ok_def split: if_splits)
  then show ?thesis by (simp add: doInlineHook_def Let_def read_write_bytes)
qed

lemma clear_bit0_mod4: "CLEAR_BIT0 t mod 4 = (if bit t 1 then 2 else 0)"
proof -
  have "CLEAR_BIT0 t mod 4 = take_bit 2 (CLEAR_BIT0 t)" by (simp add: take_bit_eq_mod)
  also have "\<dots> = push_bit 1 (of_bool (bit t 1))"
  proof (rule bit_word_eqI)
    fix n assume "n < LENGTH(32)"
    consider "n = 0" | "n = 1" | "2 \<le> n" by linarith
    then show "bit (take_bit 2 (CLEAR_BIT0 t)) n = bit (push_bit 1 (of_bool (bit t 1)) :: u32) n"
      by cases (auto simp: CLEAR_BIT0_def bit_simps simp del: push_bit_Suc)
  qed
  finally show ?thesis by simp
qed

lemma add2_mod4: "a mod 4 = 2 \<Longrightarrow> (a + 2) mod 4 = (0 :: u32)"
proof -
  assume "a mod 4 = 2"
  then have "unat a mod 4 = 2" using unat_mod [of a 4] by simp
  then have "unat ((a + 2) mod 4) = 0"
    by (simp add: unat_mod unat_word_ariths mod_mod_cancel) (simp add: mod_Suc)
  then show ?thesis by (simp only: unsigned_eq_0_iff)
qed

lemma read_four:
  assumes "read_bytes b 8 m = le16 w0 @ le16 w1 @ le16 w2 @ le16 w3"
  shows "get16 b m = w0 \<and> get16 (b + 2) m = w1 \<and> get16 (b + 4) m = w2 \<and> get16 (b + 6) m = w3"
proof -
  have 0: "read_bytes b (length (le16 w0) + length (le16 w1 @ le16 w2 @ le16 w3)) m =
    le16 w0 @ le16 w1 @ le16 w2 @ le16 w3" using assms by simp
  have 1: "read_bytes (b + 2) (length (le16 w1) + length (le16 w2 @ le16 w3)) m =
    le16 w1 @ le16 w2 @ le16 w3" using read_bytes_split(2) [OF 0] by simp
  have 2: "read_bytes (b + 4) (length (le16 w2) + length (le16 w3)) m = le16 w2 @ le16 w3"
    using read_bytes_split(2) [OF 1] by (simp add: add.assoc)
  have 3: "read_bytes (b + 6) 2 m = le16 w3" using read_bytes_split(2) [OF 2] by (simp add: add.assoc)
  show ?thesis using read_bytes_split(1) [OF 0] read_bytes_split(1) [OF 1] read_bytes_split(1) [OF 2] 3
    by (simp add: get16_le16)
qed

text \<open>C16. Hooking an ARM function puts the two words of an absolute jump to the proxy at its start.
  Hooking a Thumb function puts \<open>LDR.W PC, [PC]\<close> there, after a \<open>NOP\<close> if the start is not word
  aligned, so that the literal it loads is word aligned and holds the address of the proxy. The patch
  never exceeds the bytes that were copied.\<close>

theorem hook_installs_jump:
  assumes "item_ok (item s i)"
  defines "it \<equiv> item s i" and "m \<equiv> hmem (doInlineHook i s)"
  defines "a \<equiv> CLEAR_BIT0 (target_addr it)"
  shows "length (patch it) \<le> hlength it \<and>
    (if TEST_BIT0 (target_addr it)
     then \<exists>b. (if a mod 4 = 0 then b = a else b = a + 2 \<and> get16 a m = 0xBF00) \<and> b mod 4 = 0 \<and>
       get16 b m = 0xF8DF \<and> get16 (b + 2) m = 0xF000 \<and> get16 (b + 4) m = ucast (new_addr it AND 0xFFFF) \<and>
       get16 (b + 6) m = ucast (drop_bit 16 (new_addr it))
     else get32 a m = 0xE51FF004 \<and> get32 (a + 4) m = new_addr it)"
proof (intro conjI)
  show "length (patch it) \<le> hlength it" using length_patch [OF assms(1)] by (simp add: it_def)
  have code: "read_bytes a (length (patch it)) m = patch it"
    using hook_code [OF assms(1)] by (simp add: it_def m_def a_def)
  show "if TEST_BIT0 (target_addr it)
     then \<exists>b. (if a mod 4 = 0 then b = a else b = a + 2 \<and> get16 a m = 0xBF00) \<and> b mod 4 = 0 \<and>
       get16 b m = 0xF8DF \<and> get16 (b + 2) m = 0xF000 \<and> get16 (b + 4) m = ucast (new_addr it AND 0xFFFF) \<and>
       get16 (b + 6) m = ucast (drop_bit 16 (new_addr it))
     else get32 a m = 0xE51FF004 \<and> get32 (a + 4) m = new_addr it"
  proof (cases "TEST_BIT0 (target_addr it)")
    case False
    then have "read_bytes a (length (le32 0xE51FF004) + length (le32 (new_addr it))) m =
      le32 0xE51FF004 @ le32 (new_addr it)" using code by (simp add: patch_def)
    from read_bytes_split [OF this] show ?thesis using False by (simp add: get32_le32)
  next
    case True
    let ?lo = "ucast (new_addr it AND 0xFFFF) :: u16" and ?hi = "ucast (drop_bit 16 (new_addr it)) :: u16"
    let ?code = "le16 0xF8DF @ le16 0xF000 @ le16 ?lo @ le16 ?hi"
    show ?thesis
    proof (cases "a mod 4 = 0")
      case aligned: True
      have "patch it = ?code" using True aligned unfolding patch_def a_def literal_def by simp
      then have "read_bytes a 8 m = ?code" using code by simp
      from read_four [OF this] True aligned show ?thesis by simp
    next
      case unaligned: False
      have "patch it = le16 0xBF00 @ ?code" using True unaligned unfolding patch_def a_def literal_def by simp
      then have "read_bytes a (length (le16 0xBF00) + length ?code) m = le16 0xBF00 @ ?code" using code by simp
      note sp = read_bytes_split [OF this]
      have "read_bytes (a + 2) 8 m = ?code" "get16 a m = 0xBF00" using sp by (simp_all add: get16_le16)
      moreover have "(a + 2) mod 4 = 0"
        using unaligned clear_bit0_mod4 [of "target_addr it"] by (intro add2_mod4) (simp add: a_def split: if_splits)
      ultimately show ?thesis using True unaligned read_four [of "a + 2" m "0xF8DF" "0xF000" ?lo ?hi] by simp
    qed
  qed
qed

definition sample_hook :: "u32 \<Rightarrow> hooks" where
  "sample_hook t = (empty_hooks (\<lambda>_. 0x55))\<lparr>isize := 1, item := \<lambda>_. \<lparr>target_addr = t, new_addr = 0x12345678,
    proto_addr = 0, orig_instructions = replicate 12 0x55, boundaries = replicate 24 0, hcount = 6,
    trampoline_instructions = 0x20000, hlength = 12, hstatus = REGISTERED\<rparr>\<rparr>"

theorem hook_installs_jump_witness:
  "get16 0x8002 (hmem (doInlineHook 0 (sample_hook 0x8003))) = 0xBF00 \<and>
   get16 0x8004 (hmem (doInlineHook 0 (sample_hook 0x8003))) = 0xF8DF \<and>
   get16 0x8008 (hmem (doInlineHook 0 (sample_hook 0x8003))) = 0x5678 \<and>
   get16 0x800A (hmem (doInlineHook 0 (sample_hook 0x8003))) = 0x1234"
proof -
  have "item_ok (item (sample_hook 0x8003) 0)" by (simp add: sample_hook_def item_ok_def TEST_BIT0_def)
  from hook_installs_jump [OF this] show ?thesis
    by (simp add: sample_hook_def TEST_BIT0_def CLEAR_BIT0_def)
qed

text \<open>The boundary counter of a slot is never reset: the eleventh time one ARM function is registered,
  hooked and unhooked, registration writes past the end of the boundary arrays.\<close>

theorem rehooking_overruns:
  assumes "isExecutableAddr ms t = Inr True" and "isExecutableAddr ms new = Inr True" and "\<not> TEST_BIT0 t"
    and "isize s = 0" and "hcount (item s 0) = 0"
  shows "(\<exists>s'. rehook ms page t new proto 10 s = Inr s') \<and> rehook ms page t new proto 11 s = Inl Array_Overflow"
proof -
  from rehook_many [OF assms(1-4), of 10 page proto] assms(5) obtain s' where s':
    "rehook ms page t new proto 10 s = Inr s'" "isize s' = 0" "hcount (item s' 0) = 20" by auto
  have "registerInlineHook ms page t new proto s' = Inl Array_Overflow"
    using assms s' relocate_arm_overflow [OF assms(3), of "read_bytes (CLEAR_BIT0 t) 8 (hmem s')" 20]
    by (simp add: register_executable registered_def findInlineHookItem_def addInlineHookItem_def Let_def)
  then have "rehook ms page t new proto (10 + 1) s = Inl Array_Overflow"
    using s'(1) by (simp only: rehook_add) simp
  then show ?thesis using s'(1) by simp
qed

theorem rehooking_overruns_witness:
  "rehook (Some sample_maps) 0x20000 0x8000 0x9000 0x30000 11 (empty_hooks (\<lambda>_. 0)) = Inl Array_Overflow"
  using rehooking_overruns [of "Some sample_maps" "0x8000" "0x9000" "empty_hooks (\<lambda>_. 0)" "0x20000" "0x30000"]
  by (simp add: sample_executable TEST_BIT0_def empty_hooks_def)

text \<open>The array of items is full at 1024. The next registration of an executable address that is not
  registered yet dereferences the null pointer \<open>addInlineHookItem\<close> returns; with space left it never does.\<close>

theorem register_beyond_capacity:
  assumes "isExecutableAddr ms t = Inr True" and "isExecutableAddr ms new = Inr True" and "findInlineHookItem t s = None"
    and "isize s \<le> 1024"
  shows "registerInlineHook ms page t new proto s = Inl Null_Deref \<longleftrightarrow> isize s = 1024"
proof (cases "isize s = 1024")
  case True
  then show ?thesis using assms by (simp add: register_executable registered_def addInlineHookItem_def)
next
  case False
  show ?thesis using False assms relocate_not_null
    by (auto simp: register_executable registered_def addInlineHookItem_def Let_def res_bind_def split: sum.splits)
qed

theorem register_beyond_capacity_witness:
  "registerInlineHook (Some sample_maps) 0x20000 0x8000 0x9000 0 ((empty_hooks (\<lambda>_. 0))\<lparr>isize := 1024\<rparr>) =
     Inl Null_Deref"
proof -
  have "findInlineHookItem 0x8000 ((empty_hooks (\<lambda>_. 0))\<lparr>isize := 1024\<rparr>) = None"
    by (simp add: find_item_None empty_hooks_def)
  then show ?thesis
    by (subst register_beyond_capacity) (simp_all add: sample_executable)
qed

text \<open>Unhooking any item but the last flushes the instruction cache of another function: the item is
  overwritten by the last one before its address and length are read.\<close>

theorem unhook_flushes_other:
  assumes "i < isize s" and "i \<noteq> isize s - 1"
  shows "flushed (doInlineUnHook i s) = flush_range (item s (isize s - 1)) # flushed s"
  using assms by (simp add: doInlineUnHook_def deleteInlineHookItem_def Let_def)

theorem unhook_flushes_other_witness:
  "flushed (doInlineUnHook 0 ((sample_hook 0x8001)\<lparr>isize := 2,
       item := (item (sample_hook 0x8001))(1 := item (sample_hook 0x9001) 0)\<rparr>)) = [(0x9000, 0x900C)]"
  using unhook_flushes_other [of 0 "(sample_hook 0x8001)\<lparr>isize := 2,
       item := (item (sample_hook 0x8001))(1 := item (sample_hook 0x9001) 0)\<rparr>"]
  by (simp add: sample_hook_def empty_hooks_def flush_range_def CLEAR_BIT0_def)

text \<open>A Thumb function that starts with six 16-bit instructions has more boundaries than the array of
  four: the offset of the fifth overwrites the trampoline offset of the first. A thread stopped at the
  start of the function would be moved eight bytes into the trampoline.\<close>

theorem boundary_arrays_overlap:
  "\<exists>code bounds. relocateInstructionInThumb (\<lambda>_. None) 0x8000 (replicate 6 0xBF00) 12 (0, replicate 24 0) =
     Inr (code, 6, bounds) \<and> bounds ! 4 = 8 \<and>
   doProcessThreadPC ((item (sample_hook 0x8001) 0)\<lparr>boundaries := bounds, hcount := 6\<rparr>) 0x8000 ACTION_ENABLE =
     Some 0x20008"
proof -
  have "relocateInstructionInThumb (\<lambda>_. None) 0x8000 (replicate 6 0xBF00) 12 (0, replicate 24 0) =
    Inr (replicate 12 0xBF00 @ [0xF8DF, 0xF000, 0x800D, 0],
      6, [0, 2, 4, 6, 8, 10] @ [8, 12, 16, 20] @ replicate 14 0)"
    by code_simp
  then show ?thesis
    by (auto simp: sample_hook_def doProcessThreadPC_def find_boundary_def CLEAR_BIT0_def upt_conv_Cons)
qed

end
