(* ===== verification/Inline_Hook64.thy ===== *)
theory Inline_Hook64
  imports Relocate32 Byte_Memory
begin

text \<open>
  The arm64 inline hooks (\<open>inline64/And64InlineHook.cpp\<close>): the head of a function is replaced by a jump
  to a proxy, and the instructions that were there are moved to a trampoline, where those that depend
  on their address are rewritten. Instruction and data memory is byte-addressed; the arithmetic
  follows the integer promotions of the source, so an offset that the source extends with zeros is
  extended with zeros here.
\<close>

section \<open>Fix-up tables\<close>

definition A64_MAX_INSTRUCTIONS :: nat where "A64_MAX_INSTRUCTIONS = 5"
definition A64_MAX_REFERENCES :: nat where "A64_MAX_REFERENCES = 10"
definition A64_NOP :: u32 where "A64_NOP = 0xD503201F"

record fix_info =
  fx_bp :: u64
  fx_ls :: nat
  fx_ad :: u32

record insns_info =
  ins_at :: u64
  fx_map :: "fix_info list"

text \<open>The context of a relocation, with the memory and the two cursors the fixers advance.\<close>

record a64 =
  basep :: u64
  endp :: u64
  dat :: "insns_info list"
  code :: "64 memory"
  inp :: u64
  outp :: u64

definition is_in_fixing_range :: "u64 \<Rightarrow> a64 \<Rightarrow> bool" where
  "is_in_fixing_range absolute_addr s \<longleftrightarrow> sint (basep s) \<le> sint absolute_addr \<and> sint absolute_addr < sint (endp s)"

definition get_ref_ins_index :: "u64 \<Rightarrow> a64 \<Rightarrow> nat" where
  "get_ref_ins_index absolute_addr s = unat ((absolute_addr - basep s) div 4)"

text \<open>\<open>reset_current_ins\<close>: instruction \<open>idx\<close> is now at the output cursor.\<close>

definition reset_current_ins :: "nat \<Rightarrow> a64 \<Rightarrow> a64 res" where
  "reset_current_ins idx s =
     (if idx < A64_MAX_INSTRUCTIONS then Inr (s\<lparr>dat := (dat s)[idx := (dat s ! idx)\<lparr>ins_at := outp s\<rparr>]\<rparr>)
      else Inl Array_Overflow)"

definition get_and_set_current_index :: "a64 \<Rightarrow> (nat \<times> a64) res" where
  "get_and_set_current_index s =
     (let current_idx = get_ref_ins_index (inp s) s
      in res_bind (reset_current_ins current_idx s) (\<lambda>s'. Inr (current_idx, s')))"

fun add_fix :: "fix_info \<Rightarrow> fix_info list \<Rightarrow> fix_info list" where
  "add_fix n [] = []"
| "add_fix n (f # fs) = (if fx_bp f = 0 then n # fs else f # add_fix n fs)"

definition insert_fix_map :: "nat \<Rightarrow> u64 \<Rightarrow> nat \<Rightarrow> u32 \<Rightarrow> a64 \<Rightarrow> a64 res" where
  "insert_fix_map idx bp ls ad s =
     (if idx < A64_MAX_INSTRUCTIONS
      then Inr (s\<lparr>dat := (dat s)[idx := (dat s ! idx)\<lparr>fx_map := add_fix \<lparr>fx_bp = bp, fx_ls = ls, fx_ad = ad\<rparr> (fx_map (dat s ! idx))\<rparr>]\<rparr>)
      else Inl Array_Overflow)"

fun apply_fixes :: "u64 \<Rightarrow> fix_info list \<Rightarrow> 64 memory \<Rightarrow> fix_info list \<times> 64 memory" where
  "apply_fixes at [] m = ([], m)"
| "apply_fixes at (f # fs) m =
     (if fx_bp f = 0 then (f # fs, m)
      else let w = get32 (fx_bp f) m OR (push_bit (fx_ls f) (signed_drop_bit 2 (ucast (at - fx_bp f))) AND fx_ad f);
               (fs', m') = apply_fixes at fs (write_bytes (fx_bp f) (le32 w) m)
           in (f\<lparr>fx_bp := 0\<rparr> # fs', m'))"

definition process_fix_map :: "nat \<Rightarrow> a64 \<Rightarrow> a64 res" where
  "process_fix_map idx s =
     (if idx < A64_MAX_INSTRUCTIONS
      then let (fs, m) = apply_fixes (ins_at (dat s ! idx)) (fx_map (dat s ! idx)) (code s)
        in Inr (s\<lparr>dat := (dat s)[idx := (dat s ! idx)\<lparr>fx_map := fs\<rparr>], code := m\<rparr>)
      else Inl Array_Overflow)"

section \<open>Emitting code\<close>

definition emit_bytes :: "u8 list \<Rightarrow> a64 \<Rightarrow> a64" where
  "emit_bytes bs s = s\<lparr>code := write_bytes (outp s) bs (code s), outp := outp s + word_of_nat (length bs)\<rparr>"

definition emit :: "u32 \<Rightarrow> a64 \<Rightarrow> a64" where
  "emit w = emit_bytes (le32 w)"

fun emit_all :: "u32 list \<Rightarrow> a64 \<Rightarrow> a64" where
  "emit_all [] s = s"
| "emit_all (w # ws) s = emit_all ws (emit w s)"

text \<open>One \<open>NOP\<close> in front of the code, where a literal behind it would not be aligned.\<close>

definition nop_if :: "bool \<Rightarrow> nat \<Rightarrow> a64 \<Rightarrow> a64 res" where
  "nop_if c idx s = (if c then reset_current_ins idx (emit A64_NOP s) else Inr s)"

text \<open>The loops that emit \<open>NOP\<close>s until a condition holds; four are enough for word-aligned cursors.\<close>

fun pad_until :: "nat \<Rightarrow> (a64 \<Rightarrow> bool) \<Rightarrow> a64 \<Rightarrow> a64 res" where
  "pad_until 0 P s = (if P s then Inr s else Inl No_Return)"
| "pad_until (Suc n) P s = (if P s then Inr s else pad_until n P (emit A64_NOP s))"

definition llabs :: "u64 \<Rightarrow> int" where
  "llabs x = \<bar>sint x\<bar>"

text \<open>
  The offset to encode for a target within the instructions that are moved: to where the target has
  been moved, or 0 for now with an entry in the target's fix-up table.
\<close>

definition resolve :: "bool \<Rightarrow> nat \<Rightarrow> nat \<Rightarrow> (u64 \<Rightarrow> u64) \<Rightarrow> u64 \<Rightarrow> nat \<Rightarrow> u32 \<Rightarrow> a64 \<Rightarrow> (u64 \<times> a64) res" where
  "resolve special ref_idx current_idx rel new_pc_offset ls ad s =
     (if \<not> special then Inr (new_pc_offset, s)
      else if ref_idx \<le> current_idx then Inr (rel (ins_at (dat s ! ref_idx) - outp s), s)
      else res_bind (insert_fix_map ref_idx (outp s) ls ad s) (\<lambda>s'. Inr (0, s')))"

definition finish :: "nat \<Rightarrow> a64 \<Rightarrow> a64 res" where
  "finish current_idx s = process_fix_map current_idx (s\<lparr>inp := inp s + 4\<rparr>)"

section \<open>The four fixers\<close>

text \<open>
  Each fixer looks at the instruction at the input cursor. \<open>None\<close> stands for the answer \<open>false\<close>: not an
  instruction of this kind, nothing done. The code for the instruction is emitted by a function of its
  own, run after the instruction's place in the output has been noted.
\<close>

definition branch_code :: "u32 \<Rightarrow> nat \<Rightarrow> a64 \<Rightarrow> a64 res" where
  "branch_code ins current_idx s =
     (let opc = ins AND 0xFC000000;
          absolute_addr = inp s + scast (signed_drop_bit 4 (push_bit 6 ins));
          new_pc_offset = signed_drop_bit 2 (absolute_addr - outp s);
          special = is_in_fixing_range absolute_addr s;
          b_aligned = ((outp s + 8) AND 7 = 0)
      in if \<not> special \<and> 0x1FFFFFF \<le> llabs new_pc_offset then
           if opc = 0x14000000 then
             res_bind (nop_if (\<not> b_aligned) current_idx s) (\<lambda>s2.
               Inr (emit_bytes (le64 absolute_addr) (emit_all [0x58000051, 0xD61F0220] s2)))
           else
             res_bind (nop_if b_aligned current_idx s) (\<lambda>s2.
               Inr (emit_bytes (le64 absolute_addr) (emit_all [0x58000071, 0x1000009E, 0xD61F0220] s2)))
         else
           res_bind (resolve special (get_ref_ins_index absolute_addr s) current_idx (signed_drop_bit 2)
               new_pc_offset 0 0x3FFFFFF s)
             (\<lambda>(off, s2). Inr (emit (opc OR ucast (off AND 0x3FFFFFF)) s2)))"

definition fix_branch_imm :: "a64 \<Rightarrow> a64 res option" where
  "fix_branch_imm s =
     (let ins = get32 (inp s) (code s); opc = ins AND 0xFC000000
      in if opc \<noteq> 0x14000000 \<and> opc \<noteq> 0x94000000 then None
         else Some (res_bind (get_and_set_current_index s) (\<lambda>(current_idx, s1).
           res_bind (branch_code ins current_idx s1) (finish current_idx))))"

text \<open>The bits of a conditional branch that are not its offset.\<close>

definition cond_mask :: "u32 \<Rightarrow> u32 option" where
  "cond_mask ins =
     (if ins AND 0xFF000010 = 0x54000000 then Some 0xFF00001F
      else if ins AND 0x7F000000 = 0x34000000 \<or> ins AND 0x7F000000 = 0x35000000 then Some 0xFF00001F
      else if ins AND 0x7F000000 = 0x36000000 \<or> ins AND 0x7F000000 = 0x37000000 then Some 0xFFF8001F
      else None)"

definition cond_code :: "u32 \<Rightarrow> u32 \<Rightarrow> nat \<Rightarrow> a64 \<Rightarrow> a64 res" where
  "cond_code ins lmask current_idx s =
     (let absolute_addr = inp s + ucast (drop_bit 3 (ins AND NOT lmask));
          new_pc_offset = signed_drop_bit 2 (absolute_addr - outp s);
          special = is_in_fixing_range absolute_addr s
      in if \<not> special \<and> uint (drop_bit 6 (NOT lmask)) \<le> llabs new_pc_offset then
           res_bind (nop_if ((outp s + 16) AND 7 \<noteq> 0) current_idx s) (\<lambda>s2.
             Inr (emit_bytes (le64 absolute_addr)
               (emit_all [(0x40 AND NOT lmask) OR (ins AND lmask), 0x14000005, 0x58000051, 0xD61F0220] s2)))
         else
           res_bind (resolve special (get_ref_ins_index absolute_addr s) current_idx (signed_drop_bit 2)
               new_pc_offset 5 (NOT lmask) s)
             (\<lambda>(off, s2). Inr (emit ((ucast (push_bit 5 off) AND NOT lmask) OR (ins AND lmask)) s2)))"

definition fix_cond_comp_test_branch :: "a64 \<Rightarrow> a64 res option" where
  "fix_cond_comp_test_branch s =
     (let ins = get32 (inp s) (code s)
      in case cond_mask ins of
           None \<Rightarrow> None
         | Some lmask \<Rightarrow> Some (res_bind (get_and_set_current_index s) (\<lambda>(current_idx, s1).
             res_bind (cond_code ins lmask current_idx s1) (finish current_idx))))"

text \<open>The mask and the alignment mask of a load from a literal.\<close>

definition loadlit_kind :: "u32 \<Rightarrow> (u32 \<times> nat) option" where
  "loadlit_kind ins =
     (let faligned = (if ins AND 0x40000000 \<noteq> 0 then 7 else 3)
      in if ins AND 0xBF000000 = 0x18000000 then Some (0xBF000000, faligned)
         else let faligned2 = (if faligned \<noteq> 7 then (if ins AND 0x80000000 \<noteq> 0 then 15 else 3) else faligned)
           in if ins AND 0x3F000000 = 0x1C000000 then Some (0x3F000000, faligned2)
              else if ins AND 0xFF000000 = 0x98000000 then Some (0xFF000000, 7)
              else None)"

definition loadlit_code :: "u32 \<Rightarrow> u32 \<Rightarrow> nat \<Rightarrow> nat \<Rightarrow> a64 \<Rightarrow> a64 res" where
  "loadlit_code ins msk faligned current_idx s =
     (let absolute_addr = inp s + ucast (signed_drop_bit 11 (push_bit 8 ins) AND NOT 3);
          new_pc_offset = signed_drop_bit 2 (absolute_addr - outp s);
          special = is_in_fixing_range absolute_addr s
      in if special \<or> 0x3FFFF \<le> llabs new_pc_offset + (int faligned + 1 - 4) div 4 then
           res_bind (pad_until 4 (\<lambda>t. (outp t + 8) AND word_of_nat faligned = 0) s) (\<lambda>s2.
           res_bind (reset_current_ins current_idx s2) (\<lambda>s3.
             let ns = (faligned + 1) div 4;
                 s4 = emit_all [(0x40 AND NOT msk) OR (ins AND 0xFF00001F), 0x14000001 + word_of_nat ns] s3
             in Inr (emit_bytes (read_bytes absolute_addr (faligned + 1) (code s4)) s4)))
         else
           res_bind (pad_until 4 (\<lambda>t. signed_drop_bit 2 (absolute_addr - outp t) AND word_of_nat (faligned div 4) = 0) s) (\<lambda>s2.
           res_bind (reset_current_ins current_idx s2) (\<lambda>s3.
             let off = signed_drop_bit 2 (absolute_addr - outp s3)
             in Inr (emit ((ucast (push_bit 5 off) AND NOT msk) OR (ins AND 0xFF00001F)) s3))))"

definition fix_loadlit :: "a64 \<Rightarrow> a64 res option" where
  "fix_loadlit s =
     (let ins = get32 (inp s) (code s)
      in if ins AND 0xFF000000 = 0xD8000000 then
           Some (res_bind (get_and_set_current_index s) (\<lambda>(current_idx, s1). finish current_idx s1))
         else case loadlit_kind ins of
           None \<Rightarrow> None
         | Some (msk, faligned) \<Rightarrow> Some (res_bind (get_and_set_current_index s) (\<lambda>(current_idx, s1).
             res_bind (loadlit_code ins msk faligned current_idx s1) (finish current_idx))))"

definition adr_code :: "u32 \<Rightarrow> nat \<Rightarrow> a64 \<Rightarrow> a64 res" where
  "adr_code ins current_idx s =
     (let lsb_bytes = drop_bit 30 (push_bit 1 ins);
          absolute_addr = inp s + (ucast (signed_drop_bit 11 (push_bit 8 ins) AND NOT 3) OR ucast lsb_bytes);
          new_pc_offset = absolute_addr - outp s;
          special = is_in_fixing_range absolute_addr s
      in if \<not> special \<and> 0xFFFFF \<le> llabs new_pc_offset then
           res_bind (nop_if ((outp s + 8) AND 7 \<noteq> 0) current_idx s) (\<lambda>s2.
             Inr (emit_bytes (le64 absolute_addr) (emit_all [0x58000000 OR 0x40 OR (ins AND 0x1F), 0x14000003] s2)))
         else
           res_bind (resolve special (get_ref_ins_index (absolute_addr AND NOT 3) s) current_idx id new_pc_offset 5 0xFFFFFF s)
             (\<lambda>(off, s2). Inr (emit ((ucast (push_bit 3 off) AND 0xFFFFFF) OR (ins AND 0xFF00001F)) s2)))"

definition adrp_code :: "u32 \<Rightarrow> nat \<Rightarrow> a64 \<Rightarrow> a64 res" where
  "adrp_code ins current_idx s =
     (let lsb_bytes = drop_bit 30 (push_bit 1 ins);
          absolute_addr = (inp s AND NOT 0xFFF) +
            ucast (push_bit 12 ((signed_drop_bit 11 (push_bit 8 ins) AND NOT 3) OR lsb_bytes))
      in if is_in_fixing_range absolute_addr s then Inr (emit ins s)
         else
           res_bind (nop_if ((outp s + 8) AND 7 \<noteq> 0) current_idx s) (\<lambda>s2.
             Inr (emit_bytes (le64 absolute_addr) (emit_all [0x58000000 OR 0x40 OR (ins AND 0x1F), 0x14000003] s2))))"

definition fix_pcreladdr :: "a64 \<Rightarrow> a64 res option" where
  "fix_pcreladdr s =
     (let ins = get32 (inp s) (code s)
      in if ins AND 0x9F000000 = 0x10000000 then
           Some (res_bind (get_and_set_current_index s) (\<lambda>(current_idx, s1).
             res_bind (adr_code ins current_idx s1) (finish current_idx)))
         else if ins AND 0x9F000000 = 0x90000000 then
           Some (res_bind (get_and_set_current_index s) (\<lambda>(current_idx, s1).
             res_bind (adrp_code ins current_idx s1) (finish current_idx)))
         else None)"

section \<open>Moving the head of a function\<close>

definition fix_plain :: "a64 \<Rightarrow> a64 res" where
  "fix_plain s =
     res_bind (get_and_set_current_index s) (\<lambda>(current_idx, s1).
     res_bind (process_fix_map current_idx s1) (\<lambda>s2.
     Inr ((emit (get32 (inp s2) (code s2)) s2)\<lparr>inp := inp s2 + 4\<rparr>)))"

definition fix_one :: "a64 \<Rightarrow> a64 res" where
  "fix_one s =
     (case fix_branch_imm s of Some r \<Rightarrow> r | None \<Rightarrow>
      case fix_cond_comp_test_branch s of Some r \<Rightarrow> r | None \<Rightarrow>
      case fix_loadlit s of Some r \<Rightarrow> r | None \<Rightarrow>
      case fix_pcreladdr s of Some r \<Rightarrow> r | None \<Rightarrow> fix_plain s)"

fun fix_loop :: "nat \<Rightarrow> a64 \<Rightarrow> a64 res" where
  "fix_loop 0 s = Inr s"
| "fix_loop (Suc count) s = res_bind (fix_one s) (fix_loop count)"

text \<open>The jump back behind the moved instructions.\<close>

definition jump_back :: "a64 \<Rightarrow> a64" where
  "jump_back s =
     (let callback = inp s; pc_offset = signed_drop_bit 2 (callback - outp s)
      in if 0x1FFFFFF \<le> llabs pc_offset then
           let s1 = (if (outp s + 8) AND 7 \<noteq> 0 then emit A64_NOP s else s)
           in emit_bytes (le64 callback) (emit_all [0x58000051, 0xD61F0220] s1)
         else emit (0x14000000 OR ucast (pc_offset AND 0x3FFFFFF)) s)"

definition no_fixes :: "insns_info list" where
  "no_fixes = replicate A64_MAX_INSTRUCTIONS
     \<lparr>ins_at = 0, fx_map = replicate A64_MAX_REFERENCES \<lparr>fx_bp = 0, fx_ls = 0, fx_ad = 0\<rparr>\<rparr>"

definition start_fixing :: "u64 \<Rightarrow> nat \<Rightarrow> u64 \<Rightarrow> 64 memory \<Rightarrow> a64" where
  "start_fixing inp0 count outp0 m =
     \<lparr>basep = inp0, endp = inp0 + word_of_nat (4 * count), dat = no_fixes, code = m, inp = inp0, outp = outp0\<rparr>"

definition fix_instructions :: "u64 \<Rightarrow> nat \<Rightarrow> u64 \<Rightarrow> 64 memory \<Rightarrow> a64 res" where
  "fix_instructions inp0 count outp0 m =
     res_bind (fix_loop count (start_fixing inp0 count outp0 m)) (\<lambda>s. Inr (jump_back s))"

section \<open>Installing a hook\<close>

definition A64_MAX_BACKUPS :: nat where "A64_MAX_BACKUPS = 256"

definition page_align :: "u64 \<Rightarrow> u64" where
  "page_align n = (n + 0xFFF) AND NOT 0xFFF"

definition ptr_align :: "u64 \<Rightarrow> u64" where
  "ptr_align p = p AND - 0x1000"

text \<open>The range that is made writable for \<open>n\<close> bytes at \<open>p\<close>.\<close>

definition rwx_range :: "u64 \<Rightarrow> u64 \<Rightarrow> u64 \<times> u64" where
  "rwx_range p n =
     (ptr_align p, if page_align (p + n) \<noteq> page_align p then page_align n + 0x1000 else page_align n)"

text \<open>\<open>mprot\<close> is whether \<open>mprotect\<close> succeeds on a range.\<close>

definition A64HookFunctionV :: "(u64 \<Rightarrow> u64 \<Rightarrow> bool) \<Rightarrow> u64 \<Rightarrow> u64 \<Rightarrow> u64 \<Rightarrow> u64 \<Rightarrow> 64 memory \<Rightarrow> (u64 \<times> 64 memory) res" where
  "A64HookFunctionV mprot symbol replace rwx rwx_size m =
     (let pc_offset = signed_drop_bit 2 (replace - symbol)
      in if 0x1FFFFFF \<le> llabs pc_offset then
           let count = (if (symbol + 8) AND 7 \<noteq> 0 then 5 else 4)
           in if rwx \<noteq> 0 \<and> rwx_size < word_of_nat (count * 10) then Inr (0, m)
              else res_bind (if rwx \<noteq> 0 then res_bind (fix_instructions symbol count rwx m) (\<lambda>s. Inr (code s)) else Inr m) (\<lambda>m1.
                if (\<lambda>(p, n). mprot p n) (rwx_range symbol 20) then
                  let bytes = (if count = 5 then le32 A64_NOP else []) @ le32 0x58000051 @ le32 0xD61F0220 @ le64 replace
                  in Inr (rwx, write_bytes symbol bytes m1)
                else Inr (0, m1))
         else if rwx \<noteq> 0 \<and> rwx_size < 10 then Inr (0, m)
         else res_bind (if rwx \<noteq> 0 then res_bind (fix_instructions symbol 1 rwx m) (\<lambda>s. Inr (code s)) else Inr m) (\<lambda>m1.
           if (\<lambda>(p, n). mprot p n) (rwx_range symbol 4) then
             Inr (rwx, write_bytes symbol (le32 (0x14000000 OR ucast (pc_offset AND 0x3FFFFFF))) m1)
           else Inr (0, m1)))"

text \<open>The pool of trampolines: 256 rows of 50 words at \<open>pool_base\<close>; the index starts at -1.\<close>

record hook64 =
  h_mem :: "64 memory"
  pool_index :: u32

definition FastAllocateTrampoline :: "u64 \<Rightarrow> hook64 \<Rightarrow> u64 \<times> hook64" where
  "FastAllocateTrampoline pool_base h =
     (let i = pool_index h + 1; h' = h\<lparr>pool_index := i\<rparr>
      in if 0 \<le> sint i \<and> sint i < int A64_MAX_BACKUPS
         then (pool_base + word_of_nat (unat i * (A64_MAX_INSTRUCTIONS * 10 * 4)), h')
         else (0, h'))"

text \<open>\<open>result\<close> is the address of the pointer for the trampoline, or null.\<close>

definition A64HookFunction :: "(u64 \<Rightarrow> u64 \<Rightarrow> bool) \<Rightarrow> u64 \<Rightarrow> u64 \<Rightarrow> u64 \<Rightarrow> u64 \<Rightarrow> hook64 \<Rightarrow> hook64 res" where
  "A64HookFunction mprot pool_base symbol replace result h =
     (let (trampoline, h1) = (if result \<noteq> 0 then FastAllocateTrampoline pool_base h else (0, h));
          h2 = (if result \<noteq> 0 then h1\<lparr>h_mem := write_bytes result (le64 trampoline) (h_mem h1)\<rparr> else h1)
      in if result \<noteq> 0 \<and> trampoline = 0 then Inr h2
         else res_bind (A64HookFunctionV mprot symbol replace trampoline (word_of_nat (A64_MAX_INSTRUCTIONS * 10)) (h_mem h2))
           (\<lambda>(t, m). Inr (h2\<lparr>h_mem := if t = 0 \<and> result \<noteq> 0 then write_bytes result (le64 0) m else m\<rparr>)))"


section \<open>Aligned addresses\<close>

lemma twelve: "(12 :: u64) = ones 2 2" "(3 :: u64) = mask 2"
  by (simp_all add: ones_def mask_numeral)

lemma and12: "y AND 12 = (take_bit 4 y AND 12 :: u64)"
  unfolding twelve by (rule bit_word_eqI) (auto simp: bit_simps)

lemma take_bit_of_nat64: "take_bit 4 (word_of_nat n :: u64) = word_of_nat (n mod 16)"
proof -
  have "take_bit 4 (word_of_nat n :: u64) = word_of_nat (take_bit 4 n)" by (rule bit_word_eqI) (auto simp: bit_simps)
  then show ?thesis by (simp add: take_bit_eq_mod)
qed

lemma low_two: "n mod 16 < 4 \<Longrightarrow> take_bit 4 (word_of_nat n) AND 12 = (0 :: u64)"
proof -
  assume "n mod 16 < 4"
  then have "n mod 16 \<in> {0, 1, 2, 3}" by auto
  then show ?thesis unfolding take_bit_of_nat64 by auto
qed

lemma pad_align: "\<exists>j\<le>3. (x + word_of_nat (4 * j)) AND 12 = (0 :: u64)"
proof -
  define k where "k = unat x"
  have "\<exists>j\<le>3. (k + 4 * j) mod 16 < 4" by presburger
  then obtain j where j: "j \<le> 3" "(k + 4 * j) mod 16 < 4" by blast
  have "x + word_of_nat (4 * j) = word_of_nat (k + 4 * j)" by (simp add: k_def)
  then have "(x + word_of_nat (4 * j)) AND 12 = 0" using low_two [OF j(2)] and12 by metis
  with j(1) show ?thesis by blast
qed

lemma pad_align_sub: "\<exists>j\<le>3. (x - word_of_nat (4 * j)) AND 12 = (0 :: u64)"
proof -
  obtain j where j: "j \<le> 3" "((x - 12) + word_of_nat (4 * j)) AND 12 = (0 :: u64)" using pad_align [of "x - 12"] by blast
  have "x - word_of_nat (4 * (3 - j)) = (x - 12) + word_of_nat (4 * j)"
    using j(1) by (simp add: of_nat_diff)
  then show ?thesis using j(2) by (metis diff_le_self)
qed

lemma and_not_3: "unat (a AND NOT 3) = 4 * (unat (a :: u64) div 4)"
proof -
  have "a AND NOT 3 = push_bit 2 (drop_bit 2 a)"
  proof -
    have "Suc (Suc (n - 2)) = n" if "2 \<le> n" for n using that by simp
    then show ?thesis unfolding twelve by (intro bit_word_eqI) (auto simp: bit_simps not_less)
  qed
  moreover have "take_bit 64 (unat a) = unat a" using unsigned_less [where w = a and 'a = nat] by (intro take_bit_nat_eq_self) simp
  then have "unat (push_bit 2 (drop_bit 2 a)) = take_bit 64 (push_bit 2 (drop_bit 2 (unat a)))"
    by (simp only: unsigned_push_bit_eq unsigned_drop_bit_eq) simp
  ultimately have "unat (a AND NOT 3) = take_bit 64 (4 * (unat a div 4))"
    by (simp add: push_bit_eq_mult drop_bit_eq_div mult.commute)
  moreover have "4 * (unat a div 4) < 2 ^ 64" using unsigned_less [where w = a and 'a = nat] by simp
  ultimately show ?thesis by (simp add: take_bit_nat_eq_self)
qed

lemma nonneg_uint: "0 \<le> sint (a :: u64) \<Longrightarrow> sint a = int (unat a)"
proof -
  assume "0 \<le> sint a"
  then have "\<not> bit a 63" by (simp add: sint_uint bit_uint_iff)
  moreover have "take_bit 64 (uint a) = uint a" using uint_lt2p [of a] by (intro take_bit_int_eq_self) auto
  ultimately show "sint a = int (unat a)"
    by (simp add: sint_uint signed_take_bit_eq_take_bit_minus bit_uint_iff)
qed

section \<open>The trampoline fits\<close>

text \<open>
  \<open>fitting b m c n f s\<close>: \<open>n\<close> words have been emitted from \<open>b\<close>, nothing else of the memory \<open>m\<close> has changed,
  and every pending fix-up is for one of the first \<open>f\<close> words; the instructions moved are \<open>c\<close>.
\<close>

definition at_word :: "u64 \<Rightarrow> nat \<Rightarrow> u64" where
  "at_word b j = b + word_of_nat (4 * j)"

definition pending :: "u64 \<Rightarrow> nat \<Rightarrow> insns_info list \<Rightarrow> bool" where
  "pending b f es \<longleftrightarrow> (\<forall>e\<in>set es. \<forall>fx\<in>set (fx_map e). fx_bp fx \<in> insert 0 (at_word b ` {..<f}))"

lemma pending_update:
  "pending b f es \<Longrightarrow> \<forall>fx\<in>set (fx_map e). fx_bp fx \<in> insert 0 (at_word b ` {..<f}) \<Longrightarrow> pending b f (es[i := e])"
  unfolding pending_def using set_update_subset_insert [of es i e] by blast

lemma pending_mono: "pending b f es \<Longrightarrow> f \<le> f' \<Longrightarrow> pending b f' es"
  unfolding pending_def by fastforce

lemma pending_nth: "pending b f es \<Longrightarrow> i < length es \<Longrightarrow> \<forall>fx\<in>set (fx_map (es ! i)). fx_bp fx \<in> insert 0 (at_word b ` {..<f})"
  unfolding pending_def by (meson nth_mem)

definition fitting :: "u64 \<Rightarrow> 64 memory \<Rightarrow> nat \<Rightarrow> nat \<Rightarrow> nat \<Rightarrow> a64 \<Rightarrow> bool" where
  "fitting b m c n f s \<longleftrightarrow> length (dat s) = A64_MAX_INSTRUCTIONS \<and> outp s = at_word b n \<and>
     endp s = basep s + word_of_nat (4 * c) \<and> c \<le> 5 \<and> basep s AND 3 = 0 \<and> 0 \<le> sint (basep s) \<and> sint (basep s) + 20 < 2 ^ 63 \<and>
     (\<forall>x. x \<notin> region b (4 * n) \<longrightarrow> code s x = m x) \<and> pending b f (dat s)"

lemma word_region: "j < n \<Longrightarrow> region (at_word b j) 4 \<subseteq> region b (4 * n)"
proof
  fix x assume "j < n" "x \<in> region (at_word b j) 4"
  then obtain i where "i < 4" "x = b + word_of_nat (4 * j + i)"
    by (auto simp: at_word_def add.assoc elim!: region_memE)
  moreover have "4 * j + i < 4 * n" using \<open>j < n\<close> \<open>i < 4\<close> by linarith
  ultimately show "x \<in> region b (4 * n)" using region_memI [of "4 * j + i" "4 * n" b] by simp
qed

lemma region_from: "region (at_word b n) (4 * k) \<subseteq> region b (4 * (n + k))"
proof
  fix x assume "x \<in> region (at_word b n) (4 * k)"
  then obtain i where "i < 4 * k" "x = b + word_of_nat (4 * n + i)"
    by (auto simp: at_word_def add.assoc elim!: region_memE)
  then show "x \<in> region b (4 * (n + k))" using region_memI [of "4 * n + i" "4 * (n + k)" b] by simp
qed

lemma fitting_bytes:
  assumes "fitting b m c n f s" and "length bs = 4 * k"
  shows "fitting b m c (n + k) f (emit_bytes bs s)"
proof -
  have "write_bytes (outp s) bs (code s) x = m x" if "x \<notin> region b (4 * (n + k))" for x
  proof -
    have "x \<notin> region b (4 * n)" using that region_mono [of "4 * n" "4 * (n + k)" b] by auto
    moreover have "x \<notin> region (outp s) (length bs)"
      using that region_from [of b n k] assms by (auto simp: fitting_def)
    ultimately show ?thesis using assms(1) by (simp add: write_bytes_other fitting_def)
  qed
  then show ?thesis using assms by (auto simp: fitting_def emit_bytes_def at_word_def algebra_simps)
qed

lemma fitting_emit: "fitting b m c n f s \<Longrightarrow> fitting b m c (Suc n) f (emit w s)"
  using fitting_bytes [of b m c n f s "le32 w" 1] by (simp add: emit_def)

lemma fitting_emit_all: "fitting b m c n f s \<Longrightarrow> fitting b m c (n + length ws) f (emit_all ws s)"
  by (induction ws arbitrary: s n) (use fitting_emit in fastforce)+

lemma fitting_reset:
  assumes "fitting b m c n f s" and "idx < A64_MAX_INSTRUCTIONS"
  shows "\<exists>s'. reset_current_ins idx s = Inr s' \<and> fitting b m c n f s' \<and> basep s' = basep s \<and> inp s' = inp s \<and> outp s' = outp s \<and> code s' = code s"
proof -
  have p: "pending b f (dat s)" "idx < length (dat s)" using assms by (simp_all add: fitting_def)
  have "pending b f ((dat s)[idx := (dat s ! idx)\<lparr>ins_at := outp s\<rparr>])"
    by (rule pending_update [OF p(1)]) (use pending_nth [OF p] in simp)
  then show ?thesis using assms by (simp add: reset_current_ins_def fitting_def)
qed

lemma set_add_fix: "set (add_fix x fs) \<subseteq> insert x (set fs)"
  by (induction fs) auto

lemma fitting_insert:
  assumes "fitting b m c n n s" and "idx < A64_MAX_INSTRUCTIONS"
  shows "\<exists>s'. insert_fix_map idx (outp s) ls ad s = Inr s' \<and> fitting b m c n (Suc n) s' \<and> basep s' = basep s \<and> inp s' = inp s"
proof -
  let ?e = "(dat s ! idx)\<lparr>fx_map := add_fix \<lparr>fx_bp = outp s, fx_ls = ls, fx_ad = ad\<rparr> (fx_map (dat s ! idx))\<rparr>"
  have p: "pending b (Suc n) (dat s)" "idx < length (dat s)"
    using assms pending_mono [of b n "dat s" "Suc n"] by (simp_all add: fitting_def)
  have "outp s = at_word b n" using assms(1) by (simp add: fitting_def)
  then have "\<forall>fx\<in>set (fx_map ?e). fx_bp fx \<in> insert 0 (at_word b ` {..<Suc n})"
    using pending_nth [OF p] set_add_fix [of "\<lparr>fx_bp = outp s, fx_ls = ls, fx_ad = ad\<rparr>" "fx_map (dat s ! idx)"]
    by (auto dest!: subsetD)
  then have "pending b (Suc n) ((dat s)[idx := ?e])" by (rule pending_update [OF p(1)])
  then show ?thesis using assms by (simp add: insert_fix_map_def fitting_def)
qed

lemma apply_fixes_inside:
  assumes "\<forall>fx\<in>set fs. fx_bp fx = 0 \<or> region (fx_bp fx) 4 \<subseteq> R" and "apply_fixes at fs m = (fs', m')"
  shows "(\<forall>x. x \<notin> R \<longrightarrow> m' x = m x) \<and> (\<forall>fx\<in>set fs'. fx_bp fx = 0 \<or> fx_bp fx \<in> fx_bp ` set fs)"
  using assms
proof (induction fs arbitrary: m fs' m')
  case (Cons f fs)
  show ?case
  proof (cases "fx_bp f = 0")
    case False
    define w where "w = get32 (fx_bp f) m OR (push_bit (fx_ls f) (signed_drop_bit 2 (ucast (at - fx_bp f))) AND fx_ad f)"
    obtain gs m2 where r: "apply_fixes at fs (write_bytes (fx_bp f) (le32 w) m) = (gs, m2)" by fastforce
    then have e: "fs' = f\<lparr>fx_bp := 0\<rparr> # gs" "m' = m2" using Cons.prems(2) False by (auto simp: Let_def w_def)
    have "(\<forall>x. x \<notin> R \<longrightarrow> m2 x = write_bytes (fx_bp f) (le32 w) m x) \<and> (\<forall>fx\<in>set gs. fx_bp fx = 0 \<or> fx_bp fx \<in> fx_bp ` set fs)"
      using Cons.IH [OF _ r] Cons.prems(1) by simp
    moreover have "write_bytes (fx_bp f) (le32 w) m x = m x" if "x \<notin> R" for x
      using that Cons.prems(1) False by (intro write_bytes_other) auto
    ultimately show ?thesis using e by auto
  qed (use Cons.prems in auto)
qed auto

lemma fitting_process:
  assumes "fitting b m c n n s" and "idx < A64_MAX_INSTRUCTIONS"
  shows "\<exists>s'. process_fix_map idx s = Inr s' \<and> fitting b m c n n s' \<and> basep s' = basep s \<and> inp s' = inp s \<and> outp s' = outp s"
proof -
  obtain fs m' where r: "apply_fixes (ins_at (dat s ! idx)) (fx_map (dat s ! idx)) (code s) = (fs, m')" by fastforce
  have p: "pending b n (dat s)" "idx < length (dat s)" using assms by (simp_all add: fitting_def)
  have "\<forall>fx\<in>set (fx_map (dat s ! idx)). fx_bp fx = 0 \<or> region (fx_bp fx) 4 \<subseteq> region b (4 * n)"
    using pending_nth [OF p] word_region by (metis (no_types, lifting) imageE insertE lessThan_iff)
  from apply_fixes_inside [OF this r] have fs: "\<forall>x. x \<notin> region b (4 * n) \<longrightarrow> m' x = code s x"
    "\<forall>fx\<in>set fs. fx_bp fx = 0 \<or> fx_bp fx \<in> fx_bp ` set (fx_map (dat s ! idx))" by blast+
  have "fx_bp fx \<in> insert 0 (at_word b ` {..<n})" if "fx \<in> set fs" for fx
    using fs(2) [rule_format, OF that] pending_nth [OF p] by auto
  then have "pending b n ((dat s)[idx := (dat s ! idx)\<lparr>fx_map := fs\<rparr>])" by (intro pending_update [OF p(1)]) simp
  then show ?thesis using assms fs(1) r by (auto simp: process_fix_map_def fitting_def)
qed

lemma fitting_mono: "fitting b m c n f s \<Longrightarrow> f \<le> f' \<Longrightarrow> fitting b m c n f' s"
  using pending_mono unfolding fitting_def by blast

lemma sint_shift:
  fixes a :: u64
  assumes "0 \<le> sint a" and "sint a + int k < 2 ^ 63"
  shows "sint (a + word_of_nat k) = sint a + int k"
proof -
  have "sint (word_of_nat k :: u64) = int k"
    using assms by (simp add: signed_of_nat signed_take_bit_int_eq_self)
  then show ?thesis using assms by (simp add: sint_word_add signed_take_bit_int_eq_self)
qed

lemma ref_in_range:
  assumes "fitting b m c n f s" and "is_in_fixing_range a s"
  shows "get_ref_ins_index a s < A64_MAX_INSTRUCTIONS" "get_ref_ins_index (a AND NOT 3) s < A64_MAX_INSTRUCTIONS"
proof -
  note fit = assms(1) [unfolded fitting_def]
  define u where "u = unat (basep s)"
  have sb: "sint (basep s) = int u" using fit nonneg_uint by (simp add: u_def)
  have "sint (basep s) + int (4 * c) < 2 ^ 63" using fit by simp
  then have "sint (endp s) = int u + int (4 * c)" using fit sint_shift [of "basep s" "4 * c"] sb by simp
  moreover have "sint a = int (unat a)" using assms(2) sb by (intro nonneg_uint) (simp add: is_in_fixing_range_def)
  ultimately have "int u \<le> int (unat a)" "int (unat a) < int (u + 4 * c)"
    using assms(2) sb by (simp_all only: is_in_fixing_range_def) simp_all
  then have a: "u \<le> unat a" "unat a < u + 4 * c" by (simp_all only: of_nat_le_iff of_nat_less_iff)
  have "unat (basep s AND 3) = u mod 4"
    unfolding twelve u_def by (simp add: take_bit_eq_mask [symmetric] take_bit_eq_mod unat_mod)
  then have u4: "u mod 4 = 0" using fit by simp
  have idx: "get_ref_ins_index x s < A64_MAX_INSTRUCTIONS" if "u \<le> unat x" "unat x < u + 4 * c" for x
  proof -
    have "unat (x - basep s) = unat x - u" using that(1) by (simp add: u_def unat_sub word_le_nat_alt)
    moreover have "c \<le> 5" using fit by blast
    then have "unat x - u < 20" using that by linarith
    then have "(unat x - u) div 4 < 5" by simp
    ultimately show ?thesis by (simp add: get_ref_ins_index_def A64_MAX_INSTRUCTIONS_def unat_div)
  qed
  show "get_ref_ins_index a s < A64_MAX_INSTRUCTIONS" using a by (rule idx)
  have "u \<le> 4 * (unat a div 4)" using a(1) u4 by presburger
  then show "get_ref_ins_index (a AND NOT 3) s < A64_MAX_INSTRUCTIONS"
    using a(2) by (intro idx; unfold and_not_3; linarith)
qed

lemma nop_if_fits:
  assumes "fitting b m c n f s" and "idx < A64_MAX_INSTRUCTIONS"
  shows "\<exists>s' k. nop_if q idx s = Inr s' \<and> k \<le> 1 \<and> fitting b m c (n + k) f s' \<and> basep s' = basep s \<and> inp s' = inp s"
proof (cases q)
  case True
  have "fitting b m c (Suc n) f (emit A64_NOP s)" using assms(1) by (rule fitting_emit)
  from fitting_reset [OF this assms(2)] obtain s' where s': "reset_current_ins idx (emit A64_NOP s) = Inr s'"
    "fitting b m c (Suc n) f s'" "basep s' = basep (emit A64_NOP s)" "inp s' = inp (emit A64_NOP s)" by blast
  then show ?thesis using True
    by (intro exI [of _ s'] exI [of _ 1]) (simp add: nop_if_def emit_def emit_bytes_def)
next
  case False
  then show ?thesis using assms by (intro exI [of _ s] exI [of _ 0]) (simp add: nop_if_def)
qed

lemma pad_until_runs: "P (emit_all (replicate j A64_NOP) s) \<Longrightarrow> j \<le> k \<Longrightarrow>
    \<exists>i\<le>j. pad_until k P s = Inr (emit_all (replicate i A64_NOP) s) \<and> P (emit_all (replicate i A64_NOP) s)"
proof (induction k arbitrary: j s)
  case (Suc k)
  show ?case
  proof (cases "P s")
    case False
    then obtain j' where j: "j = Suc j'" using Suc.prems(1) by (cases j) auto
    then obtain i where "i \<le> j'" "pad_until k P (emit A64_NOP s) = Inr (emit_all (replicate i A64_NOP) (emit A64_NOP s))"
      "P (emit_all (replicate i A64_NOP) (emit A64_NOP s))"
      using Suc.IH [of j' "emit A64_NOP s"] Suc.prems by auto
    then show ?thesis using False j by (intro exI [of _ "Suc i"]) simp
  qed (auto intro: exI [of _ 0])
qed (auto intro: exI [of _ 0])

lemma emit_all_frame: "basep (emit_all ws s) = basep s" "endp (emit_all ws s) = endp s" "dat (emit_all ws s) = dat s"
  "inp (emit_all ws s) = inp s" "outp (emit_all ws s) = outp s + word_of_nat (4 * length ws)"
  by (induction ws arbitrary: s) (simp_all add: emit_def emit_bytes_def algebra_simps)

lemma emit_bytes_frame: "basep (emit_bytes bs s) = basep s" "endp (emit_bytes bs s) = endp s" "dat (emit_bytes bs s) = dat s"
  "inp (emit_bytes bs s) = inp s" "outp (emit_bytes bs s) = outp s + word_of_nat (length bs)"
  by (simp_all add: emit_bytes_def)

lemma emit_frame: "basep (emit w s) = basep s" "endp (emit w s) = endp s" "dat (emit w s) = dat s"
  "inp (emit w s) = inp s" "outp (emit w s) = outp s + 4"
  by (simp_all add: emit_def emit_bytes_def)

text \<open>The code of an instruction is emitted: at most \<open>hi\<close> words, the cursor into the source where it was.\<close>

definition fits_to :: "u64 \<Rightarrow> 64 memory \<Rightarrow> nat \<Rightarrow> nat \<Rightarrow> a64 \<Rightarrow> a64 res \<Rightarrow> bool" where
  "fits_to b m c hi s r \<longleftrightarrow> (\<exists>s' n. r = Inr s' \<and> n \<le> hi \<and> fitting b m c n n s' \<and> basep s' = basep s \<and> inp s' = inp s)"

lemma far_fits:
  assumes "fitting b m c n n s" and "idx < A64_MAX_INSTRUCTIONS" and "length bs = 4 * k" and "Suc (n + length ws + k) \<le> hi"
  shows "fits_to b m c hi s (res_bind (nop_if q idx s) (\<lambda>s2. Inr (emit_bytes bs (emit_all ws s2))))"
proof -
  obtain s2 j where s2: "nop_if q idx s = Inr s2" "j \<le> 1" "fitting b m c (n + j) n s2" "basep s2 = basep s" "inp s2 = inp s"
    using nop_if_fits [OF assms(1,2), of q] by blast
  have "fitting b m c (n + j + length ws + k) n (emit_bytes bs (emit_all ws s2))"
    by (intro fitting_bytes fitting_emit_all s2(3) assms(3))
  from fitting_mono [OF this] have "fitting b m c (n + j + length ws + k) (n + j + length ws + k) (emit_bytes bs (emit_all ws s2))" by simp
  then show ?thesis using s2 assms(4) unfolding fits_to_def
    by (intro exI [of _ "emit_bytes bs (emit_all ws s2)"] exI [of _ "n + j + length ws + k"])
      (simp add: emit_bytes_frame emit_all_frame)
qed

lemma near_fits:
  assumes "fitting b m c n n s" and "special \<Longrightarrow> ref < A64_MAX_INSTRUCTIONS" and "Suc n \<le> hi"
  shows "fits_to b m c hi s (res_bind (resolve special ref cur rel off ls ad s) (\<lambda>(off, s2). Inr (emit (w off) s2)))"
proof -
  have "\<exists>off' s2. resolve special ref cur rel off ls ad s = Inr (off', s2) \<and> fitting b m c n (Suc n) s2 \<and> basep s2 = basep s \<and> inp s2 = inp s"
    using fitting_insert [OF assms(1), of ref ls ad] assms(2) fitting_mono [OF assms(1), of "Suc n"]
    by (auto simp: resolve_def)
  then obtain off' s2 where r: "resolve special ref cur rel off ls ad s = Inr (off', s2)" "fitting b m c n (Suc n) s2"
    "basep s2 = basep s" "inp s2 = inp s" by blast
  then show ?thesis using fitting_emit [OF r(2), of "w off'"] assms(3) unfolding fits_to_def
    by (intro exI [of _ "emit (w off') s2"] exI [of _ "Suc n"]) (simp add: emit_frame)
qed

lemma padded_fits:
  assumes "fitting b m c n n s" and "idx < A64_MAX_INSTRUCTIONS" and "\<exists>j\<le>3. P (emit_all (replicate j A64_NOP) s)"
    and "\<And>t k. fitting b m c (n + k) (n + k) t \<Longrightarrow> k \<le> 3 \<Longrightarrow> fits_to b m c hi t (F t)"
  shows "fits_to b m c hi s (res_bind (pad_until 4 P s) (\<lambda>s2. res_bind (reset_current_ins idx s2) F))"
proof -
  obtain j where "j \<le> 3" "P (emit_all (replicate j A64_NOP) s)" using assms(3) by blast
  then obtain i where i: "i \<le> 3" "pad_until 4 P s = Inr (emit_all (replicate i A64_NOP) s)"
    using pad_until_runs [of P j s 4] by (auto intro: order_trans)
  define s2 where "s2 = emit_all (replicate i A64_NOP) s"
  have "fitting b m c (n + i) n s2" using fitting_emit_all [OF assms(1), of "replicate i A64_NOP"] by (simp add: s2_def)
  then have "fitting b m c (n + i) (n + i) s2" by (rule fitting_mono) simp
  from fitting_reset [OF this assms(2)] obtain s3 where s3: "reset_current_ins idx s2 = Inr s3" "fitting b m c (n + i) (n + i) s3"
    "basep s3 = basep s2" "inp s3 = inp s2" by blast
  have "fits_to b m c hi s3 (F s3)" using s3(2) i(1) by (rule assms(4))
  then show ?thesis using i(2) s3 by (simp add: s2_def [symmetric] fits_to_def) (simp add: s2_def emit_all_frame)
qed

text \<open>An instruction is moved: at most nine words more, the cursor into the source is one further.\<close>

definition moved :: "u64 \<Rightarrow> 64 memory \<Rightarrow> nat \<Rightarrow> nat \<Rightarrow> a64 \<Rightarrow> a64 res \<Rightarrow> bool" where
  "moved b m c hi s r \<longleftrightarrow> (\<exists>s' n. r = Inr s' \<and> n \<le> hi \<and> fitting b m c n n s' \<and> basep s' = basep s \<and> inp s' = inp s + 4)"

lemma finish_moved:
  assumes "fits_to b m c hi s r" and "idx < A64_MAX_INSTRUCTIONS"
  shows "moved b m c hi s (res_bind r (finish idx))"
proof -
  obtain s1 n where s1: "r = Inr s1" "n \<le> hi" "fitting b m c n n s1" "basep s1 = basep s" "inp s1 = inp s"
    using assms(1) by (auto simp: fits_to_def)
  have "fitting b m c n n (s1\<lparr>inp := inp s1 + 4\<rparr>)" using s1(3) by (simp add: fitting_def)
  from fitting_process [OF this assms(2)] show ?thesis using s1 by (auto simp: moved_def finish_def)
qed

lemma current_fits:
  assumes "fitting b m c n n s" and "inp s = basep s + word_of_nat (4 * k)" and "k < A64_MAX_INSTRUCTIONS"
    and "\<And>t. fitting b m c n n t \<Longrightarrow> basep t = basep s \<Longrightarrow> inp t = inp s \<Longrightarrow> outp t = outp s \<Longrightarrow> moved b m c hi t (F (k, t))"
  shows "moved b m c hi s (res_bind (get_and_set_current_index s) F)"
proof -
  have "k \<in> {0, 1, 2, 3, 4}" using assms(3) by (auto simp: A64_MAX_INSTRUCTIONS_def)
  then have "get_ref_ins_index (inp s) s = k" using assms(2) by (auto simp: get_ref_ins_index_def unat_div)
  moreover obtain t where t: "reset_current_ins k s = Inr t" "fitting b m c n n t" "basep t = basep s" "inp t = inp s" "outp t = outp s"
    using fitting_reset [OF assms(1,3)] by blast
  ultimately show ?thesis using assms(4) [OF t(2-5)] t by (simp add: get_and_set_current_index_def Let_def moved_def)
qed

lemma emit_length: "length (le32 w) = 4 * 1" "length (le64 v) = 4 * 2"
  by simp_all

lemma branch_fits:
  assumes "fitting b m c n n s" and "idx < A64_MAX_INSTRUCTIONS"
  shows "fits_to b m c (n + 9) s (branch_code ins idx s)"
  using far_fits [OF assms emit_length(2)] near_fits [OF assms(1) ref_in_range(1) [OF assms(1)]]
  by (simp add: branch_code_def Let_def del: emit_all.simps)

lemma cond_fits:
  assumes "fitting b m c n n s" and "idx < A64_MAX_INSTRUCTIONS"
  shows "fits_to b m c (n + 9) s (cond_code ins lmask idx s)"
  using far_fits [OF assms emit_length(2)] near_fits [OF assms(1) ref_in_range(1) [OF assms(1)]]
  by (simp add: cond_code_def Let_def del: emit_all.simps)

lemma adr_fits:
  assumes "fitting b m c n n s" and "idx < A64_MAX_INSTRUCTIONS"
  shows "fits_to b m c (n + 9) s (adr_code ins idx s)"
  using far_fits [OF assms emit_length(2)] near_fits [OF assms(1) ref_in_range(2) [OF assms(1)]]
  by (simp add: adr_code_def Let_def del: emit_all.simps)

lemma emit_fits:
  assumes "fitting b m c n n s" and "Suc n \<le> hi"
  shows "fits_to b m c hi s (Inr (emit w s))"
  using fitting_mono [OF fitting_emit [OF assms(1), of w], of "Suc n"] assms(2)
  by (auto simp: fits_to_def emit_frame)

lemma adrp_fits:
  assumes "fitting b m c n n s" and "idx < A64_MAX_INSTRUCTIONS"
  shows "fits_to b m c (n + 9) s (adrp_code ins idx s)"
  using far_fits [OF assms emit_length(2)] emit_fits [OF assms(1)]
  by (simp add: adrp_code_def Let_def del: emit_all.simps)

lemma loadlit_kinds: "loadlit_kind ins = Some (msk, faligned) \<Longrightarrow> faligned \<in> {3, 7, 15}"
  by (auto simp: loadlit_kind_def Let_def split: if_splits)

lemma aligned_add: "(x + word_of_nat (4 * j)) AND 3 = x AND (3 :: u64)"
proof -
  have low: "word_of_nat k AND 3 = (word_of_nat (k mod 4) :: u64)" for k
  proof -
    have "word_of_nat k AND mask 2 = (word_of_nat (take_bit 2 k) :: u64)" by (rule bit_word_eqI) (auto simp: bit_simps)
    then show ?thesis by (simp add: twelve take_bit_eq_mod)
  qed
  have "x + word_of_nat (4 * j) = word_of_nat (unat x + 4 * j)" by simp
  then have "(x + word_of_nat (4 * j)) AND 3 = word_of_nat ((unat x + 4 * j) mod 4)" using low [of "unat x + 4 * j"] by metis
  also have "\<dots> = word_of_nat (unat x mod 4)" by simp
  also have "\<dots> = x AND 3" using low [of "unat x"] by (simp del: of_nat_mod)
  finally show ?thesis .
qed

lemma low_bits:
  "x AND 12 = (0 :: u64) \<Longrightarrow> i \<in> {2, 3} \<Longrightarrow> \<not> bit x i" "x AND 3 = (0 :: u64) \<Longrightarrow> i \<in> {0, 1} \<Longrightarrow> \<not> bit x i"
proof -
  assume "x AND 12 = 0" "i \<in> {2, 3}"
  moreover have "bit (x AND ones 2 2) i \<longleftrightarrow> bit x i" if "i \<in> {2, 3}" using that by (auto simp: bit_simps)
  ultimately show "\<not> bit x i" unfolding twelve by auto
next
  assume "x AND 3 = 0" "i \<in> {0, 1}"
  moreover have "bit (x AND mask 2) i \<longleftrightarrow> bit x i" if "i \<in> {0, 1}" using that by (auto simp: bit_simps)
  ultimately show "\<not> bit x i" unfolding twelve by auto
qed

lemma and_mask_zero: "\<forall>i<k. \<not> bit x i \<Longrightarrow> x AND mask k = (0 :: u64)"
  by (rule bit_word_eqI) (auto simp: bit_simps)

lemma masks: "faligned \<in> {3, 7, 15} \<Longrightarrow> \<exists>k\<in>{2, 3, 4}. word_of_nat faligned = (mask k :: u64) \<and> word_of_nat (faligned div 4) = (mask (k - 2) :: u64)"
  by (auto simp: mask_numeral)

lemma pad_far:
  assumes "x AND 3 = 0" and "x AND 12 = (0 :: u64)" and "faligned \<in> {3, 7, 15}"
  shows "x AND word_of_nat faligned = 0"
proof -
  have "\<not> bit x i" if "i < 4" for i
  proof -
    have "i \<in> {0, 1} \<or> i \<in> {2, 3}" using that by auto
    then show ?thesis using low_bits(1) [OF assms(2)] low_bits(2) [OF assms(1)] by blast
  qed
  then show ?thesis using masks [OF assms(3)] and_mask_zero [of _ x] by fastforce
qed

lemma pad_near:
  assumes "x AND 12 = (0 :: u64)" and "faligned \<in> {3, 7, 15}"
  shows "signed_drop_bit 2 x AND word_of_nat (faligned div 4) = 0"
proof -
  have "\<not> bit (signed_drop_bit 2 x) i" if "i < 2" for i
    using low_bits(1) [OF assms(1), of "i + 2"] that by (auto simp: bit_simps less_2_cases_iff add.commute)
  then show ?thesis using masks [OF assms(2)] and_mask_zero [of _ "signed_drop_bit 2 x"] by fastforce
qed

lemma loadlit_fits:
  assumes "fitting b m c n n s" and "idx < A64_MAX_INSTRUCTIONS" and "faligned \<in> {3, 7, 15}" and "b AND 3 = 0"
  shows "fits_to b m c (n + 9) s (loadlit_code ins msk faligned idx s)"
proof -
  define a where "a = inp s + ucast (signed_drop_bit 11 (push_bit 8 ins) AND NOT 3)"
  have out: "outp s = at_word b n" using assms(1) by (simp add: fitting_def)
  have far: "\<exists>j\<le>3. (outp (emit_all (replicate j A64_NOP) s) + 8) AND word_of_nat faligned = 0"
  proof -
    obtain j where j: "j \<le> 3" "((outp s + 8) + word_of_nat (4 * j)) AND 12 = 0" using pad_align by blast
    have "((outp s + 8) + word_of_nat (4 * j)) AND 3 = 0"
      using aligned_add [of "b" "n + 2 + j"] assms(4) by (simp add: out at_word_def algebra_simps)
    from pad_far [OF this j(2) assms(3)] j(1) show ?thesis
      by (intro exI [of _ j]) (simp add: emit_all_frame algebra_simps)
  qed
  have near: "\<exists>j\<le>3. signed_drop_bit 2 (a - outp (emit_all (replicate j A64_NOP) s)) AND word_of_nat (faligned div 4) = 0"
  proof -
    obtain j where j: "j \<le> 3" "((a - outp s) - word_of_nat (4 * j)) AND 12 = 0" using pad_align_sub by blast
    from pad_near [OF this(2) assms(3)] j(1) show ?thesis
      by (intro exI [of _ j]) (simp add: emit_all_frame algebra_simps)
  qed
  have wide: "fits_to b m c (n + 9) t (Inr (emit_bytes (F (emit_all [u, v] t)) (emit_all [u, v] t)))"
    if "fitting b m c (n + k) (n + k) t" "k \<le> 3" "\<And>z. length (F z) = faligned + 1" for t k u v F
  proof -
    have l: "length (F (emit_all [u, v] t)) = 4 * ((faligned + 1) div 4)" "(faligned + 1) div 4 \<le> 4"
      using that(3) assms(3) by auto
    have "fitting b m c (n + k + length [u, v] + (faligned + 1) div 4) (n + k) (emit_bytes (F (emit_all [u, v] t)) (emit_all [u, v] t))"
      by (intro fitting_bytes fitting_emit_all that(1) l(1))
    from fitting_mono [OF this] have "fitting b m c (n + k + 2 + (faligned + 1) div 4) (n + k + 2 + (faligned + 1) div 4)
        (emit_bytes (F (emit_all [u, v] t)) (emit_all [u, v] t))" by simp
    then show ?thesis using that(2) l(2) unfolding fits_to_def
      by (intro exI [of _ "emit_bytes (F (emit_all [u, v] t)) (emit_all [u, v] t)"] exI [of _ "n + k + 2 + (faligned + 1) div 4"])
        (simp only: emit_bytes_frame emit_all_frame, simp)
  qed
  show ?thesis unfolding loadlit_code_def Let_def a_def [symmetric]
  proof (split if_split, intro conjI impI)
    show "fits_to b m c (n + 9) s
        (res_bind (pad_until 4 (\<lambda>t. (outp t + 8) AND word_of_nat faligned = 0) s) (\<lambda>s2.
         res_bind (reset_current_ins idx s2) (\<lambda>s3.
           Inr (emit_bytes (read_bytes a (faligned + 1) (code (emit_all [64 AND NOT msk OR ins AND 0xFF00001F, 0x14000001 + word_of_nat ((faligned + 1) div 4)] s3)))
             (emit_all [64 AND NOT msk OR ins AND 0xFF00001F, 0x14000001 + word_of_nat ((faligned + 1) div 4)] s3)))))"
      by (intro padded_fits [OF assms(1,2) far] wide) simp_all
    show "fits_to b m c (n + 9) s
        (res_bind (pad_until 4 (\<lambda>t. signed_drop_bit 2 (a - outp t) AND word_of_nat (faligned div 4) = 0) s) (\<lambda>s2.
         res_bind (reset_current_ins idx s2) (\<lambda>s3.
           Inr (emit (ucast (push_bit 5 (signed_drop_bit 2 (a - outp s3))) AND NOT msk OR ins AND 0xFF00001F) s3))))"
    proof (rule padded_fits [OF assms(1,2) near])
      fix t k assume t: "fitting b m c (n + k) (n + k) t" and k: "k \<le> 3"
      show "fits_to b m c (n + 9) t (Inr (emit (ucast (push_bit 5 (signed_drop_bit 2 (a - outp t))) AND NOT msk OR ins AND 0xFF00001F) t))"
        by (rule emit_fits [OF t]) (use k in linarith)
    qed
  qed
qed

lemma plain_moved:
  assumes "fitting b m c n n s" and "inp s = basep s + word_of_nat (4 * k)" and "k < A64_MAX_INSTRUCTIONS"
  shows "moved b m c (n + 9) s (fix_plain s)"
  unfolding fix_plain_def
proof (rule current_fits [OF assms], unfold prod.case)
  fix t assume "fitting b m c n n t"
  from fitting_process [OF this assms(3)] obtain u where u: "process_fix_map k t = Inr u" "fitting b m c n n u"
    "basep u = basep t" "inp u = inp t" by blast
  define v where "v = (emit (get32 (inp u) (code u)) u)\<lparr>inp := inp u + 4\<rparr>"
  have "fitting b m c (Suc n) (Suc n) (emit (get32 (inp u) (code u)) u)"
    using fitting_mono [OF fitting_emit [OF u(2)]] by simp
  then have "fitting b m c (Suc n) (Suc n) v" by (simp add: v_def fitting_def)
  then show "moved b m c (n + 9) t (res_bind (process_fix_map k t) (\<lambda>s2. Inr ((emit (get32 (inp s2) (code s2)) s2)\<lparr>inp := inp s2 + 4\<rparr>)))"
    using u unfolding moved_def by (intro exI [of _ v] exI [of _ "Suc n"]) (simp add: v_def emit_frame)
qed

lemma prefetch_moved:
  assumes "fitting b m c n n s" and "idx < A64_MAX_INSTRUCTIONS"
  shows "moved b m c (n + 9) s (finish idx s)"
  using finish_moved [of b m c "n + 9" s "Inr s" idx, OF _ assms(2)] assms(1)
  by (simp add: fits_to_def) (metis le_add1)

lemma one_moved:
  assumes "fitting b m c n n s" and "inp s = basep s + word_of_nat (4 * k)" and "k < A64_MAX_INSTRUCTIONS" and "b AND 3 = 0"
  shows "moved b m c (n + 9) s (fix_one s)"
proof -
  have mv: "moved b m c (n + 9) s (res_bind (get_and_set_current_index s) (\<lambda>(idx, s1). res_bind (F idx s1) (finish idx)))"
    if "\<And>t. fitting b m c n n t \<Longrightarrow> fits_to b m c (n + 9) t (F k t)" for F
    by (rule current_fits [OF assms(1-3)]) (simp add: finish_moved [OF that assms(3)])
  have pf: "moved b m c (n + 9) s (res_bind (get_and_set_current_index s) (\<lambda>(idx, s1). finish idx s1))"
    by (rule current_fits [OF assms(1-3)]) (simp add: prefetch_moved [OF _ assms(3)])
  have "moved b m c (n + 9) s r" if "fix_branch_imm s = Some r" for r
    using that mv [of "branch_code _", OF branch_fits [OF _ assms(3)]]
    by (auto simp: fix_branch_imm_def Let_def split: if_splits)
  moreover have "moved b m c (n + 9) s r" if "fix_cond_comp_test_branch s = Some r" for r
    using that mv [of "cond_code _ _", OF cond_fits [OF _ assms(3)]]
    by (auto simp: fix_cond_comp_test_branch_def Let_def split: option.splits)
  moreover have "moved b m c (n + 9) s r" if "fix_loadlit s = Some r" for r
    using that pf mv [of "loadlit_code _ _ _", OF loadlit_fits [OF _ assms(3) loadlit_kinds assms(4)]]
    by (auto simp: fix_loadlit_def Let_def split: option.splits if_splits)
  moreover have "moved b m c (n + 9) s r" if "fix_pcreladdr s = Some r" for r
    using that mv [of "adr_code _", OF adr_fits [OF _ assms(3)]] mv [of "adrp_code _", OF adrp_fits [OF _ assms(3)]]
    by (auto simp: fix_pcreladdr_def Let_def split: if_splits)
  ultimately show ?thesis using plain_moved [OF assms(1-3)] by (auto simp: fix_one_def split: option.split)
qed

lemma loop_moved:
  assumes "fitting b m c n n s" and "inp s = basep s + word_of_nat (4 * k)" and "k + l \<le> A64_MAX_INSTRUCTIONS" and "b AND 3 = 0"
  shows "\<exists>s' n'. fix_loop l s = Inr s' \<and> n' \<le> n + 9 * l \<and> fitting b m c n' n' s' \<and> basep s' = basep s \<and>
    inp s' = basep s + word_of_nat (4 * (k + l))"
  using assms
proof (induction l arbitrary: n s k)
  case (Suc l)
  have "moved b m c (n + 9) s (fix_one s)" using Suc.prems by (intro one_moved) auto
  then obtain s1 n1 where s1: "fix_one s = Inr s1" "n1 \<le> n + 9" "fitting b m c n1 n1 s1" "basep s1 = basep s" "inp s1 = inp s + 4"
    by (auto simp: moved_def)
  have "inp s1 = basep s1 + word_of_nat (4 * Suc k)" using s1(4,5) Suc.prems(2) by simp
  from Suc.IH [OF s1(3) this] Suc.prems(3,4) obtain s2 n2 where "fix_loop l s1 = Inr s2" "n2 \<le> n1 + 9 * l" "fitting b m c n2 n2 s2"
    "basep s2 = basep s1" "inp s2 = basep s1 + word_of_nat (4 * (Suc k + l))" by auto
  then show ?case using s1 by (intro exI [of _ s2] exI [of _ n2]) simp
qed auto

lemma jump_back_fits:
  assumes "fitting b m c n n s"
  shows "\<exists>k\<le>5. fitting b m c (n + k) (n + k) (jump_back s)"
proof -
  have nop: "fitting b m c (Suc n) n (emit A64_NOP s)" by (rule fitting_emit [OF assms])
  have far: "fitting b m c (j + 2 + 2) (j + 2 + 2) (emit_bytes (le64 v) (emit_all [x, y] t))"
    if "fitting b m c j n t" "n \<le> j" for j t v x y
    using fitting_mono [OF fitting_bytes [OF fitting_emit_all [OF that(1), of "[x, y]"] emit_length(2)]] that(2) by simp
  have one: "fitting b m c (n + 1) (n + 1) (emit w s)" for w
    using fitting_mono [OF fitting_emit [OF assms]] by simp
  show ?thesis using far [OF nop] far [OF assms] one unfolding jump_back_def Let_def
    by (auto simp del: emit_all.simps intro: exI [of _ "4 :: nat"] exI [of _ "5 :: nat"] exI [of _ "1 :: nat"] simp: numeral_eq_Suc)
qed

lemma start_fits:
  assumes "symbol AND 3 = 0" and "0 \<le> sint symbol" and "sint symbol + 20 < 2 ^ 63" and "count \<le> 5"
  shows "fitting b m count 0 0 (start_fixing symbol count b m)"
  using assms by (simp add: fitting_def start_fixing_def no_fixes_def pending_def at_word_def)

text \<open>C30. Moving at most five instructions, whatever they are, ends and never leaves the tables; it emits at most nine
  words for each and five for the jump back, so that a row of the pool of trampolines is large enough
  for every function head, and it changes no byte outside what it emits, fix-ups of
  branches within the head included.\<close>

theorem trampoline_fits:
  assumes "symbol AND 3 = 0" and "0 \<le> sint symbol" and "sint symbol + 20 < 2 ^ 63" and "row AND 3 = 0" and "count \<le> A64_MAX_INSTRUCTIONS"
  shows "\<exists>s n. fix_instructions symbol count row m = Inr s \<and> outp s = row + word_of_nat (4 * n) \<and> n \<le> 9 * count + 5 \<and>
    n \<le> A64_MAX_INSTRUCTIONS * 10 \<and> (\<forall>x. x \<notin> region row (4 * n) \<longrightarrow> code s x = m x)"
proof -
  have c: "count \<le> 5" using assms(5) by (simp add: A64_MAX_INSTRUCTIONS_def)
  have "inp (start_fixing symbol count row m) = basep (start_fixing symbol count row m) + word_of_nat (4 * 0)"
    by (simp add: start_fixing_def)
  from loop_moved [OF start_fits [OF assms(1-3) c] this _ assms(4), of count] assms(5) obtain s n where
    s: "fix_loop count (start_fixing symbol count row m) = Inr s" "n \<le> 9 * count" "fitting row m count n n s" by auto
  from jump_back_fits [OF s(3)] obtain k where k: "k \<le> 5" "fitting row m count (n + k) (n + k) (jump_back s)" by blast
  then show ?thesis using s(1,2) c
    by (intro exI [of _ "jump_back s"] exI [of _ "n + k"]) (auto simp: fix_instructions_def fitting_def at_word_def A64_MAX_INSTRUCTIONS_def)
qed

theorem trampoline_fits_witness:
  "\<exists>s n. fix_instructions 0x10000 5 0x20000 (\<lambda>_. 0x14) = Inr s \<and> outp s = 0x20000 + word_of_nat (4 * n) \<and> n \<le> 50"
  using trampoline_fits [of "0x10000" "0x20000" 5 "\<lambda>_. 0x14"] by (auto simp: A64_MAX_INSTRUCTIONS_def)


end
