(* ===== verification/Run_Hook64.thy ===== *)
theory Run_Hook64
  imports Inline_Hook64
begin

text \<open>
  What the code of \<open>Inline_Hook64\<close> does when it runs: the few arm64 instructions involved as a step
  function, and the branches, addresses and whole function heads that the fixers move, executed.
\<close>

section \<open>Running code\<close>

text \<open>
  The instructions the fixers and the hook emit, and the branches they move, as the architecture defines
  them: program counter and general registers, 31 being the zero register. Whether the condition of a
  conditional branch holds is a parameter, given the bits that state the condition and the registers.
\<close>

record a64_cpu =
  pc :: u64
  xr :: "nat \<Rightarrow> u64"

definition get64 :: "u64 \<Rightarrow> 64 memory \<Rightarrow> u64" where
  "get64 a m = le_word (read_bytes a 8 m)"

definition off26 :: "u32 \<Rightarrow> u64" where
  "off26 i = scast (signed_drop_bit 4 (push_bit 6 i))"

definition off19 :: "u32 \<Rightarrow> u64" where
  "off19 i = scast (signed_drop_bit 11 (push_bit 8 i) AND NOT 3)"

definition off14 :: "u32 \<Rightarrow> u64" where
  "off14 i = scast (signed_drop_bit 16 (push_bit 13 i) AND NOT 3)"

definition off21 :: "u32 \<Rightarrow> u64" where
  "off21 i = scast ((signed_drop_bit 11 (push_bit 8 i) AND NOT 3) OR (drop_bit 29 i AND 3))"

text \<open>The field of a register that an instruction writes or branches to.\<close>

definition rd :: "u32 \<Rightarrow> nat" where
  "rd i = unat (i AND 0x1F)"

definition rn :: "u32 \<Rightarrow> nat" where
  "rn i = unat (drop_bit 5 i AND 0x1F)"

definition set_xr :: "nat \<Rightarrow> u64 \<Rightarrow> a64_cpu \<Rightarrow> a64_cpu" where
  "set_xr r v c = (if r = 31 then c else c\<lparr>xr := (xr c)(r := v)\<rparr>)"

definition is_cond19 :: "u32 \<Rightarrow> bool" where
  "is_cond19 i \<longleftrightarrow> i AND 0xFF000010 = 0x54000000 \<or> i AND 0x7F000000 = 0x34000000 \<or> i AND 0x7F000000 = 0x35000000"

definition is_cond14 :: "u32 \<Rightarrow> bool" where
  "is_cond14 i \<longleftrightarrow> i AND 0x7F000000 = 0x36000000 \<or> i AND 0x7F000000 = 0x37000000"

definition a64_step :: "(u32 \<Rightarrow> (nat \<Rightarrow> u64) \<Rightarrow> bool) \<Rightarrow> 64 memory \<Rightarrow> a64_cpu \<Rightarrow> a64_cpu option" where
  "a64_step holds m c =
     (let i = get32 (pc c) m; next = c\<lparr>pc := pc c + 4\<rparr> in
      if i = A64_NOP then Some next
      else if i AND 0xFC000000 = 0x14000000 then Some (c\<lparr>pc := pc c + off26 i\<rparr>)
      else if i AND 0xFC000000 = 0x94000000 then Some (c\<lparr>pc := pc c + off26 i, xr := (xr c)(30 := pc c + 4)\<rparr>)
      else if is_cond19 i then Some (if holds (i AND 0xFF00001F) (xr c) then c\<lparr>pc := pc c + off19 i\<rparr> else next)
      else if is_cond14 i then Some (if holds (i AND 0xFFF8001F) (xr c) then c\<lparr>pc := pc c + off14 i\<rparr> else next)
      else if i AND 0xFF000000 = 0x58000000 then Some (set_xr (rd i) (get64 (pc c + off19 i) m) next)
      else if i AND 0x9F000000 = 0x10000000 then Some (set_xr (rd i) (pc c + off21 i) next)
      else if i AND 0xFFFFFC1F = 0xD61F0000 then Some (c\<lparr>pc := xr c (rn i)\<rparr>)
      else None)"

fun a64_run :: "(u32 \<Rightarrow> (nat \<Rightarrow> u64) \<Rightarrow> bool) \<Rightarrow> 64 memory \<Rightarrow> nat \<Rightarrow> a64_cpu \<Rightarrow> a64_cpu option" where
  "a64_run holds m 0 c = Some c"
| "a64_run holds m (Suc n) c = Option.bind (a64_step holds m c) (a64_run holds m n)"

lemma a64_run_add: "a64_run holds m (k + n) c = Option.bind (a64_run holds m k c) (a64_run holds m n)"
  by (induction k arbitrary: c) (simp_all add: bind_eq_Some_conv split: Option.bind_split)

section \<open>Code in memory\<close>

definition code_at :: "u64 \<Rightarrow> u8 list \<Rightarrow> 64 memory \<Rightarrow> bool" where
  "code_at a bs m \<longleftrightarrow> read_bytes a (length bs) m = bs"

lemma code_at_append: "code_at a (xs @ ys) m \<longleftrightarrow> code_at a xs m \<and> code_at (a + word_of_nat (length xs)) ys m"
  by (auto simp: code_at_def read_bytes_append append_eq_append_conv)

lemma code_at_word: "code_at a (le32 w) m \<Longrightarrow> get32 a m = w"
  by (simp add: code_at_def get32_le32)

lemma code_at_dword: "code_at a (le64 v) m \<Longrightarrow> get64 a m = v"
  by (simp add: code_at_def get64_def)

lemma code_at_written: "length bs \<le> 2 ^ 64 \<Longrightarrow> code_at a bs (write_bytes a bs m)"
  by (simp add: code_at_def read_write_bytes)

lemma code_at_other: "region a (length bs) \<inter> region a' (length bs') = {} \<Longrightarrow> code_at a bs (write_bytes a' bs' m) \<longleftrightarrow> code_at a bs m"
proof -
  assume "region a (length bs) \<inter> region a' (length bs') = {}"
  then have "read_bytes a (length bs) (write_bytes a' bs' m) = read_bytes a (length bs) m"
    by (intro read_bytes_cong write_bytes_other) auto
  then show ?thesis by (simp add: code_at_def)
qed

definition words_at :: "u64 \<Rightarrow> u32 list \<Rightarrow> 64 memory \<Rightarrow> bool" where
  "words_at a ws m \<longleftrightarrow> code_at a (concat (map le32 ws)) m"

lemma length_words [simp]: "length (concat (map le32 ws)) = 4 * length ws"
  by (induction ws) auto

lemma words_at_Cons [simp]: "words_at a (w # ws) m \<longleftrightarrow> code_at a (le32 w) m \<and> words_at (a + 4) ws m"
  by (simp add: words_at_def code_at_append)

lemma words_at_Nil [simp]: "words_at a [] m"
  by (simp add: words_at_def code_at_def)

text \<open>What was emitted is there.\<close>

lemma write_bytes_append: "write_bytes a (xs @ ys) m = write_bytes (a + word_of_nat (length xs)) ys (write_bytes a xs m)"
  by (induction xs arbitrary: a m) (simp_all add: algebra_simps)

lemma emit_all_code: "emit_all ws s = emit_bytes (concat (map le32 ws)) s"
  by (induction ws arbitrary: s) (simp_all add: emit_def emit_bytes_def write_bytes_append algebra_simps)

lemma emit_bytes_append: "emit_bytes ys (emit_bytes xs s) = emit_bytes (xs @ ys) s"
  by (simp add: emit_bytes_def write_bytes_append algebra_simps)

lemma emitted:
  assumes "length bs < 1000"
  shows "code_at (outp s) bs (code (emit_bytes bs s))"
  using assms by (simp add: emit_bytes_def code_at_written)

lemma emitted_words:
  assumes "length ws < 100" and "length bs < 100"
  shows "words_at (outp s) ws (code (emit_bytes bs (emit_all ws s)))"
    "code_at (outp s + word_of_nat (4 * length ws)) bs (code (emit_bytes bs (emit_all ws s)))"
  using emitted [of "concat (map le32 ws) @ bs" s] assms
  by (simp_all add: emit_all_code emit_bytes_append code_at_append words_at_def)

section \<open>Steps\<close>

lemma off_values: "off19 0x58000051 = 8" "off19 0x58000071 = 12" "off26 0x14000005 = 20" "off26 0x14000003 = 12" "off21 0x1000009E = 16"
  "rd 0x58000051 = 17" "rd 0x58000071 = 17" "rd 0x1000009E = 30" "rn 0xD61F0220 = 17"
  by code_simp+

lemma step_ldr17:
  assumes "code_at a (le32 0x58000051) m" and "code_at (a + 8) (le64 v) m"
  shows "a64_step holds m \<lparr>pc = a, xr = x\<rparr> = Some \<lparr>pc = a + 4, xr = x(17 := v)\<rparr>"
  using code_at_word [OF assms(1)] code_at_dword [OF assms(2)]
  by (simp add: a64_step_def A64_NOP_def is_cond19_def is_cond14_def off_values set_xr_def)

lemma step_br17:
  assumes "code_at a (le32 0xD61F0220) m"
  shows "a64_step holds m \<lparr>pc = a, xr = x\<rparr> = Some \<lparr>pc = x 17, xr = x\<rparr>"
  using code_at_word [OF assms] by (simp add: a64_step_def A64_NOP_def is_cond19_def is_cond14_def off_values)

lemma step_nop:
  assumes "code_at a (le32 A64_NOP) m"
  shows "a64_step holds m \<lparr>pc = a, xr = x\<rparr> = Some \<lparr>pc = a + 4, xr = x\<rparr>"
  using code_at_word [OF assms] by (simp add: a64_step_def)

text \<open>The absolute jump.\<close>

lemma run_jump:
  assumes "words_at a [0x58000051, 0xD61F0220] m" and "code_at (a + 8) (le64 v) m"
  shows "a64_run holds m 2 \<lparr>pc = a, xr = x\<rparr> = Some \<lparr>pc = v, xr = x(17 := v)\<rparr>"
  using assms step_ldr17 [of a m v] step_br17 [of "a + 4" m] by (simp add: numeral_2_eq_2)

section \<open>Offsets that fit\<close>

lemma small_signed:
  fixes x :: u64
  assumes "\<bar>sint x\<bar> < 2 ^ k" and "k < 63" and "k \<le> n" and "n < 64"
  shows "bit x n = bit x k"
proof -
  have "signed_take_bit k (sint x) = sint x" using assms(1) by (intro signed_take_bit_int_eq_self) auto
  then have "bit (signed_take_bit k (sint x)) n = bit (sint x) n" "bit (signed_take_bit k (sint x)) k = bit (sint x) k" by simp_all
  then show ?thesis using assms(2-4) by (cases "n = 63") (simp_all add: bit_signed_take_bit_iff min_def bit_signed_iff)
qed

text \<open>The masks of the decoder, as runs of ones.\<close>

lemma masks32:
  "(0xFC000000 :: u32) = ones 26 6" "(0x14000000 :: u32) = ones 28 1 OR ones 26 1" "(0x94000000 :: u32) = ones 31 1 OR ones 28 1 OR ones 26 1"
  "(0xFF00001F :: u32) = ones 24 8 OR ones 0 5" "(0xFFF8001F :: u32) = ones 19 13 OR ones 0 5" "(3 :: u32) = ones 0 2"
  by (simp_all add: ones_def mask_numeral)

lemma mask64: "(0x3FFFFFF :: u64) = ones 0 26"
  by (simp add: ones_def mask_numeral)

lemma branch_encoded:
  fixes d :: u64
  assumes "d AND 3 = 0" and "llabs (signed_drop_bit 2 d) < 0x1FFFFFF" and "opc = 0x14000000 \<or> opc = 0x94000000"
  defines "i \<equiv> opc OR ucast (signed_drop_bit 2 d AND 0x3FFFFFF)"
  shows "i AND 0xFC000000 = opc" "off26 i = d"
proof -
  have bits: "bit i n \<longleftrightarrow> n < 32 \<and> (bit opc n \<or> n < 26 \<and> bit d (n + 2))" for n
    unfolding i_def mask64 by (auto simp: bit_simps add.commute dest: bit_imp_le_length)
  have "bit (0x14000000 :: u32) n \<longleftrightarrow> n = 28 \<or> n = 26 \<or> n = 31 \<and> False"
    "bit (0x94000000 :: u32) n \<longleftrightarrow> n = 28 \<or> n = 26 \<or> n = 31 \<and> True" for n
    unfolding masks32 by (auto simp: bit_simps)
  then obtain l where o: "\<And>n. bit opc n \<longleftrightarrow> n = 28 \<or> n = 26 \<or> n = 31 \<and> l" using assms(3) by metis
  show "i AND 0xFC000000 = opc"
  proof (rule bit_word_eqI)
    fix n assume "n < LENGTH(32)"
    then show "bit (i AND 0xFC000000) n = bit opc n" unfolding masks32(1) by (auto simp: bit_simps bits o)
  qed
  have hi: "bit (signed_drop_bit 2 d) n = bit (signed_drop_bit 2 d) 25" if "25 \<le> n" "n < 64" for n
    using assms(2) that by (intro small_signed) (simp_all add: llabs_def)
  have top: "bit d n = bit d 27" if "27 \<le> n" "n < 64" for n
  proof -
    have "\<not> 62 \<le> n - 2" "2 + (n - 2) = n" "25 \<le> n - 2" using that by auto
    then show ?thesis using hi [of "n - 2"] by (simp add: bit_simps)
  qed
  show "off26 i = d"
  proof (rule bit_word_eqI)
    fix n assume n: "n < LENGTH(64)"
    have low: "\<not> bit d n" if "n < 2" using low_bits(2) [OF assms(1)] that by (auto simp: less_2_cases_iff)
    have off: "bit (off26 i) n = (if n < 28 then 2 \<le> n \<and> bit i (n - 2) else bit i 25)"
      using n by (auto simp: off26_def bit_simps min_def)
    consider "n < 2" | "2 \<le> n" "n < 28" | "28 \<le> n" by linarith
    then show "bit (off26 i) n = bit d n"
    proof cases
      case 1
      then show ?thesis using low off by simp
    next
      case 2
      then have "n - 2 < 26" "Suc (Suc (n - 2)) = n" by auto
      then show ?thesis using 2 off by (simp add: bits o)
    next
      case 3
      then show ?thesis using off top [of n] n by (simp add: bits o)
    qed
  qed
qed

section \<open>Branches\<close>

text \<open>A place in the middle of a relocation: instruction \<open>k\<close> is next, and nothing waits for it.\<close>

definition at_instr :: "nat \<Rightarrow> a64 \<Rightarrow> bool" where
  "at_instr k s \<longleftrightarrow> k < A64_MAX_INSTRUCTIONS \<and> length (dat s) = A64_MAX_INSTRUCTIONS \<and> inp s = basep s + word_of_nat (4 * k) \<and>
     basep s AND 3 = 0 \<and> outp s AND 3 = 0 \<and> (\<forall>fx\<in>set (fx_map (dat s ! k)). fx_bp fx = 0)"

lemma apply_no_fixes: "\<forall>fx\<in>set fs. fx_bp fx = 0 \<Longrightarrow> apply_fixes at fs m = (fs, m)"
  by (cases fs) auto

lemma index_set:
  assumes "at_instr k s"
  shows "get_and_set_current_index s = Inr (k, s\<lparr>dat := (dat s)[k := (dat s ! k)\<lparr>ins_at := outp s\<rparr>]\<rparr>)"
proof -
  have "k \<in> {0, 1, 2, 3, 4}" using assms by (auto simp: at_instr_def A64_MAX_INSTRUCTIONS_def)
  then have "get_ref_ins_index (inp s) s = k"
    using assms by (auto simp: at_instr_def get_ref_ins_index_def unat_div)
  then show ?thesis using assms by (simp add: get_and_set_current_index_def reset_current_ins_def at_instr_def)
qed

text \<open>The end of a fixer, when it has emitted \<open>bs\<close> with \<open>nops\<close> in front for instruction \<open>k\<close>.\<close>

definition done_with :: "nat \<Rightarrow> nat \<Rightarrow> u8 list \<Rightarrow> a64 \<Rightarrow> a64 \<Rightarrow> bool" where
  "done_with k nops bs s s' \<longleftrightarrow> inp s' = inp s + 4 \<and> ins_at (dat s' ! k) = outp s + word_of_nat (4 * nops) \<and>
     outp s' = ins_at (dat s' ! k) + word_of_nat (length bs) \<and> code_at (ins_at (dat s' ! k)) bs (code s')"

lemma done_code:
  assumes "done_with k nops bs s s'"
  shows "code_at (ins_at (dat s' ! k)) bs (code s')" "outp s' = ins_at (dat s' ! k) + word_of_nat (length bs)" "inp s' = inp s + 4"
  using assms unfolding done_with_def by blast+

lemma finish_emitted:
  assumes "at_instr k s" and "length bs < 1000"
    and "dat t = (dat s)[k := (dat s ! k)\<lparr>ins_at := outp t\<rparr>]" and "inp t = inp s" and "outp t = outp s + word_of_nat (4 * nops)"
  shows "\<exists>s'. finish k (emit_bytes bs t) = Inr s' \<and> done_with k nops bs s s'"
proof -
  have k: "k < length (dat s)" "k < A64_MAX_INSTRUCTIONS" using assms(1) by (simp_all add: at_instr_def)
  have fx: "fx_map (dat t ! k) = fx_map (dat s ! k)" "ins_at (dat t ! k) = outp t" using assms(3) k by simp_all
  have "\<forall>fx\<in>set (fx_map (dat s ! k)). fx_bp fx = 0" using assms(1) by (simp add: at_instr_def)
  note ap = apply_no_fixes [OF this]
  have same: "(dat t ! k)\<lparr>fx_map := fx_map (dat s ! k)\<rparr> = dat t ! k" unfolding fx(1) [symmetric] by simp
  have "finish k (emit_bytes bs t) = Inr ((emit_bytes bs t)\<lparr>inp := inp s + 4, dat := (dat t)[k := dat t ! k]\<rparr>)"
    using assms(4) k fx ap same by (simp add: finish_def process_fix_map_def emit_bytes_frame) (simp add: emit_bytes_def same)
  moreover have "code_at (outp t) bs (code (emit_bytes bs t))" using assms(2) by (rule emitted)
  ultimately show ?thesis using fx(2) assms(5) by (simp add: done_with_def emit_bytes_frame)
qed

lemma nop_if_place:
  assumes "at_instr k s"
  defines "s1 \<equiv> s\<lparr>dat := (dat s)[k := (dat s ! k)\<lparr>ins_at := outp s\<rparr>]\<rparr>"
  shows "\<exists>t. nop_if q k s1 = Inr t \<and> dat t = (dat s)[k := (dat s ! k)\<lparr>ins_at := outp t\<rparr>] \<and> inp t = inp s \<and>
    outp t = outp s + word_of_nat (4 * of_bool q)"
  using assms(1) by (cases q) (simp_all add: s1_def nop_if_def reset_current_ins_def at_instr_def emit_frame)

lemma fixer_emits:
  assumes "at_instr k s" and "length ws < 100" and "length bs < 100"
    and "\<And>s1. s1 = s\<lparr>dat := (dat s)[k := (dat s ! k)\<lparr>ins_at := outp s\<rparr>]\<rparr> \<Longrightarrow>
      F k s1 = res_bind (nop_if q k s1) (\<lambda>s2. Inr (emit_bytes bs (emit_all ws s2)))"
  shows "\<exists>s'. res_bind (get_and_set_current_index s) (\<lambda>(i, s1). res_bind (F i s1) (finish i)) = Inr s' \<and>
    done_with k (of_bool q) (concat (map le32 ws) @ bs) s s'"
proof -
  obtain t where t: "nop_if q k (s\<lparr>dat := (dat s)[k := (dat s ! k)\<lparr>ins_at := outp s\<rparr>]\<rparr>) = Inr t"
    "dat t = (dat s)[k := (dat s ! k)\<lparr>ins_at := outp t\<rparr>]" "inp t = inp s" "outp t = outp s + word_of_nat (4 * of_bool q)"
    using nop_if_place [OF assms(1)] by blast
  have "length (concat (map le32 ws) @ bs) < 1000" using assms(2,3) by simp
  from finish_emitted [OF assms(1) this t(2-4)] show ?thesis
    using assms(4) [OF refl] t(1) by (simp add: index_set [OF assms(1)] emit_all_code emit_bytes_append)
qed

lemma aligned_iff: "x AND 3 = 0 \<longleftrightarrow> (\<exists>k. (x :: u64) = word_of_nat (4 * k))"
proof
  assume "x AND 3 = 0"
  moreover have "x = (x AND 3) OR (x AND NOT 3)" by (simp add: bit.conj_disj_distrib [symmetric])
  ultimately have "x = x AND NOT 3" by simp
  then have "unat x = 4 * (unat x div 4)" using and_not_3 [of x] by metis
  then have "x = word_of_nat (4 * (unat x div 4))" by (metis of_nat_unat word_of_nat_eq_iff unsigned_of_nat ucast_id)
  then show "\<exists>k. x = word_of_nat (4 * k)" by blast
next
  assume "\<exists>k. x = word_of_nat (4 * k)"
  then show "x AND 3 = 0" using aligned_add [of 0] by auto
qed

lemma aligned_diff:
  assumes "x AND 3 = 0" and "y AND 3 = (0 :: u64)"
  shows "(x + y) AND 3 = 0" and "(x - y) AND 3 = 0"
proof -
  obtain j k where e: "x = word_of_nat (4 * j)" "y = word_of_nat (4 * k)" using assms by (auto simp only: aligned_iff)
  show "(x + y) AND 3 = 0" unfolding aligned_iff by (rule exI [of _ "j + k"]) (simp add: e distrib_left)
  have "x = (x - y) + word_of_nat (4 * k)" by (simp add: e)
  then show "(x - y) AND 3 = 0" using aligned_add [of "x - y" k] assms(1) by metis
qed

lemma off26_aligned: "off26 i AND 3 = 0"
proof (rule bit_word_eqI)
  fix n assume "n < LENGTH(64)"
  then show "bit (off26 i AND 3) n = bit (0 :: u64) n" unfolding twelve by (auto simp: off26_def bit_simps min_def)
qed

lemma run_link:
  assumes "words_at a [0x58000071, 0x1000009E, 0xD61F0220] m" and "code_at (a + 12) (le64 v) m"
  shows "a64_run holds m 3 \<lparr>pc = a, xr = x\<rparr> = Some \<lparr>pc = v, xr = x(17 := v, 30 := a + 20)\<rparr>"
proof -
  have w: "get32 a m = 0x58000071" "get32 (a + 4) m = 0x1000009E" "code_at (a + 8) (le32 0xD61F0220) m"
    using assms(1) by (simp_all add: code_at_word add.commute)
  have 1: "a64_step holds m \<lparr>pc = a, xr = x\<rparr> = Some \<lparr>pc = a + 4, xr = x(17 := v)\<rparr>"
    using w(1) code_at_dword [OF assms(2)]
    by (simp add: a64_step_def A64_NOP_def is_cond19_def is_cond14_def off_values set_xr_def)
  have 2: "a64_step holds m \<lparr>pc = a + 4, xr = x(17 := v)\<rparr> = Some \<lparr>pc = a + 8, xr = x(17 := v, 30 := a + 4 + 16)\<rparr>"
    using w(2) by (simp add: a64_step_def A64_NOP_def is_cond19_def is_cond14_def off_values set_xr_def)
  show ?thesis using step_br17 [OF w(3), of holds "x(17 := v, 30 := a + 4 + 16)"] by (simp add: numeral_3_eq_3 1 2) (simp add: add.commute)
qed

lemma step_branch:
  assumes "get32 a m = i" and "i AND 0xFC000000 = (if link then 0x94000000 else 0x14000000)"
  shows "a64_step holds m \<lparr>pc = a, xr = x\<rparr> = Some \<lparr>pc = a + off26 i, xr = if link then x(30 := a + 4) else x\<rparr>"
proof -
  have "A64_NOP AND 0xFC000000 \<noteq> 0x94000000" "A64_NOP AND 0xFC000000 \<noteq> 0x14000000" by (simp_all add: A64_NOP_def)
  then have "i \<noteq> A64_NOP" using assms(2) by (metis (full_types))
  then show ?thesis using assms by (simp add: a64_step_def split: if_splits)
qed

text \<open>C31. A moved \<open>B\<close> or \<open>BL\<close> to anywhere outside the moved instructions goes where it went: run from its place in the
  trampoline, the emitted code arrives at the architectural target of the original; it uses only
  \<open>X17\<close>, and \<open>BL\<close> leaves in \<open>X30\<close> the place of the next moved instruction.\<close>

theorem branch64_target:
  assumes "at_instr k s" and "ins = get32 (inp s) (code s)" and "ins AND 0xFC000000 = (if link then 0x94000000 else 0x14000000)"
    and "\<not> is_in_fixing_range (inp s + off26 ins) s"
  shows "\<exists>s' n c. fix_one s = Inr s' \<and> inp s' = inp s + 4 \<and> a64_run holds (code s') n \<lparr>pc = ins_at (dat s' ! k), xr = x\<rparr> = Some c \<and>
    pc c = inp s + off26 ins \<and> (\<forall>r. r \<noteq> 17 \<and> r \<noteq> 30 \<longrightarrow> xr c r = x r) \<and> xr c 30 = (if link then outp s' else x 30)"
proof -
  define v where "v = inp s + off26 ins"
  define d where "d = v - outp s"
  define opc :: u32 where "opc = (if link then 0x94000000 else 0x14000000)"
  have one: "fix_one s = res_bind (get_and_set_current_index s) (\<lambda>(i, s1). res_bind (branch_code ins i s1) (finish i))"
    using assms(2,3) by (simp add: fix_one_def fix_branch_imm_def Let_def split: if_splits)
  have inp4: "inp s AND 3 = 0" using assms(1) aligned_add [of "basep s" k] by (simp add: at_instr_def)
  have d4: "d AND 3 = 0" unfolding d_def v_def
    using assms(1) by (intro aligned_diff inp4 off26_aligned) (simp add: at_instr_def)
  have code: "branch_code ins k s1 =
    (if 0x1FFFFFF \<le> llabs (signed_drop_bit 2 d) then
       if link then res_bind (nop_if ((outp s + 8) AND 7 = 0) k s1) (\<lambda>s2. Inr (emit_bytes (le64 v) (emit_all [0x58000071, 0x1000009E, 0xD61F0220] s2)))
       else res_bind (nop_if ((outp s + 8) AND 7 \<noteq> 0) k s1) (\<lambda>s2. Inr (emit_bytes (le64 v) (emit_all [0x58000051, 0xD61F0220] s2)))
     else res_bind (nop_if False k s1) (\<lambda>s2. Inr (emit_bytes (le32 (opc OR ucast (signed_drop_bit 2 d AND 0x3FFFFFF))) (emit_all [] s2))))"
    if s1: "s1 = s\<lparr>dat := (dat s)[k := (dat s ! k)\<lparr>ins_at := outp s\<rparr>]\<rparr>" for s1
  proof -
    have e: "inp s1 = inp s" "outp s1 = outp s" "is_in_fixing_range v s1 = is_in_fixing_range v s" by (simp_all add: s1 is_in_fixing_range_def)
    show ?thesis unfolding branch_code_def Let_def e off26_def [symmetric] v_def [symmetric] d_def [symmetric]
      using assms(3,4) by (simp add: e v_def [symmetric] resolve_def nop_if_def emit_def opc_def del: emit_all.simps(2))
  qed
  consider "0x1FFFFFF \<le> llabs (signed_drop_bit 2 d)" "link" | "0x1FFFFFF \<le> llabs (signed_drop_bit 2 d)" "\<not> link" |
    "llabs (signed_drop_bit 2 d) < 0x1FFFFFF" by linarith
  then show ?thesis
  proof cases
    case 1
    obtain s' where s': "fix_one s = Inr s'" "done_with k (of_bool ((outp s + 8) AND 7 = 0)) (concat (map le32 [0x58000071, 0x1000009E, 0xD61F0220]) @ le64 v) s s'"
      unfolding one using fixer_emits [OF assms(1), of "[0x58000071, 0x1000009E, 0xD61F0220]" "le64 v" "branch_code ins" "(outp s + 8) AND 7 = 0"] code 1 by fastforce
    have "words_at (ins_at (dat s' ! k)) [0x58000071, 0x1000009E, 0xD61F0220] (code s')" "code_at (ins_at (dat s' ! k) + 12) (le64 v) (code s')"
      using done_code(1) [OF s'(2)] by (simp_all add: code_at_append add.assoc)
    from run_link [OF this, of holds x] show ?thesis using s'(1) done_code(2,3) [OF s'(2)] 1 unfolding v_def
      by (intro exI conjI) (assumption | rule refl | simp)+
  next
    case 2
    obtain s' where s': "fix_one s = Inr s'" "done_with k (of_bool ((outp s + 8) AND 7 \<noteq> 0)) (concat (map le32 [0x58000051, 0xD61F0220]) @ le64 v) s s'"
      unfolding one using fixer_emits [OF assms(1), of "[0x58000051, 0xD61F0220]" "le64 v" "branch_code ins" "(outp s + 8) AND 7 \<noteq> 0"] code 2 by fastforce
    have "words_at (ins_at (dat s' ! k)) [0x58000051, 0xD61F0220] (code s')" "code_at (ins_at (dat s' ! k) + 8) (le64 v) (code s')"
      using done_code(1) [OF s'(2)] by (simp_all add: code_at_append add.assoc)
    from run_jump [OF this, of holds x] show ?thesis using s'(1) done_code(2,3) [OF s'(2)] 2 unfolding v_def
      by (intro exI conjI) (assumption | rule refl | simp)+
  next
    case 3
    define i where "i = opc OR ucast (signed_drop_bit 2 d AND 0x3FFFFFF)"
    have "opc = 0x14000000 \<or> opc = 0x94000000" by (simp add: opc_def)
    note enc = branch_encoded [OF d4 3 this, folded i_def]
    obtain s' where s': "fix_one s = Inr s'" "done_with k 0 (le32 i) s s'"
      unfolding one using fixer_emits [OF assms(1), of "[]" "le32 i" "branch_code ins" False] code 3 by (fastforce simp: i_def)
    then have at: "ins_at (dat s' ! k) = outp s" "get32 (outp s) (code s') = i" "outp s' = outp s + 4"
      by (auto simp: done_with_def code_at_word)
    have "a64_run holds (code s') 1 \<lparr>pc = ins_at (dat s' ! k), xr = x\<rparr> = Some \<lparr>pc = v, xr = if link then x(30 := outp s') else x\<rparr>"
      using step_branch [OF at(2), of link holds x] enc by (simp add: opc_def d_def at)
    then show ?thesis using s'(1) done_code(3) [OF s'(2)] unfolding v_def
      by (intro exI conjI) (assumption | rule refl | simp)+
  qed
qed

lemma start_at_instr: "symbol AND 3 = 0 \<Longrightarrow> row AND 3 = 0 \<Longrightarrow> at_instr 0 (start_fixing symbol count row m)"
  by (simp add: at_instr_def start_fixing_def no_fixes_def A64_MAX_INSTRUCTIONS_def A64_MAX_REFERENCES_def)

lemma one_word: "get32 (a :: u64) (write_bytes a (le32 w) m) = w"
  by (rule code_at_word, rule code_at_written) simp

definition sample64 :: "u32 \<Rightarrow> a64" where
  "sample64 w = start_fixing 0x10000 4 0x20000 (write_bytes 0x10000 (le32 w) (\<lambda>_. 0))"

lemma sample64_at: "at_instr 0 (sample64 w)" "get32 (inp (sample64 w)) (code (sample64 w)) = w" "inp (sample64 w) = 0x10000"
    "outp (sample64 w) = 0x20000"
  using start_at_instr [of "0x10000" "0x20000" 4] one_word by (simp_all add: sample64_def start_fixing_def)

theorem branch64_target_witness:
  "\<exists>s' n c. fix_one (sample64 0x94000400) = Inr s' \<and> a64_run (\<lambda>_ _. False) (code s') n \<lparr>pc = ins_at (dat s' ! 0), xr = \<lambda>_. 0\<rparr> = Some c \<and>
    pc c = 0x11000 \<and> xr c 30 = outp s'"
proof -
  have "off26 0x94000400 = 0x1000" by code_simp
  moreover have "\<not> is_in_fixing_range (0x11000) (sample64 0x94000400)"
    by (simp add: is_in_fixing_range_def sample64_def start_fixing_def)
  ultimately show ?thesis
    using branch64_target [of 0 "sample64 0x94000400" "0x94000400" True "\<lambda>_ _. False" "\<lambda>_. 0"] sample64_at [of "0x94000400"]
    by auto
qed


section \<open>Conditional branches\<close>

text \<open>The two shapes: the offset field ends below bit \<open>hi\<close>.\<close>

definition lmask_of :: "nat \<Rightarrow> u32" where
  "lmask_of hi = (if hi = 24 then 0xFF00001F else 0xFFF8001F)"

definition off_of :: "nat \<Rightarrow> u32 \<Rightarrow> u64" where
  "off_of hi i = (if hi = 24 then off19 i else off14 i)"

definition is_cond_of :: "nat \<Rightarrow> u32 \<Rightarrow> bool" where
  "is_cond_of hi i = (if hi = 24 then is_cond19 i else is_cond14 i)"

lemma bit_lmask: "hi = 24 \<or> hi = 19 \<Longrightarrow> bit (lmask_of hi) n \<longleftrightarrow> n < 5 \<or> hi \<le> n \<and> n < 32"
  unfolding lmask_of_def masks32 by (auto simp: bit_simps)

lemma bit_off_of:
  assumes "hi = 24 \<or> hi = 19" and "n < 64"
  shows "bit (off_of hi i) n = (if n < hi - 3 then 2 \<le> n \<and> bit i (n + 3) else bit i (hi - 1))"
  using assms unfolding off_of_def off19_def off14_def masks32
  by (elim disjE; (auto simp: bit_simps min_def add.commute; simp add: eval_nat_numeral)?)

definition cond_word :: "u32 \<Rightarrow> u64 \<Rightarrow> u32 \<Rightarrow> u32" where
  "cond_word lmask off ins = (ucast (push_bit 5 off) AND NOT lmask) OR (ins AND lmask)"

lemma bit_cond_word:
  assumes "hi = 24 \<or> hi = 19" and "n < 32"
  shows "bit (cond_word (lmask_of hi) off ins) n = (if n < 5 \<or> hi \<le> n then bit ins n else bit off (n - 5))"
  using assms bit_lmask [OF assms(1), of n] by (auto simp: cond_word_def bit_simps)

lemma cond_word_bits:
  assumes "hi = 24 \<or> hi = 19"
  shows "cond_word (lmask_of hi) off ins AND lmask_of hi = ins AND lmask_of hi"
proof (rule bit_word_eqI)
  fix n assume "n < LENGTH(32)"
  then show "bit (cond_word (lmask_of hi) off ins AND lmask_of hi) n = bit (ins AND lmask_of hi) n"
    using bit_cond_word [OF assms, of n off ins] bit_lmask [OF assms, of n] by (auto simp: bit_and_iff)
qed

lemma and_sub:
  assumes "x AND l = y AND l" and "m AND l = (m :: u32)"
  shows "x AND m = y AND m"
  using assms by (metis and.assoc and.commute)

lemma cond_word_class:
  assumes "hi = 24 \<or> hi = 19"
  shows "is_cond_of hi (cond_word (lmask_of hi) off ins) = is_cond_of hi ins"
proof -
  have m: "0xFF000010 AND lmask_of 24 = 0xFF000010" "0x7F000000 AND lmask_of 24 = 0x7F000000" "0x7F000000 AND lmask_of 19 = 0x7F000000"
    by (simp_all add: lmask_of_def)
  show ?thesis
  proof (cases "hi = 24")
    case True
    show ?thesis unfolding True is_cond_of_def is_cond19_def
      by (simp only: and_sub [OF cond_word_bits m(1)] and_sub [OF cond_word_bits m(2)] simp_thms if_True)
  next
    case False
    then have "hi = 19" using assms by simp
    have "is_cond_of 19 i = is_cond14 i" for i by (simp add: is_cond_of_def)
    then show ?thesis unfolding \<open>hi = 19\<close> is_cond14_def
      by (simp only: and_sub [OF cond_word_bits m(3)] simp_thms)
  qed
qed

lemma cond_encoded:
  assumes "hi = 24 \<or> hi = 19" and "d AND 3 = 0" and "llabs (signed_drop_bit 2 d) < 2 ^ (hi - 6)"
  shows "off_of hi (cond_word (lmask_of hi) (signed_drop_bit 2 d) ins) = d"
proof (rule bit_word_eqI)
  define e where "e = signed_drop_bit 2 d"
  have e: "bit e n = bit d (n + 2)" if "n < 62" for n using that by (simp add: e_def bit_simps add.commute)
  have hi: "bit e n = bit e (hi - 6)" if "hi - 6 \<le> n" "n < 64" for n
    using assms(1,3) that by (intro small_signed) (auto simp: llabs_def e_def)
  have top: "bit d n = bit d (hi - 4)" if "hi - 4 \<le> n" "n < 64" for n
  proof -
    have "hi - 6 \<le> n - 2" "n - 2 < 64" "n - 2 < 62" "n - 2 + 2 = n" "hi - 6 < 62" "hi - 6 + 2 = hi - 4" using that assms(1) by auto
    then show ?thesis using hi [of "n - 2"] e [of "n - 2"] e [of "hi - 6"] by metis
  qed
  fix n assume n: "n < LENGTH(64)"
  let ?w = "cond_word (lmask_of hi) e ins"
  have w: "bit ?w j = bit d (j - 3)" if "5 \<le> j" "j < hi" for j
  proof -
    have "bit ?w j = bit e (j - 5)" using bit_cond_word [OF assms(1), of j e ins] that assms(1) by auto
    moreover have "j - 5 < 62" "j - 5 + 2 = j - 3" using that assms(1) by auto
    ultimately show ?thesis using e [of "j - 5"] by metis
  qed
  have low: "\<not> bit d n" if "n < 2" using low_bits(2) [OF assms(2)] that by (auto simp: less_2_cases_iff)
  consider "n < 2" | "2 \<le> n" "n < hi - 3" | "hi - 3 \<le> n" by linarith
  then show "bit (off_of hi (cond_word (lmask_of hi) (signed_drop_bit 2 d) ins)) n = bit d n"
  proof cases
    case 1
    then show ?thesis using low bit_off_of [OF assms(1), of n] assms(1) by auto
  next
    case 2
    then show ?thesis using bit_off_of [OF assms(1), of n ?w] w [of "n + 3"] assms(1) by (auto simp: e_def [symmetric])
  next
    case 3
    then show ?thesis using bit_off_of [OF assms(1), of n ?w] w [of "hi - 1"] top [of n] n assms(1) by (auto simp: e_def [symmetric])
  qed
qed

lemma and_bit: "x AND m = v \<Longrightarrow> bit m n \<Longrightarrow> bit (x :: u32) n = bit v n"
  by (metis bit_and_iff)

text \<open>The classes do not overlap.\<close>

lemma bits_of_class: "bit (0xFF000010 :: u32) 25" "bit (0x7F000000 :: u32) 25" "bit (0x7F000000 :: u32) 30" "bit (0x7F000000 :: u32) 29"
  "bit (0xFF000010 :: u32) 30" "bit (0xFC000000 :: u32) 30" "bit (0xFC000000 :: u32) 29"
  by code_simp+

lemma cond_not_branch:
  assumes "is_cond_of hi i"
  shows "i AND 0xFC000000 \<noteq> 0x14000000" "i AND 0xFC000000 \<noteq> 0x94000000" "i \<noteq> A64_NOP" "hi = 19 \<Longrightarrow> \<not> is_cond19 i"
proof -
  have c: "i AND 0xFF000010 = 0x54000000 \<Longrightarrow> bit i 30" "i AND 0x7F000000 = 0x34000000 \<Longrightarrow> bit i 29" "i AND 0x7F000000 = 0x35000000 \<Longrightarrow> bit i 29"
    "i AND 0x7F000000 = 0x36000000 \<Longrightarrow> bit i 29" "i AND 0x7F000000 = 0x37000000 \<Longrightarrow> bit i 29"
    "i AND 0xFC000000 = 0x14000000 \<Longrightarrow> \<not> bit i 30 \<and> \<not> bit i 29" "i AND 0xFC000000 = 0x94000000 \<Longrightarrow> \<not> bit i 30 \<and> \<not> bit i 29"
    by (drule and_bit [OF _ bits_of_class(5)] and_bit [OF _ bits_of_class(4)], simp)+
      (frule and_bit [OF _ bits_of_class(6)], drule and_bit [OF _ bits_of_class(7)], simp)+
  show "i AND 0xFC000000 \<noteq> 0x14000000" "i AND 0xFC000000 \<noteq> 0x94000000"
    using assms c by (auto simp: is_cond_of_def is_cond19_def is_cond14_def split: if_splits)
  show "i \<noteq> A64_NOP" using assms by (auto simp: A64_NOP_def is_cond_of_def is_cond19_def is_cond14_def split: if_splits)
  show "\<not> is_cond19 i" if "hi = 19"
  proof
    assume "is_cond19 i"
    then have "\<not> bit i 25" unfolding is_cond19_def
      by (elim disjE) (drule and_bit [OF _ bits_of_class(1)] and_bit [OF _ bits_of_class(2)], simp)+
    moreover have "bit i 25" using assms that unfolding is_cond_of_def is_cond14_def
      by simp (elim disjE; drule and_bit [OF _ bits_of_class(2)], simp)
    ultimately show False by simp
  qed
qed

lemma step_cond:
  assumes "hi = 24 \<or> hi = 19" and "is_cond_of hi ins" and "d AND 3 = 0" and "llabs (signed_drop_bit 2 d) < 2 ^ (hi - 6)"
    and "get32 a m = cond_word (lmask_of hi) (signed_drop_bit 2 d) ins"
  shows "a64_step holds m \<lparr>pc = a, xr = x\<rparr> = Some \<lparr>pc = a + (if holds (ins AND lmask_of hi) x then d else 4), xr = x\<rparr>"
proof -
  let ?w = "cond_word (lmask_of hi) (signed_drop_bit 2 d) ins"
  have w: "is_cond_of hi ?w" using assms(1,2) by (simp add: cond_word_class)
  note nb = cond_not_branch [OF w]
  have o: "off_of hi ?w = d" "?w AND lmask_of hi = ins AND lmask_of hi"
    using cond_encoded [OF assms(1,3,4)] cond_word_bits [OF assms(1)] by simp_all
  define w' where "w' = ?w"
  show ?thesis using assms(1) w nb o assms(5) unfolding w'_def [symmetric]
    by (elim disjE) (simp_all add: a64_step_def is_cond_of_def lmask_of_def off_of_def)
qed

text \<open>The target the code computes: it takes the offset for a positive number.\<close>

lemma cond_target:
  assumes "hi = 24 \<or> hi = 19"
  shows "ucast (drop_bit 3 (ins AND NOT (lmask_of hi))) = off_of hi ins + (if bit ins (hi - 1) then 2 ^ (hi - 3) else 0)"
proof -
  define u where "u = (ucast (drop_bit 3 (ins AND NOT (lmask_of hi))) :: u64)"
  have u: "bit u n \<longleftrightarrow> 2 \<le> n \<and> n < hi - 3 \<and> bit ins (n + 3)" if "n < 64" for n
    using that assms bit_lmask [OF assms, of "n + 3"] by (auto simp: u_def bit_simps add.commute)
  show ?thesis
  proof (cases "bit ins (hi - 1)")
    case False
    have "u = off_of hi ins"
      by (rule bit_word_eqI) (use False bit_off_of [OF assms] u in auto)
    then show ?thesis using False by (simp add: u_def)
  next
    case True
    have "off_of hi ins = u OR NOT (mask (hi - 3))"
      by (rule bit_word_eqI) (use True bit_off_of [OF assms] u in \<open>auto simp: bit_simps\<close>)
    moreover have "u AND NOT (mask (hi - 3)) = 0"
      by (rule bit_word_eqI) (use u in \<open>auto simp: bit_simps\<close>)
    ultimately have "off_of hi ins = u + NOT (mask (hi - 3))" by (simp add: disjunctive_add_eq_or)
    also have "NOT (mask (hi - 3)) = - (2 ^ (hi - 3) :: u64)" by (simp add: minus_exp_eq_not_mask)
    finally show ?thesis using True by (simp add: u_def)
  qed
qed

lemma run_far_cond:
  assumes "hi = 24 \<or> hi = 19" and "is_cond_of hi ins"
    and "words_at a [cond_word (lmask_of hi) 2 ins, 0x14000005, 0x58000051, 0xD61F0220] m" and "code_at (a + 16) (le64 v) m"
  shows "\<exists>n. a64_run holds m n \<lparr>pc = a, xr = x\<rparr> =
    Some (if holds (ins AND lmask_of hi) x then \<lparr>pc = v, xr = x(17 := v)\<rparr> else \<lparr>pc = a + 24, xr = x\<rparr>)"
proof -
  have w: "get32 a m = cond_word (lmask_of hi) (signed_drop_bit 2 8) ins" "get32 (a + 4) m = 0x14000005"
    "words_at (a + 8) [0x58000051, 0xD61F0220] m"
    using assms(3) by (simp_all add: code_at_word add.commute)
  have "llabs (signed_drop_bit 2 8) < 2 ^ (hi - 6)" using assms(1) by (auto simp: llabs_def)
  note st = step_cond [OF assms(1,2) _ this w(1), of holds x]
  show ?thesis
  proof (cases "holds (ins AND lmask_of hi) x")
    case True
    have "code_at (a + 8 + 8) (le64 v) m" using assms(4) by (simp add: add.commute)
    from run_jump [OF w(3) this, of holds x] True st show ?thesis
      by (intro exI [of _ "Suc 2"]) (simp del: words_at_Cons add: numeral_2_eq_2)
  next
    case False
    have "a64_step holds m \<lparr>pc = a + 4, xr = x\<rparr> = Some \<lparr>pc = a + 4 + off26 0x14000005, xr = x\<rparr>"
      using step_branch [OF w(2), of False] by simp
    then show ?thesis using False st by (intro exI [of _ 2]) (simp add: numeral_2_eq_2 off_values add.commute)
  qed
qed

text \<open>C32. A moved conditional branch to somewhere outside the moved instructions goes where it went when it is a forward
  branch: taken, it arrives at its
  architectural target, otherwise at the next moved instruction, and at most \<open>X17\<close> changes. A backward
  one, whose offset the code takes for a positive number, arrives 2 MB (for \<open>TBZ\<close> and
  \<open>TBNZ\<close> 64 KB) beyond its target, provided that this place is outside the moved instructions. Branches within the moved
  instructions, which go through the table of fix-ups, are not covered.\<close>

theorem cond64_target:
  assumes "at_instr k s" and "ins = get32 (inp s) (code s)" and "hi = 24 \<and> is_cond19 ins \<or> hi = 19 \<and> is_cond14 ins"
    and "v = inp s + off_of hi ins + (if bit ins (hi - 1) then 2 ^ (hi - 3) else 0)" and "\<not> is_in_fixing_range v s"
  shows "\<exists>s'. fix_one s = Inr s' \<and> inp s' = inp s + 4 \<and>
    (\<exists>n c. a64_run holds (code s') n \<lparr>pc = ins_at (dat s' ! k), xr = x\<rparr> = Some c \<and>
      pc c = (if holds (ins AND lmask_of hi) x then v else outp s') \<and> (\<forall>r. r \<noteq> 17 \<longrightarrow> xr c r = x r))"
proof -
  have hi: "hi = 24 \<or> hi = 19" and cls: "is_cond_of hi ins" using assms(3) by (auto simp: is_cond_of_def)
  note nb = cond_not_branch [OF cls]
  define d where "d = v - outp s"
  have mask: "cond_mask ins = Some (lmask_of hi)"
    using assms(3) nb(4) by (auto simp: cond_mask_def lmask_of_def is_cond19_def is_cond14_def)
  have one: "fix_one s = res_bind (get_and_set_current_index s) (\<lambda>(i, s1). res_bind (cond_code ins (lmask_of hi) i s1) (finish i))"
    using assms(2) nb(1,2) mask by (simp add: fix_one_def fix_branch_imm_def fix_cond_comp_test_branch_def Let_def)
  have v: "inp s + ucast (drop_bit 3 (ins AND NOT (lmask_of hi))) = v"
    using cond_target [OF hi, of ins] assms(4) by simp
  have "ucast (drop_bit 3 (ins AND NOT (lmask_of hi))) AND (3 :: u64) = 0"
    unfolding twelve by (rule bit_word_eqI) (use bit_lmask [OF hi] in \<open>auto simp: bit_simps\<close>)
  moreover have "inp s AND 3 = 0" using assms(1) aligned_add [of "basep s" k] by (simp add: at_instr_def)
  ultimately have "v AND 3 = 0" unfolding v [symmetric] by (intro aligned_diff)
  then have d4: "d AND 3 = 0" unfolding d_def using assms(1) by (intro aligned_diff) (simp_all add: at_instr_def)
  define B where "B = uint (drop_bit 6 (NOT (lmask_of hi)))"
  have B: "B < 2 ^ (hi - 6)" using hi by (auto simp: B_def lmask_of_def)
  have far: "(0x40 AND NOT (lmask_of hi)) OR (ins AND lmask_of hi) = cond_word (lmask_of hi) 2 ins"
    by (simp add: cond_word_def)
  have code: "cond_code ins (lmask_of hi) k s1 =
    (if B \<le> llabs (signed_drop_bit 2 d) then
       res_bind (nop_if ((outp s + 16) AND 7 \<noteq> 0) k s1) (\<lambda>s2.
         Inr (emit_bytes (le64 v) (emit_all [cond_word (lmask_of hi) 2 ins, 0x14000005, 0x58000051, 0xD61F0220] s2)))
     else res_bind (nop_if False k s1) (\<lambda>s2. Inr (emit_bytes (le32 (cond_word (lmask_of hi) (signed_drop_bit 2 d) ins)) (emit_all [] s2))))"
    if s1: "s1 = s\<lparr>dat := (dat s)[k := (dat s ! k)\<lparr>ins_at := outp s\<rparr>]\<rparr>" for s1
  proof -
    have e: "inp s1 = inp s" "outp s1 = outp s" "\<not> is_in_fixing_range v s1" using assms(5) by (simp_all add: s1 is_in_fixing_range_def)
    show ?thesis unfolding cond_code_def Let_def e(1,2) v d_def [symmetric] far B_def [symmetric]
      using e by (simp add: resolve_def nop_if_def emit_def cond_word_def del: emit_all.simps(2))
  qed
  show ?thesis
  proof (cases "B \<le> llabs (signed_drop_bit 2 d)")
    case True
    obtain s' where s': "fix_one s = Inr s'" "done_with k (of_bool ((outp s + 16) AND 7 \<noteq> 0))
        (concat (map le32 [cond_word (lmask_of hi) 2 ins, 0x14000005, 0x58000051, 0xD61F0220]) @ le64 v) s s'"
      unfolding one using fixer_emits [OF assms(1), of "[cond_word (lmask_of hi) 2 ins, 0x14000005, 0x58000051, 0xD61F0220]" "le64 v"
        "cond_code ins (lmask_of hi)" "(outp s + 16) AND 7 \<noteq> 0"] code True by fastforce
    have "words_at (ins_at (dat s' ! k)) [cond_word (lmask_of hi) 2 ins, 0x14000005, 0x58000051, 0xD61F0220] (code s')"
      "code_at (ins_at (dat s' ! k) + 16) (le64 v) (code s')"
      using done_code(1) [OF s'(2)] by (simp_all add: code_at_append add.assoc)
    from run_far_cond [OF hi cls this, of holds x] obtain n where
      n: "a64_run holds (code s') n \<lparr>pc = ins_at (dat s' ! k), xr = x\<rparr> =
        Some (if holds (ins AND lmask_of hi) x then \<lparr>pc = v, xr = x(17 := v)\<rparr> else \<lparr>pc = ins_at (dat s' ! k) + 24, xr = x\<rparr>)" by blast
    show ?thesis
      by (rule exI [of _ s'], intro conjI, rule s'(1), rule done_code(3) [OF s'(2)], intro exI conjI, rule n)
        (use done_code(2) [OF s'(2)] in auto)
  next
    case False
    have "llabs (signed_drop_bit 2 d) < 2 ^ (hi - 6)" using False B by linarith
    note st = step_cond [OF hi cls d4 this]
    obtain s' where s': "fix_one s = Inr s'" "done_with k 0 (le32 (cond_word (lmask_of hi) (signed_drop_bit 2 d) ins)) s s'"
      unfolding one using fixer_emits [OF assms(1), of "[]" "le32 (cond_word (lmask_of hi) (signed_drop_bit 2 d) ins)" "cond_code ins (lmask_of hi)" False] code False
      by fastforce
    then have at: "ins_at (dat s' ! k) = outp s" "outp s' = outp s + 4" "get32 (outp s) (code s') = cond_word (lmask_of hi) (signed_drop_bit 2 d) ins"
      by (auto simp: done_with_def code_at_word)
    have "a64_run holds (code s') 1 \<lparr>pc = ins_at (dat s' ! k), xr = x\<rparr> =
      Some \<lparr>pc = if holds (ins AND lmask_of hi) x then v else outp s', xr = x\<rparr>"
      using st [OF at(3), of holds x] by (simp add: at d_def)
    then show ?thesis using s'(1) done_code(3) [OF s'(2)]
      by (intro exI conjI) (assumption | rule refl | simp)+
  qed
qed

lemma sample_cond: "is_cond19 0x54000040" "is_cond19 0x54FFFFC0" "off19 0x54000040 = 8" "off19 0x54FFFFC0 = - 8"
    "bit (0x54FFFFC0 :: u32) 23" "\<not> bit (0x54000040 :: u32) 23"
  by (simp_all add: is_cond19_def) code_simp+

theorem cond64_target_witness:
  "\<exists>s'. fix_one (sample64 0x54FFFFC0) = Inr s' \<and>
    (\<exists>n c. a64_run (\<lambda>_ _. True) (code s') n \<lparr>pc = ins_at (dat s' ! 0), xr = \<lambda>_. 0\<rparr> = Some c \<and> pc c = 0x10000 - 8 + 0x200000)"
proof -
  have "\<not> is_in_fixing_range (0x10000 - 8 + 0x200000) (sample64 0x54FFFFC0)"
    by (simp add: is_in_fixing_range_def sample64_def start_fixing_def)
  then show ?thesis
    using cond64_target [of 0 "sample64 0x54FFFFC0" "0x54FFFFC0" 24 _ "\<lambda>_ _. True" "\<lambda>_. 0"] sample64_at [of "0x54FFFFC0"] sample_cond
    by (auto simp: off_of_def)
qed


section \<open>Addresses and literals\<close>

lemma and_bits: "x AND m = v \<Longrightarrow> \<forall>n\<in>set ns. bit m n \<Longrightarrow> \<forall>n\<in>set ns. bit (x :: u32) n = bit v n"
  using and_bit by blast

lemma adr_masks:
  "\<forall>n\<in>set [26, 27]. bit (0x9F000000 :: u32) n" "\<forall>n\<in>set [26, 27]. \<not> bit (0x10000000 :: u32) n"
  "\<forall>n\<in>set [26]. bit (0xFC000000 :: u32) n \<and> bit (0x14000000 :: u32) n \<and> bit (0x94000000 :: u32) n \<and> bit (0xFF000010 :: u32) n \<and>
     bit (0x54000000 :: u32) n \<and> bit (0x7F000000 :: u32) n \<and> bit (0x34000000 :: u32) n \<and> bit (0x35000000 :: u32) n \<and>
     bit (0x36000000 :: u32) n \<and> bit (0x37000000 :: u32) n"
  "\<forall>n\<in>set [27]. bit (0xFF000000 :: u32) n \<and> bit (0xD8000000 :: u32) n \<and> bit (0xBF000000 :: u32) n \<and> bit (0x18000000 :: u32) n \<and>
     bit (0x3F000000 :: u32) n \<and> bit (0x1C000000 :: u32) n \<and> bit (0x98000000 :: u32) n"
  by code_simp+

lemma adr_only:
  assumes "ins AND 0x9F000000 = 0x10000000" and "ins = get32 (inp s) (code s)"
  shows "fix_one s = res_bind (get_and_set_current_index s) (\<lambda>(i, s1). res_bind (adr_code ins i s1) (finish i))"
proof -
  have b: "\<not> bit ins 26" "\<not> bit ins 27" using and_bits [OF assms(1) adr_masks(1)] adr_masks(2) by auto
  have m: "ins AND m \<noteq> v" if "bit m n" "bit v n" "\<not> bit ins n" for m v n
    using that by (metis bit_and_iff)
  have "fix_branch_imm s = None" "cond_mask ins = None"
    using m [of _ 26] b(1) adr_masks(3) by (simp_all add: fix_branch_imm_def cond_mask_def Let_def assms(2) [symmetric])
  moreover have "ins AND 0xFF000000 \<noteq> 0xD8000000" "loadlit_kind ins = None"
    using m [of _ 27] b(2) adr_masks(4) by (simp_all add: loadlit_kind_def Let_def)
  ultimately show ?thesis
    using assms by (simp add: fix_one_def fix_cond_comp_test_branch_def fix_loadlit_def fix_pcreladdr_def Let_def)
qed

lemma masks_adr:
  "(0xFFFFFF :: u32) = ones 0 24" "(0x1F :: u32) = ones 0 5" "(0x9F000000 :: u32) = ones 31 1 OR ones 24 5" "(0x10000000 :: u32) = ones 28 1"
  by (simp_all add: ones_def mask_numeral)

lemma bit_off21:
  assumes "n < 64"
  shows "bit (off21 i) n = (if n < 2 then bit i (n + 29) else if n < 21 then bit i (n + 3) else bit i 23)"
  using assms unfolding off21_def masks32
  by (auto simp: bit_simps min_def add.commute; simp add: eval_nat_numeral)

definition adr_word :: "u64 \<Rightarrow> u32 \<Rightarrow> u32" where
  "adr_word d ins = (ucast (push_bit 3 d) AND 0xFFFFFF) OR (ins AND 0xFF00001F)"

lemma bit_adr_word: "n < 32 \<Longrightarrow> bit (adr_word d ins) n \<longleftrightarrow> n < 24 \<and> 3 \<le> n \<and> bit d (n - 3) \<or> (24 \<le> n \<or> n < 5) \<and> bit ins n"
  unfolding adr_word_def masks_adr masks32 by (auto simp: bit_simps)

lemma same_low:
  assumes "x AND 3 = 0"
  shows "(y + x) AND 3 = y AND (3 :: u64)"
proof -
  obtain j where "x = word_of_nat (4 * j)" using assms aligned_iff by blast
  then show ?thesis by (simp only: aligned_add)
qed

lemma low_bits_eq: "x AND 3 = y AND (3 :: u64) \<Longrightarrow> n < 2 \<Longrightarrow> bit x n = bit y n"
proof -
  assume "x AND 3 = y AND 3" "n < 2"
  then have "bit (x AND mask 2) n = bit (y AND mask 2) n" unfolding twelve by simp
  then show ?thesis using \<open>n < 2\<close> by (simp add: bit_simps)
qed

lemma immlo: "drop_bit 30 (push_bit 1 ins) = drop_bit 29 ins AND (3 :: u32)"
proof (rule bit_word_eqI)
  fix n assume n: "n < LENGTH(32)"
  have "bit (push_bit 1 ins) (30 + n) = (30 + n < 32 \<and> bit ins (29 + n))"
    by (subst bit_push_bit_iff) (auto dest: bit_imp_le_length simp: add.commute)
  then show "bit (drop_bit 30 (push_bit 1 ins)) n = bit (drop_bit 29 ins AND 3) n"
    unfolding masks32 by (auto simp: bit_drop_bit_eq bit_and_iff)
qed

lemma zero_ext_adr:
  assumes "\<not> bit ins 23"
  shows "ucast (signed_drop_bit 11 (push_bit 8 ins) AND NOT 3) OR ucast (drop_bit 29 ins AND 3) = off21 ins"
proof -
  let ?z = "(signed_drop_bit 11 (push_bit 8 ins) AND NOT 3) OR (drop_bit 29 ins AND 3) :: u32"
  have "\<not> bit ?z 31" using assms unfolding masks32 by (auto simp: bit_simps; simp add: eval_nat_numeral)
  then have "scast ?z = (ucast ?z :: u64)"
    by (intro bit_word_eqI) (auto simp: bit_simps min_def not_le dest: bit_imp_le_length elim: le_less_Suc_eq [THEN iffD1, rotated])
  then show ?thesis by (simp add: off21_def unsigned_or_eq)
qed

text \<open>A moved \<open>ADR\<close> to a place ahead that is still in reach computes the right address, but when that address is not
  a multiple of four its two low bits spill into the register number: the address lands in another
  register.\<close>

theorem adr64_spills:
  assumes "at_instr k s" and "ins = get32 (inp s) (code s)" and "ins AND 0x9F000000 = 0x10000000" and "\<not> bit ins 23"
    and "t = inp s + off21 ins" and "\<not> is_in_fixing_range t s" and "llabs (t - outp s) < 0xFFFFF"
  shows "\<exists>s' w. fix_one s = Inr s' \<and> ins_at (dat s' ! k) = outp s \<and> outp s' = outp s + 4 \<and> get32 (outp s) (code s') = w \<and>
    w AND 0x9F000000 = 0x10000000 \<and> outp s + off21 w = t \<and> rd w = unat ((ins AND 0x1F) OR ucast (push_bit 3 (t AND 3)))"
proof -
  define d where "d = t - outp s"
  define w where "w = adr_word d ins"
  have tgt: "inp s + (ucast (signed_drop_bit 11 (push_bit 8 ins) AND NOT 3) OR ucast (drop_bit 30 (push_bit 1 ins))) = t"
  proof -
    have "ucast (signed_drop_bit 11 (push_bit 8 ins) AND NOT 3) OR ucast (drop_bit 30 (push_bit 1 ins)) = off21 ins"
      unfolding immlo by (rule zero_ext_adr [OF assms(4)])
    then show ?thesis using assms(5) by simp
  qed
  have out: "outp s AND 3 = 0" and inp: "inp s AND 3 = 0"
    using assms(1) aligned_add [of "basep s" k] by (simp_all add: at_instr_def)
  have code: "adr_code ins k s1 = res_bind (nop_if False k s1) (\<lambda>s2. Inr (emit_bytes (le32 w) (emit_all [] s2)))"
    if s1: "s1 = s\<lparr>dat := (dat s)[k := (dat s ! k)\<lparr>ins_at := outp s\<rparr>]\<rparr>" for s1
  proof -
    have e: "inp s1 = inp s" "outp s1 = outp s" "\<not> is_in_fixing_range t s1" using assms(6) by (simp_all add: s1 is_in_fixing_range_def)
    show ?thesis unfolding adr_code_def Let_def e(1,2) tgt
      using e assms(7) by (simp add: resolve_def nop_if_def emit_def w_def adr_word_def d_def)
  qed
  obtain s' where s': "fix_one s = Inr s'" "done_with k 0 (le32 w) s s'"
    unfolding adr_only [OF assms(3,2)] using fixer_emits [OF assms(1), of "[]" "le32 w" "adr_code ins" False] code by fastforce
  then have at: "ins_at (dat s' ! k) = outp s" "outp s' = outp s + 4" "get32 (outp s) (code s') = w"
    by (auto simp: done_with_def code_at_word)
  have d3: "d AND 3 = t AND 3" "d AND 3 = off21 ins AND 3"
  proof -
    have "t = d + outp s" "d = off21 ins + (inp s - outp s)" by (simp_all add: d_def assms(5))
    then show "d AND 3 = t AND 3" "d AND 3 = off21 ins AND 3"
      using same_low [OF out, of d] same_low [OF aligned_diff(2) [OF inp out], of "off21 ins"] by metis+
  qed
  have op: "w AND 0x9F000000 = 0x10000000"
  proof -
    have "w AND 0x9F000000 = ins AND 0x9F000000"
      unfolding masks_adr by (rule bit_word_eqI) (auto simp: bit_simps w_def bit_adr_word)
    then show ?thesis using assms(3) by simp
  qed
  have off: "off21 w = d"
  proof (rule bit_word_eqI)
    fix n assume n: "n < LENGTH(64)"
    have top: "bit d n = bit d 20" if "20 \<le> n"
      using assms(7) that n by (intro small_signed) (simp_all add: d_def llabs_def)
    have low: "bit d n = bit ins (n + 29)" if "n < 2"
      using low_bits_eq [OF d3(2) that] bit_off21 [of n ins] that by simp
    consider "n < 2" | "2 \<le> n" "n < 21" | "21 \<le> n" by linarith
    then show "bit (off21 w) n = bit d n"
    proof cases
      case 1
      then show ?thesis using bit_off21 [of n w] low by (simp add: w_def bit_adr_word)
    next
      case 2
      then show ?thesis using bit_off21 [of n w] by (simp add: w_def bit_adr_word)
    next
      case 3
      then show ?thesis using bit_off21 [of n w] n top by (simp add: w_def bit_adr_word)
    qed
  qed
  have "w AND 0x1F = (ins AND 0x1F) OR ucast (push_bit 3 (t AND 3))"
    using low_bits_eq [OF d3(1)] unfolding masks_adr twelve
    by (intro bit_word_eqI) (auto simp: bit_simps w_def bit_adr_word)
  then have "rd w = unat ((ins AND 0x1F) OR ucast (push_bit 3 (t AND 3)))" by (simp add: rd_def)
  then show ?thesis using s'(1) at op off by (intro exI conjI) (assumption | simp add: d_def)+
qed

theorem adr64_spills_witness:
  "\<exists>s' w. fix_one (sample64 0x30080020) = Inr s' \<and> get32 0x20000 (code s') = w \<and> rd 0x30080020 = 0 \<and> rd w = 8 \<and> 0x20000 + off21 w = 0x20005"
proof -
  have v: "off21 0x30080020 = 0x10005" "\<not> bit (0x30080020 :: u32) 23" "rd 0x30080020 = 0" by code_simp+
  have "\<not> is_in_fixing_range 0x20005 (sample64 0x30080020)"
    by (simp add: is_in_fixing_range_def sample64_def start_fixing_def)
  then show ?thesis
    using adr64_spills [of 0 "sample64 0x30080020" "0x30080020" "0x20005"] sample64_at [of "0x30080020"] v
    by (auto simp: llabs_def)
qed


section \<open>Moving code that does not depend on its address\<close>

definition plain :: "u32 \<Rightarrow> bool" where
  "plain w \<longleftrightarrow> w AND 0xFC000000 \<noteq> 0x14000000 \<and> w AND 0xFC000000 \<noteq> 0x94000000 \<and> cond_mask w = None \<and>
     w AND 0xFF000000 \<noteq> 0xD8000000 \<and> loadlit_kind w = None \<and> w AND 0x9F000000 \<noteq> 0x10000000 \<and> w AND 0x9F000000 \<noteq> 0x90000000"

lemma plain_one: "plain (get32 (inp s) (code s)) \<Longrightarrow> fix_one s = fix_plain s"
  by (simp add: plain_def fix_one_def fix_branch_imm_def fix_cond_comp_test_branch_def fix_loadlit_def fix_pcreladdr_def Let_def)

definition no_pending :: "a64 \<Rightarrow> bool" where
  "no_pending s \<longleftrightarrow> length (dat s) = A64_MAX_INSTRUCTIONS \<and> (\<forall>e\<in>set (dat s). \<forall>fx\<in>set (fx_map e). fx_bp fx = 0)"

lemma plain_step:
  assumes "no_pending s" and "inp s = basep s + word_of_nat (4 * k)" and "k < A64_MAX_INSTRUCTIONS"
  shows "\<exists>s'. fix_plain s = Inr s' \<and> no_pending s' \<and> basep s' = basep s \<and> inp s' = inp s + 4 \<and> outp s' = outp s + 4 \<and>
    code s' = write_bytes (outp s) (le32 (get32 (inp s) (code s))) (code s)"
proof -
  have "k \<in> {0, 1, 2, 3, 4}" using assms(3) by (auto simp: A64_MAX_INSTRUCTIONS_def)
  then have ix: "get_ref_ins_index (inp s) s = k" using assms(2) by (auto simp: get_ref_ins_index_def unat_div)
  have k: "k < length (dat s)" using assms(1,3) by (simp add: no_pending_def)
  then have fx: "\<forall>fx\<in>set (fx_map (dat s ! k)). fx_bp fx = 0" using assms(1) nth_mem [OF k] by (auto simp: no_pending_def)
  let ?e = "(dat s ! k)\<lparr>ins_at := outp s\<rparr>"
  have "\<forall>e\<in>set ((dat s)[k := ?e]). \<forall>fx\<in>set (fx_map e). fx_bp fx = 0"
    using fx assms(1) set_update_subset_insert [of "dat s" k ?e] by (auto simp: no_pending_def)
  then show ?thesis using assms(1,3) k apply_no_fixes [OF fx]
    by (simp add: fix_plain_def get_and_set_current_index_def reset_current_ins_def ix process_fix_map_def no_pending_def emit_def emit_bytes_def)
qed

definition words_from :: "u64 \<Rightarrow> nat \<Rightarrow> 64 memory \<Rightarrow> u32 list" where
  "words_from a n m = map (\<lambda>j. get32 (a + word_of_nat (4 * j)) m) [0..<n]"

lemma words_from_Suc: "words_from a (Suc n) m = get32 a m # words_from (a + 4) n m"
proof -
  have "[0..<Suc n] = 0 # map Suc [0..<n]" by (simp add: map_Suc_upt upt_conv_Cons)
  then show ?thesis by (simp only: words_from_def list.map map_map comp_def) (simp add: add.assoc)
qed

lemma get32_cong: "(\<And>x. x \<in> region a 4 \<Longrightarrow> m x = m' x) \<Longrightarrow> get32 a m = get32 a m'"
proof -
  assume e: "\<And>x. x \<in> region a 4 \<Longrightarrow> m x = m' x"
  have "a + word_of_nat i \<in> region a 4" if "i < 4" for i using that by (rule region_memI)
  from this [of 0] this [of 1] this [of 2] this [of 3] show ?thesis by (simp add: get32_def e)
qed

lemma plain_loop:
  assumes "no_pending s" and "inp s = basep s + word_of_nat (4 * k)" and "k + n \<le> A64_MAX_INSTRUCTIONS"
    and "\<forall>w\<in>set (words_from (inp s) n m). plain w" and "region (inp s) (4 * n) \<inter> region (outp s) (4 * n) = {}"
    and "\<forall>x\<in>region (inp s) (4 * n). code s x = m x"
  shows "\<exists>s'. fix_loop n s = Inr s' \<and> inp s' = inp s + word_of_nat (4 * n) \<and> outp s' = outp s + word_of_nat (4 * n) \<and>
    code s' = write_bytes (outp s) (concat (map le32 (words_from (inp s) n m))) (code s)"
  using assms
proof (induction n arbitrary: s k)
  case 0
  then show ?case by (simp add: words_from_def)
next
  case (Suc n)
  define w where "w = get32 (inp s) (code s)"
  have sub: "region a 4 \<subseteq> region a (4 * Suc n)" "region (a + 4) (4 * n) \<subseteq> region a (4 * Suc n)" for a :: u64
    using word_region [of 0 "Suc n" a] region_from [of a 1 n] by (simp_all add: at_word_def)
  have w: "w = get32 (inp s) m"
    unfolding w_def using Suc.prems(6) sub(1) by (intro get32_cong) blast
  have "plain w" using Suc.prems(4) w by (simp add: words_from_Suc)
  moreover obtain s1 where s1: "fix_plain s = Inr s1" "no_pending s1" "basep s1 = basep s" "inp s1 = inp s + 4" "outp s1 = outp s + 4"
    "code s1 = write_bytes (outp s) (le32 w) (code s)"
    using plain_step [OF Suc.prems(1,2)] Suc.prems(3) by (auto simp: w_def)
  ultimately have one: "fix_one s = Inr s1" using plain_one [of s] by (simp add: w_def)
  have "\<exists>s'. fix_loop n s1 = Inr s' \<and> inp s' = inp s1 + word_of_nat (4 * n) \<and> outp s' = outp s1 + word_of_nat (4 * n) \<and>
    code s' = write_bytes (outp s1) (concat (map le32 (words_from (inp s1) n m))) (code s1)"
  proof (rule Suc.IH [OF s1(2), of "Suc k"])
    show "inp s1 = basep s1 + word_of_nat (4 * Suc k)" using Suc.prems(2) s1(3,4) by simp
    show "Suc k + n \<le> A64_MAX_INSTRUCTIONS" using Suc.prems(3) by simp
    show "\<forall>w\<in>set (words_from (inp s1) n m). plain w" using Suc.prems(4) s1(4) by (simp add: words_from_Suc)
    show "region (inp s1) (4 * n) \<inter> region (outp s1) (4 * n) = {}"
      unfolding s1(4,5) using Suc.prems(5) sub(2) [of "inp s"] sub(2) [of "outp s"] by blast
    show "\<forall>x\<in>region (inp s1) (4 * n). code s1 x = m x"
    proof
      fix x assume "x \<in> region (inp s1) (4 * n)"
      then have x: "x \<in> region (inp s) (4 * Suc n)" using sub(2) s1(4) by auto
      then have "x \<notin> region (outp s) 4" using Suc.prems(5) sub(1) by blast
      then show "code s1 x = m x" using Suc.prems(6) x by (simp add: s1(6) write_bytes_other)
    qed
  qed
  then obtain s2 where "fix_loop n s1 = Inr s2" "inp s2 = inp s1 + word_of_nat (4 * n)" "outp s2 = outp s1 + word_of_nat (4 * n)"
    "code s2 = write_bytes (outp s1) (concat (map le32 (words_from (inp s1) n m))) (code s1)" by blast
  then show ?case using one s1(4,5,6) w
    by (intro exI [of _ s2]) (simp add: words_from_Suc write_bytes_append)
qed

text \<open>Reading words and writing them back.\<close>

lemma le32_get32: "le32 (get32 a m) = read_bytes a 4 (m :: 64 memory)"
proof -
  have b: "bit (get32 a m) n = bit (m (a + word_of_nat (n div 8))) (n mod 8)" if "n < 32" for n
  proof -
    consider "n < 8" | "8 \<le> n" "n < 16" | "16 \<le> n" "n < 24" | "24 \<le> n" "n < 32" using \<open>n < 32\<close> by linarith
    then show ?thesis
    proof cases
      case 1 then show ?thesis by (auto simp: get32_def bit_simps)
    next
      case 2 then have "n div 8 = 1" "n mod 8 = n - 8" by presburger+
      with 2 show ?thesis by (auto simp: get32_def bit_simps dest: bit_imp_le_length)
    next
      case 3 then have "n div 8 = 2" "n mod 8 = n - 16" by presburger+
      with 3 show ?thesis by (auto simp: get32_def bit_simps dest: bit_imp_le_length)
    next
      case 4 then have "n div 8 = 3" "n mod 8 = n - 24" by presburger+
      with 4 show ?thesis by (auto simp: get32_def bit_simps dest: bit_imp_le_length)
    qed
  qed
  have "ucast (drop_bit (8 * i) (get32 a m)) = m (a + word_of_nat i)" if "i < 4" for i
  proof (rule bit_word_eqI)
    fix j assume j: "j < LENGTH(8)"
    then have "8 * i + j < 32" "(8 * i + j) div 8 = i" "(8 * i + j) mod 8 = j" using that by auto
    then show "bit (ucast (drop_bit (8 * i) (get32 a m)) :: u8) j = bit (m (a + word_of_nat i)) j"
      using b [of "8 * i + j"] j by (simp add: bit_simps)
  qed
  from this [of 0] this [of 1] this [of 2] this [of 3] show ?thesis
    by (simp add: le32_def numeral_eq_Suc add.assoc)
qed

lemma concat_words_from: "concat (map le32 (words_from a n m)) = read_bytes a (4 * n) m"
proof (induction n arbitrary: a)
  case (Suc n)
  have "read_bytes a (4 * Suc n) m = read_bytes a 4 m @ read_bytes (a + 4) (4 * n) m"
    using read_bytes_append [of a 4 "4 * n" m] by simp
  then show ?case using Suc by (simp add: words_from_Suc le32_get32)
qed (simp add: words_from_def)

section \<open>Jumps\<close>

text \<open>Running the bytes \<open>bs\<close> at \<open>a\<close> arrives at \<open>v\<close> and changes no register but \<open>X17\<close>.\<close>

definition jumps_to :: "u64 \<Rightarrow> u8 list \<Rightarrow> u64 \<Rightarrow> bool" where
  "jumps_to a bs v \<longleftrightarrow> (\<forall>m holds x. code_at a bs m \<longrightarrow>
     (\<exists>n c. a64_run holds m n \<lparr>pc = a, xr = x\<rparr> = Some c \<and> pc c = v \<and> (\<forall>r. r \<noteq> 17 \<longrightarrow> xr c r = x r)))"

definition near_jump :: "u64 \<Rightarrow> u32" where
  "near_jump d = 0x14000000 OR ucast (signed_drop_bit 2 d AND 0x3FFFFFF)"

definition far_jump :: "u64 \<Rightarrow> u8 list" where
  "far_jump v = le32 0x58000051 @ le32 0xD61F0220 @ le64 v"

lemma length_jumps [simp]: "length (far_jump v) = 16"
  by (simp add: far_jump_def)

lemma near_jumps:
  assumes "(v - a) AND 3 = 0" and "llabs (signed_drop_bit 2 (v - a)) < 0x1FFFFFF"
  shows "jumps_to a (le32 (near_jump (v - a))) v"
  unfolding jumps_to_def
proof (intro allI impI)
  fix m holds x assume "code_at a (le32 (near_jump (v - a))) m"
  then have "get32 a m = near_jump (v - a)" by (rule code_at_word)
  moreover have "near_jump (v - a) AND 0xFC000000 = 0x14000000" "off26 (near_jump (v - a)) = v - a"
    using branch_encoded [OF assms] by (simp_all add: near_jump_def)
  ultimately have "a64_run holds m 1 \<lparr>pc = a, xr = x\<rparr> = Some \<lparr>pc = v, xr = x\<rparr>"
    using step_branch [of a m _ False holds x] by simp
  then show "\<exists>n c. a64_run holds m n \<lparr>pc = a, xr = x\<rparr> = Some c \<and> pc c = v \<and> (\<forall>r. r \<noteq> 17 \<longrightarrow> xr c r = x r)"
    by (intro exI conjI) (assumption | simp)+
qed

lemma far_jumps: "jumps_to a (far_jump v) v"
  unfolding jumps_to_def
proof (intro allI impI)
  fix m holds x assume "code_at a (far_jump v) m"
  then have "words_at a [0x58000051, 0xD61F0220] m" "code_at (a + 8) (le64 v) m"
    by (simp_all add: far_jump_def code_at_append add.assoc)
  from run_jump [OF this, of holds x]
  show "\<exists>n c. a64_run holds m n \<lparr>pc = a, xr = x\<rparr> = Some c \<and> pc c = v \<and> (\<forall>r. r \<noteq> 17 \<longrightarrow> xr c r = x r)"
    by (intro exI conjI) (assumption | simp)+
qed

lemma nop_jumps: "jumps_to (a + 4) bs v \<Longrightarrow> jumps_to a (le32 A64_NOP @ bs) v"
  unfolding jumps_to_def
proof (intro allI impI)
  fix m holds x
  assume j: "\<forall>m holds x. code_at (a + 4) bs m \<longrightarrow>
     (\<exists>n c. a64_run holds m n \<lparr>pc = a + 4, xr = x\<rparr> = Some c \<and> pc c = v \<and> (\<forall>r. r \<noteq> 17 \<longrightarrow> xr c r = x r))"
    and c: "code_at a (le32 A64_NOP @ bs) m"
  have "code_at (a + 4) bs m" "a64_step holds m \<lparr>pc = a, xr = x\<rparr> = Some \<lparr>pc = a + 4, xr = x\<rparr>"
    using c by (simp_all add: code_at_append step_nop)
  moreover from this(1) j obtain n c where "a64_run holds m n \<lparr>pc = a + 4, xr = x\<rparr> = Some c" "pc c = v" "\<forall>r. r \<noteq> 17 \<longrightarrow> xr c r = x r"
    by blast
  ultimately show "\<exists>n c. a64_run holds m n \<lparr>pc = a, xr = x\<rparr> = Some c \<and> pc c = v \<and> (\<forall>r. r \<noteq> 17 \<longrightarrow> xr c r = x r)"
    by (intro exI [of _ "Suc n"] exI [of _ c]) simp
qed

lemma jump_back_bytes:
  assumes "inp s AND 3 = 0" and "outp s AND 3 = 0"
  shows "\<exists>bs. jump_back s = emit_bytes bs s \<and> length bs \<le> 20 \<and> jumps_to (outp s) bs (inp s)"
proof -
  define d where "d = inp s - outp s"
  have d4: "d AND 3 = 0" unfolding d_def using assms by (rule aligned_diff)
  have far: "emit_bytes (le64 (inp s)) (emit_all [0x58000051, 0xD61F0220] t) = emit_bytes (far_jump (inp s)) t" for t
    by (simp add: emit_all_code emit_bytes_append far_jump_def del: emit_all.simps)
  have nop: "emit_bytes bs (emit A64_NOP s) = emit_bytes (le32 A64_NOP @ bs) s" for bs
    by (simp add: emit_def emit_bytes_append)
  consider "0x1FFFFFF \<le> llabs (signed_drop_bit 2 d)" "(outp s + 8) AND 7 \<noteq> 0" |
    "0x1FFFFFF \<le> llabs (signed_drop_bit 2 d)" "(outp s + 8) AND 7 = 0" | "llabs (signed_drop_bit 2 d) < 0x1FFFFFF" by linarith
  then show ?thesis
  proof cases
    case 1
    then have "jump_back s = emit_bytes (le32 A64_NOP @ far_jump (inp s)) s"
      using nop by (simp add: jump_back_def Let_def d_def [symmetric] far del: emit_all.simps)
    moreover have "length (le32 A64_NOP @ far_jump (inp s)) \<le> 20" by simp
    ultimately show ?thesis using nop_jumps [OF far_jumps] by blast
  next
    case 2
    then have "jump_back s = emit_bytes (far_jump (inp s)) s"
      by (simp add: jump_back_def Let_def d_def [symmetric] far del: emit_all.simps)
    moreover have "length (far_jump (inp s)) \<le> 20" by simp
    ultimately show ?thesis using far_jumps by blast
  next
    case 3
    then have "jump_back s = emit_bytes (le32 (near_jump d)) s"
      by (simp add: jump_back_def Let_def d_def [symmetric] near_jump_def emit_def del: emit_all.simps)
    moreover have "length (le32 (near_jump d)) \<le> 20" by simp
    ultimately show ?thesis using near_jumps [OF d4 [unfolded d_def] 3 [unfolded d_def]] by (auto simp: d_def)
  qed
qed

lemma plain_trampoline:
  assumes "symbol AND 3 = 0" and "row AND 3 = 0" and "count \<le> A64_MAX_INSTRUCTIONS" and "\<forall>w\<in>set (words_from symbol count m). plain w"
    and "region symbol (4 * count) \<inter> region row (4 * count) = {}"
  shows "\<exists>s jb. fix_instructions symbol count row m = Inr s \<and> length jb \<le> 20 \<and>
    code s = write_bytes row (read_bytes symbol (4 * count) m @ jb) m \<and>
    jumps_to (row + word_of_nat (4 * count)) jb (symbol + word_of_nat (4 * count))"
proof -
  define s0 where "s0 = start_fixing symbol count row m"
  have s0: "no_pending s0" "inp s0 = basep s0 + word_of_nat (4 * 0)" "inp s0 = symbol" "outp s0 = row" "code s0 = m"
    by (simp_all add: s0_def start_fixing_def no_pending_def no_fixes_def)
  obtain s1 where s1: "fix_loop count s0 = Inr s1" "inp s1 = symbol + word_of_nat (4 * count)" "outp s1 = row + word_of_nat (4 * count)"
    "code s1 = write_bytes row (concat (map le32 (words_from symbol count m))) m"
    using plain_loop [OF s0(1,2), of count m] assms(3-5) s0(3-5) by auto
  have "inp s1 AND 3 = 0" "outp s1 AND 3 = 0" using s1(2,3) assms(1,2) aligned_add by metis+
  from jump_back_bytes [OF this] obtain jb where jb: "jump_back s1 = emit_bytes jb s1" "length jb \<le> 20" "jumps_to (outp s1) jb (inp s1)" by blast
  have "code (jump_back s1) = write_bytes row (read_bytes symbol (4 * count) m @ jb) m"
    using jb(1) s1(3,4) by (simp add: emit_bytes_def write_bytes_append concat_words_from)
  then show ?thesis using s1 jb by (intro exI [of _ "jump_back s1"] exI [of _ jb]) (simp add: fix_instructions_def s0_def [symmetric])
qed


section \<open>Hooking a function\<close>

text \<open>How many instructions are overwritten, and what is written over them.\<close>

definition patch_count :: "u64 \<Rightarrow> u64 \<Rightarrow> nat" where
  "patch_count symbol replace =
     (if 0x1FFFFFF \<le> llabs (signed_drop_bit 2 (replace - symbol)) then if (symbol + 8) AND 7 \<noteq> 0 then 5 else 4 else 1)"

definition patch64 :: "u64 \<Rightarrow> u64 \<Rightarrow> u8 list" where
  "patch64 symbol replace =
     (if 0x1FFFFFF \<le> llabs (signed_drop_bit 2 (replace - symbol))
      then (if (symbol + 8) AND 7 \<noteq> 0 then le32 A64_NOP else []) @ far_jump replace
      else le32 (near_jump (replace - symbol)))"

lemma length_patch64: "length (patch64 symbol replace) = 4 * patch_count symbol replace"
  by (simp add: patch64_def patch_count_def)

lemma patch64_jumps:
  assumes "symbol AND 3 = 0" and "replace AND 3 = 0"
  shows "jumps_to symbol (patch64 symbol replace) replace"
  using near_jumps [OF aligned_diff(2) [OF assms(2,1)]] far_jumps nop_jumps [OF far_jumps]
  by (auto simp: patch64_def not_le)

lemma hook_code64:
  assumes "\<And>p n. mprot p n" and "rwx = 0 \<or> 50 \<le> unat rwx_size"
  shows "A64HookFunctionV mprot symbol replace rwx rwx_size m =
    res_bind (if rwx \<noteq> 0 then res_bind (fix_instructions symbol (patch_count symbol replace) rwx m) (\<lambda>s. Inr (code s)) else Inr m)
      (\<lambda>m1. Inr (rwx, write_bytes symbol (patch64 symbol replace) m1))"
proof -
  note defs = A64HookFunctionV_def Let_def patch_count_def patch64_def far_jump_def near_jump_def rwx_range_def
  show ?thesis
  proof (cases "rwx = 0")
    case True
    then show ?thesis by (simp add: defs assms(1))
  next
    case False
    then have "\<not> rwx_size < 50" "\<not> rwx_size < 40" "\<not> rwx_size < 10" using assms(2) by (simp_all add: word_less_nat_alt)
    then show ?thesis using False by (simp add: defs assms(1) res_bind_def split: sum.split)
  qed
qed

lemma words_from_mono: "n \<le> k \<Longrightarrow> set (words_from a n m) \<subseteq> set (words_from a k m)"
  by (auto simp: words_from_def)

lemma words_from_cong: "(\<And>x. x \<in> region a (4 * n) \<Longrightarrow> m x = m' x) \<Longrightarrow> words_from a n m = words_from a n m'"
proof -
  assume e: "\<And>x. x \<in> region a (4 * n) \<Longrightarrow> m x = m' x"
  have "get32 (a + word_of_nat (4 * j)) m = get32 (a + word_of_nat (4 * j)) m'" if "j < n" for j
    using word_region [OF that, of a] e by (intro get32_cong) (auto simp: at_word_def)
  then show ?thesis by (simp add: words_from_def)
qed

text \<open>The three areas a hook touches do not overlap.\<close>

definition apart :: "u64 \<Rightarrow> u64 \<Rightarrow> u64 \<Rightarrow> bool" where
  "apart symbol row result \<longleftrightarrow> region symbol 20 \<inter> region row 200 = {} \<and> region symbol 20 \<inter> region result 8 = {} \<and>
     region row 200 \<inter> region result 8 = {}"

text \<open>C29. Hooking a function whose first instructions do not depend on their address works: with a row of the pool
  left and memory that can be made writable, the result pointer is set to the row; running the function from its start
  arrives at the replacement; the row starts with the overwritten instructions and, run after them, goes on behind
  them in the function. Only \<open>X17\<close> is changed by the jumps, and no byte outside the overwritten
  instructions, the row and the pointer changes.\<close>

theorem hook64_installs:
  assumes "result \<noteq> 0" and "sint (pool_index h + 1) = int i" and "i < A64_MAX_BACKUPS" and "row = pool_base + word_of_nat (i * 200)"
    and "row \<noteq> 0" and "row AND 3 = 0" and "symbol AND 3 = 0" and "replace AND 3 = 0" and "apart symbol row result"
    and "\<And>p n. mprot p n" and "\<forall>w\<in>set (words_from symbol 5 (h_mem h)). plain w"
  defines "k \<equiv> patch_count symbol replace"
  shows "\<exists>h' jb. A64HookFunction mprot pool_base symbol replace result h = Inr h' \<and> get64 result (h_mem h') = row \<and>
    code_at symbol (patch64 symbol replace) (h_mem h') \<and> jumps_to symbol (patch64 symbol replace) replace \<and>
    code_at row (read_bytes symbol (4 * k) (h_mem h) @ jb) (h_mem h') \<and>
    jumps_to (row + word_of_nat (4 * k)) jb (symbol + word_of_nat (4 * k)) \<and>
    (\<forall>x. x \<notin> region symbol (4 * k) \<union> region row (4 * k + 20) \<union> region result 8 \<longrightarrow> h_mem h' x = h_mem h x)"
proof -
  have k: "k \<le> 5" by (simp add: k_def patch_count_def)
  define m where "m = write_bytes result (le64 row) (h_mem h)"
  note ap = assms(9) [unfolded apart_def]
  have subs: "region symbol (4 * k) \<subseteq> region symbol 20" "region row (4 * k + n) \<subseteq> region row 200" if "n \<le> 180" for n
    using k that by (intro region_mono; simp)+
  have same: "m x = h_mem h x" if "x \<in> region symbol 20" for x
    unfolding m_def using ap that by (intro write_bytes_other) auto
  have "\<forall>w\<in>set (words_from symbol k m). plain w"
    using words_from_cong [of symbol 5 m "h_mem h"] same assms(11) words_from_mono [OF k, of symbol m] by auto
  moreover have "region symbol (4 * k) \<inter> region row (4 * k) = {}" using subs(1) [of 0] subs(2) [of 0] ap by fastforce
  moreover have "k \<le> A64_MAX_INSTRUCTIONS" using k by (simp add: A64_MAX_INSTRUCTIONS_def)
  ultimately obtain s jb where s: "fix_instructions symbol k row m = Inr s" "length jb \<le> 20"
    "code s = write_bytes row (read_bytes symbol (4 * k) m @ jb) m" "jumps_to (row + word_of_nat (4 * k)) jb (symbol + word_of_nat (4 * k))"
    using plain_trampoline [OF assms(7,6), of k m] by blast
  define m1 where "m1 = write_bytes row (read_bytes symbol (4 * k) m @ jb) m"
  define h' where "h' = h\<lparr>pool_index := pool_index h + 1, h_mem := write_bytes symbol (patch64 symbol replace) m1\<rparr>"
  have "unat (pool_index h + 1) = i"
  proof -
    have "word_of_int (sint (pool_index h + 1)) = pool_index h + 1" by simp
    then have "pool_index h + 1 = word_of_nat i" using assms(2) by simp
    then show ?thesis using assms(3) by (simp add: A64_MAX_BACKUPS_def unsigned_of_nat take_bit_nat_eq_self)
  qed
  then have fast: "FastAllocateTrampoline pool_base h = (row, h\<lparr>pool_index := pool_index h + 1\<rparr>)"
    using assms(2-4) by (simp add: FastAllocateTrampoline_def Let_def A64_MAX_INSTRUCTIONS_def)
  have "A64HookFunctionV mprot symbol replace row 50 m = Inr (row, write_bytes symbol (patch64 symbol replace) m1)"
    using hook_code64 [where mprot = mprot and rwx = row and rwx_size = 50, OF assms(10)] s(1,3) assms(5) by (simp add: k_def [symmetric] m1_def)
  then have run: "A64HookFunction mprot pool_base symbol replace result h = Inr h'"
    using assms(1,5) fast by (simp add: A64HookFunction_def h'_def m_def [symmetric] A64_MAX_INSTRUCTIONS_def)
  have len: "length (patch64 symbol replace) = 4 * k" "length (read_bytes symbol (4 * k) m @ jb) \<le> 4 * k + 20"
    using s(2) by (simp_all add: length_patch64 k_def)
  have pre: "read_bytes symbol (4 * k) m = read_bytes symbol (4 * k) (h_mem h)"
    using same subs(1) [of 0] by (intro read_bytes_cong) auto
  have rowR: "region row (length (read_bytes symbol (4 * k) m @ jb)) \<subseteq> region row (4 * k + 20)" using len(2) by (rule region_mono)
  have hm: "h_mem h' = write_bytes symbol (patch64 symbol replace) m1" by (simp add: h'_def)
  have "code_at symbol (patch64 symbol replace) (h_mem h')"
    unfolding hm by (rule code_at_written) (use len k in simp)
  moreover have "code_at row (read_bytes symbol (4 * k) (h_mem h) @ jb) (h_mem h')"
  proof -
    have "code_at row (read_bytes symbol (4 * k) m @ jb) m1"
      unfolding m1_def by (rule code_at_written) (use len(2) k in simp)
    moreover have "region row (length (read_bytes symbol (4 * k) m @ jb)) \<inter> region symbol (length (patch64 symbol replace)) = {}"
      using rowR subs(1) [of 0] subs(2) [of 20] ap len(1) by fastforce
    ultimately show ?thesis using code_at_other unfolding hm pre by blast
  qed
  moreover have "get64 result (h_mem h') = row"
  proof -
    have "code_at result (le64 row) m" unfolding m_def by (rule code_at_written) simp
    moreover have "region result (length (le64 row)) \<inter> region row (length (read_bytes symbol (4 * k) m @ jb)) = {}"
      using rowR subs(2) [of 20] ap by fastforce
    moreover have "region result (length (le64 row)) \<inter> region symbol (length (patch64 symbol replace)) = {}"
      using subs(1) [of 0] ap len(1) by fastforce
    ultimately have "code_at result (le64 row) (h_mem h')" unfolding hm m1_def by (simp add: code_at_other)
    then show ?thesis by (rule code_at_dword)
  qed
  moreover have "h_mem h' x = h_mem h x" if "x \<notin> region symbol (4 * k) \<union> region row (4 * k + 20) \<union> region result 8" for x
  proof -
    have "x \<notin> region symbol (length (patch64 symbol replace))" "x \<notin> region row (length (read_bytes symbol (4 * k) m @ jb))"
      "x \<notin> region result (length (le64 row))" using that rowR len(1) by auto
    then show ?thesis by (simp only: hm m1_def m_def write_bytes_other not_False_eq_True)
  qed
  ultimately show ?thesis using run s(4) patch64_jumps [OF assms(7,8)] by blast
qed

lemma region_interval:
  assumes "x \<in> region (a :: u64) n" and "unat a + n \<le> 2 ^ 64"
  shows "unat a \<le> unat x \<and> unat x < unat a + n"
proof -
  obtain i where i: "i < n" "x = a + word_of_nat i" using assms(1) by (rule region_memE)
  then have "unat x = unat a + i" using assms(2) by (simp add: unat_word_ariths unsigned_of_nat take_bit_nat_eq_self)
  then show ?thesis using i(1) by simp
qed

lemma disjoint_regions:
  assumes "unat (a :: u64) + n \<le> unat b" and "unat b + k \<le> 2 ^ 64"
  shows "region a n \<inter> region b k = {}" "region b k \<inter> region a n = {}"
  using region_interval [of _ a n] region_interval [of _ b k] assms by fastforce+

definition sample_hook64 :: hook64 where
  "sample_hook64 = \<lparr>h_mem = \<lambda>_. 0, pool_index = - 1\<rparr>"

theorem hook64_installs_witness:
  "\<exists>h' jb. A64HookFunction (\<lambda>_ _. True) 0x40000 0x10000 0x90000000 0x50000 sample_hook64 = Inr h' \<and>
    get64 0x50000 (h_mem h') = 0x40000 \<and> jumps_to 0x10000 (patch64 0x10000 0x90000000) 0x90000000 \<and>
    code_at 0x10000 (patch64 0x10000 0x90000000) (h_mem h') \<and> jumps_to 0x40010 jb 0x10010"
proof -
  have "apart 0x10000 0x40000 0x50000" by (simp add: apart_def disjoint_regions)
  moreover have "plain (get32 a (\<lambda>_. 0))" for a :: u64 by (simp add: get32_def plain_def cond_mask_def loadlit_kind_def)
  then have "\<forall>w\<in>set (words_from 0x10000 5 (h_mem sample_hook64)). plain w" by (simp add: words_from_def sample_hook64_def)
  moreover have "patch_count 0x10000 0x90000000 = 4" by (simp add: patch_count_def llabs_def)
  ultimately show ?thesis
    using hook64_installs [where mprot = "\<lambda>_ _. True" and pool_base = "0x40000" and symbol = "0x10000" and replace = "0x90000000" and
        result = "0x50000" and h = sample_hook64 and i = 0 and row = "0x40000"]
    by (auto simp: sample_hook64_def A64_MAX_BACKUPS_def)
qed

end
