(* ===== verification/Ptrace32.thy ===== *)
theory Ptrace32
  imports C_Text
begin

text \<open>
  Memory access of the 32-bit unwinder (\<open>unwind32/ptrace.c\<close>, \<open>unwind32/map_info.c\<close>): the list of
  memory maps, word reads in this process and through \<open>ptrace\<close>, and the range of the current
  stack, which for the main thread is parsed from the text of \<open>/proc\<close> files. The texts, the words
  the fault-tolerant load returns and the answers of \<open>ptrace\<close> are inputs.
\<close>

section \<open>Memory maps\<close>

record map_info =
  mi_start :: u32
  mi_end :: u32
  is_readable :: bool
  is_writable :: bool
  is_executable :: bool
  mi_data :: "(u32 \<times> u32) option"

fun find_map_info :: "map_info list \<Rightarrow> u32 \<Rightarrow> map_info option" where
  "find_map_info [] addr = None"
| "find_map_info (mi # mis) addr =
     (if mi_start mi \<le> addr \<and> addr < mi_end mi then Some mi else find_map_info mis addr)"

definition is_readable_map :: "map_info list \<Rightarrow> u32 \<Rightarrow> bool" where
  "is_readable_map ms addr = (case find_map_info ms addr of None \<Rightarrow> False | Some mi \<Rightarrow> is_readable mi)"

definition is_writable_map :: "map_info list \<Rightarrow> u32 \<Rightarrow> bool" where
  "is_writable_map ms addr = (case find_map_info ms addr of None \<Rightarrow> False | Some mi \<Rightarrow> is_writable mi)"

definition is_executable_map :: "map_info list \<Rightarrow> u32 \<Rightarrow> bool" where
  "is_executable_map ms addr = (case find_map_info ms addr of None \<Rightarrow> False | Some mi \<Rightarrow> is_executable mi)"

text \<open>The list of maps of this process is always empty.\<close>

definition acquire_my_map_info_list :: "map_info list" where
  "acquire_my_map_info_list = []"

section \<open>Word reads\<close>

text \<open>
  \<open>local_word\<close> is what the load of \<open>d15_get_word\<close> yields, its marker value when the
  load faulted. The function only makes the load and names the marker: a handler that catches the fault and resumes with
  the marker is relied on, and there is none in the repository; \<open>remote_word\<close> is the result of \<open>PTRACE_PEEKTEXT\<close> and whether \<open>errno\<close> was set.
\<close>

record memory_t =
  mem_tid :: int
  mem_maps :: "map_info list"
  local_word :: "u32 \<Rightarrow> u32"
  remote_word :: "u32 \<Rightarrow> u32 \<times> bool"

definition init_memory :: "map_info list \<Rightarrow> memory_t \<Rightarrow> memory_t" where
  "init_memory ms m = m\<lparr>mem_tid := - 1, mem_maps := ms\<rparr>"

definition init_memory_ptrace :: "int \<Rightarrow> memory_t \<Rightarrow> memory_t" where
  "init_memory_ptrace tid m = m\<lparr>mem_tid := tid, mem_maps := []\<rparr>"

definition try_get_word :: "memory_t \<Rightarrow> u32 \<Rightarrow> u32 option" where
  "try_get_word m ptr =
     (if ptr AND 3 \<noteq> 0 then None
      else if mem_tid m < 0 then
        let w = local_word m ptr in if w \<noteq> 0xDEADAEE0 then Some w else None
      else
        let (w, err) = remote_word m ptr in if w = 0xFFFFFFFF \<and> err then None else Some w)"

section \<open>The range of the stack\<close>

text \<open>
  The text is read character by character into a buffer of 1024, which keeps what earlier lines, and the name
  of the file before them, have left in it; \<open>junk\<close> is the rest of its first contents. \<open>i\<close> is the index of the next character.
\<close>

type_synonym buffer = "nat \<Rightarrow> char"

definition buffer_text :: "buffer \<Rightarrow> nat \<Rightarrow> nat \<Rightarrow> string" where
  "buffer_text buf a b = map buf [a..<b]"

text \<open>
  A line of the maps file that ends at \<open>i\<close>: the comparison looks at the seven characters before its end, and
  the number is read from \<open>0x\<close>, written over the columns 7 and 8, and the columns 9 to 16.
\<close>

definition stack_line :: "nat \<Rightarrow> buffer \<Rightarrow> u32 option res" where
  "stack_line i buf =
     (let buf1 = buf(i := CHR 0x00) in
      if i < 7 then Inl Array_Overflow
      else if buffer_text buf1 (i - 7) i = ''[stack]''
      then Inr (Some (strtoul hex_digit 16
             (buffer_text (buf1(7 := CHR ''0'', 8 := CHR ''x'', 17 := CHR 0x00)) 7 17)))
      else Inr None)"

text \<open>The number, or the buffer for the second file.\<close>

fun scan_maps :: "string \<Rightarrow> nat \<Rightarrow> buffer \<Rightarrow> (u32 + buffer) res" where
  "scan_maps [] i buf = Inr (Inr buf)"
| "scan_maps (c # cs) i buf =
     (if 1024 \<le> i then Inl Array_Overflow
      else if c = CHR 0x0A then
        case stack_line i buf of
          Inl e \<Rightarrow> Inl e
        | Inr (Some start) \<Rightarrow> Inr (Inl start)
        | Inr None \<Rightarrow> scan_maps cs 0 (buf(i := CHR 0x00))
      else scan_maps cs (i + 1) (buf(i := c)))"

text \<open>The 28th field of \<open>/proc/self/stat\<close>, collected between the 27th and the 28th space; a record without a
  28th space leaves it without an end.\<close>

fun scan_stat :: "string \<Rightarrow> nat \<Rightarrow> nat \<Rightarrow> buffer \<Rightarrow> buffer res" where
  "scan_stat [] j i buf = Inr buf"
| "scan_stat (c # cs) j i buf =
     (if c = CHR '' '' then
        if j + 1 = 28 then (if 1024 \<le> i then Inl Array_Overflow else Inr (buf(i := CHR 0x00)))
        else scan_stat cs (j + 1) i buf
      else if j = 27 then
        if 1024 \<le> i then Inl Array_Overflow else scan_stat cs j (i + 1) (buf(i := c))
      else scan_stat cs j i buf)"

record stack_cache =
  main_thread_stack_start :: u32
  main_thread_stack_size :: u32
  ubrd_pid :: int

text \<open>
  What the operating system gives: whether \<open>libc.so\<close> with \<open>open\<close> and \<open>close\<close> was found, the texts
  (\<open>None\<close> when a file does not open), and the stack attributes of the other threads.
\<close>

record stack_os =
  libc_found :: bool
  maps_text :: "string option"
  stat_text :: "string option"
  junk :: buffer
  attr_base :: "int \<Rightarrow> u32"
  attr_size :: "int \<Rightarrow> u32"

definition ubrd_get_main_thread_stack :: "stack_os \<Rightarrow> stack_cache \<Rightarrow> (bool \<times> stack_cache) res" where
  "ubrd_get_main_thread_stack os c =
     (if \<not> libc_found os then Inr (False, c)
      else case maps_text os of
        None \<Rightarrow> Inr (False, c)
      | Some text \<Rightarrow> res_bind (scan_maps text 0 (junk os)) (\<lambda>r. case r of
          Inl start \<Rightarrow> Inr (True, c\<lparr>main_thread_stack_start := start, main_thread_stack_size := 0x800000\<rparr>)
        | Inr buf \<Rightarrow> (case stat_text os of
            None \<Rightarrow> Inr (False, c)
          | Some stat \<Rightarrow> res_bind (scan_stat stat 0 0 (buf(0 := CHR 0x00))) (\<lambda>buf'.
              if buf' 0 \<noteq> CHR 0x00
              then Inr (True, c\<lparr>main_thread_stack_start := strtoul dec_digit 10 (buffer_text buf' 0 1024),
                                main_thread_stack_size := 0x800000\<rparr>)
              else Inr (False, c)))))"

text \<open>The bounds, upper first; \<open>None\<close> when they cannot be found.\<close>

definition ubrd_get_stack :: "stack_os \<Rightarrow> int \<Rightarrow> int \<Rightarrow> stack_cache \<Rightarrow> ((u32 \<times> u32) option \<times> stack_cache) res" where
  "ubrd_get_stack os pid tid c =
     (let c1 = (if pid \<noteq> ubrd_pid c
                then c\<lparr>ubrd_pid := pid, main_thread_stack_start := 0, main_thread_stack_size := 0\<rparr> else c)
      in if tid = pid then
           res_bind (if main_thread_stack_start c1 = 0 then ubrd_get_main_thread_stack os c1 else Inr (True, c1))
             (\<lambda>(found, c2).
               if found
               then Inr (Some (main_thread_stack_start c2, main_thread_stack_start c2 - main_thread_stack_size c2), c2)
               else Inr (None, c2))
         else Inr (Some (attr_base os tid + attr_size os tid, attr_base os tid), c1))"

text \<open>
  The result of \<open>ubrd_get_stack\<close> is not checked: without bounds both are zero. The load itself is an
  ordinary one, so \<open>stack_word\<close> gives the word or nothing if the address is not mapped.
\<close>

definition try_get_word_stack :: "(u32 \<times> u32) option \<Rightarrow> (u32 \<rightharpoonup> u32) \<Rightarrow> u32 \<Rightarrow> u32 option res" where
  "try_get_word_stack bounds stack_word ptr =
     (let (sstart, send) = (case bounds of None \<Rightarrow> (0, 0) | Some b \<Rightarrow> b) in
      if send \<le> ptr \<and> ptr \<le> sstart
      then (case stack_word ptr of None \<Rightarrow> Inl Wild_Access | Some w \<Rightarrow> Inr (Some w))
      else Inr None)"

section \<open>Lemmas\<close>

lemma find_map_info_Some:
  "find_map_info ms addr = Some mi \<Longrightarrow> mi \<in> set ms \<and> mi_start mi \<le> addr \<and> addr < mi_end mi"
  by (induction ms) (auto split: if_splits)

lemma find_map_info_None:
  "find_map_info ms addr = None \<longleftrightarrow> (\<forall>mi\<in>set ms. \<not> (mi_start mi \<le> addr \<and> addr < mi_end mi))"
  by (induction ms) auto

lemma no_executable_map [simp]: "\<not> is_executable_map [] addr"
  by (simp add: is_executable_map_def)

text \<open>The buffer after a line was read into it.\<close>

definition filled :: "buffer \<Rightarrow> nat \<Rightarrow> string \<Rightarrow> buffer" where
  "filled buf i l = (\<lambda>k. if i \<le> k \<and> k < i + length l then l ! (k - i) else buf k)"

lemma filled_Cons: "filled (buf(i := c)) (Suc i) l = filled buf i (c # l)"
  by (rule ext) (auto simp: filled_def nth_Cons')

lemma filled_Nil [simp]: "filled buf i [] = buf"
  by (rule ext) (auto simp: filled_def)

lemma scan_maps_line:
  assumes "CHR 0x0A \<notin> set l" and "i + length l \<le> 1023"
  shows "scan_maps (l @ CHR 0x0A # cs) i buf =
    (case stack_line (i + length l) (filled buf i l) of
       Inl e \<Rightarrow> Inl e | Inr (Some start) \<Rightarrow> Inr (Inl start)
     | Inr None \<Rightarrow> scan_maps cs 0 ((filled buf i l)(i + length l := CHR 0x00)))"
  using assms
proof (induction l arbitrary: i buf)
  case (Cons c l)
  have "scan_maps ((c # l) @ CHR 0x0A # cs) i buf = scan_maps (l @ CHR 0x0A # cs) (Suc i) (buf(i := c))" using Cons.prems by auto
  also note Cons.IH
  finally show ?case using Cons.prems by (simp only: filled_Cons length_Cons add_Suc_right add_Suc) simp
next
  case Nil
  then show ?case by (simp only: filled_Nil list.size add_0_right append_Nil) simp
qed

lemma buffer_line:
  assumes "b \<le> length l"
  shows "buffer_text (filled buf 0 l) a b = drop a (take b l)"
  using assms by (intro nth_equalityI) (auto simp: buffer_text_def filled_def)

lemma buffer_text_upd [simp]: "i < a \<or> b \<le> i \<Longrightarrow> buffer_text (buf(i := c)) a b = buffer_text buf a b"
  by (auto simp: buffer_text_def)

text \<open>A text is a sequence of lines; the first one marked \<open>[stack]\<close> counts.\<close>

definition line_ok :: "string \<Rightarrow> bool" where
  "line_ok l \<longleftrightarrow> CHR 0x0A \<notin> set l \<and> 7 \<le> length l \<and> length l \<le> 1023"

definition is_stack :: "string \<Rightarrow> bool" where
  "is_stack l \<longleftrightarrow> drop (length l - 7) l = ''[stack]''"

lemma stack_line_unmarked:
  assumes "line_ok l" and "\<not> is_stack l"
  shows "stack_line (length l) (filled buf 0 l) = Inr None"
  using assms by (simp add: stack_line_def line_ok_def is_stack_def buffer_line)

lemma stack_line_marked:
  assumes "line_ok l" and "is_stack l" and "17 \<le> length l"
  shows "stack_line (length l) (filled buf 0 l) = Inr (Some (strtoul hex_digit 16 (''0x'' @ take 8 (drop 9 l))))"
proof -
  let ?b = "((filled buf 0 l)(length l := CHR 0x00))(7 := CHR ''0'', 8 := CHR ''x'', 17 := CHR 0x00)"
  have "[7..<17] = [7, 8] @ [9..<17]" by (simp add: upt_rec)
  then have "buffer_text ?b 7 17 = ''0x'' @ buffer_text ?b 9 17" by (simp add: buffer_text_def)
  also have "buffer_text ?b 9 17 = drop 9 (take 17 l)" using assms(3) by (simp add: buffer_line)
  also have "\<dots> = take 8 (drop 9 l)" by (simp add: drop_take)
  finally have t: "buffer_text ?b 7 17 = ''0x'' @ take 8 (drop 9 l)" .
  have "stack_line (length l) (filled buf 0 l) = Inr (Some (strtoul hex_digit 16 (buffer_text ?b 7 17)))"
    using assms by (simp add: stack_line_def line_ok_def is_stack_def buffer_line)
  then show ?thesis by (simp only: t)
qed

lemma scan_maps_text:
  assumes "\<forall>l\<in>set ls. line_ok l"
  shows "(\<forall>l. List.find is_stack ls = Some l \<longrightarrow> 17 \<le> length l \<longrightarrow>
      scan_maps (text_of ls) 0 buf = Inr (Inl (strtoul hex_digit 16 (''0x'' @ take 8 (drop 9 l))))) \<and>
    (List.find is_stack ls = None \<longrightarrow> (\<exists>buf'. scan_maps (text_of ls) 0 buf = Inr (Inr buf')))"
  using assms
proof (induction ls arbitrary: buf)
  case Nil
  then show ?case by (simp add: text_of_def)
next
  case (Cons l ls)
  then have ok: "line_ok l" "CHR 0x0A \<notin> set l" "length l \<le> 1023" by (auto simp: line_ok_def)
  have "text_of (l # ls) = l @ CHR 0x0A # text_of ls" by (simp add: text_of_def)
  then have sc: "scan_maps (text_of (l # ls)) 0 buf =
    (case stack_line (length l) (filled buf 0 l) of Inl e \<Rightarrow> Inl e | Inr (Some start) \<Rightarrow> Inr (Inl start)
     | Inr None \<Rightarrow> scan_maps (text_of ls) 0 ((filled buf 0 l)(length l := CHR 0x00)))"
    using scan_maps_line [of l 0 "text_of ls" buf] ok(2,3) by (simp only: add_0 simp_thms)
  show ?case
  proof (cases "is_stack l")
    case True
    then show ?thesis using sc stack_line_marked [OF ok(1)] by auto
  next
    case False
    then show ?thesis using sc stack_line_unmarked [OF ok(1)] Cons by simp
  qed
qed

subsection \<open>The record of the process\<close>

text \<open>The fields of the record, each followed by a space.\<close>

definition fields_text :: "string list \<Rightarrow> string" where
  "fields_text fs = concat (map (\<lambda>f. f @ '' '') fs)"

lemma scan_field_skip:
  assumes "CHR '' '' \<notin> set f" and "j < 27"
  shows "scan_stat (f @ CHR '' '' # cs) j i buf = scan_stat cs (j + 1) i buf"
  using assms by (induction f) auto

lemma scan_fields_skip:
  assumes "\<forall>f\<in>set fs. CHR '' '' \<notin> set f" and "j + length fs \<le> 27"
  shows "scan_stat (fields_text fs @ cs) j i buf = scan_stat cs (j + length fs) i buf"
  using assms
proof (induction fs arbitrary: j)
  case (Cons f fs)
  have "fields_text (f # fs) @ cs = f @ CHR '' '' # (fields_text fs @ cs)" by (simp add: fields_text_def)
  then show ?case using Cons scan_field_skip [of f j] by simp
qed (simp add: fields_text_def)

lemma scan_field:
  assumes "CHR '' '' \<notin> set f" and "i + length f \<le> 1023"
  shows "scan_stat (f @ CHR '' '' # cs) 27 i buf = Inr ((filled buf i f)(i + length f := CHR 0x00))"
  using assms
proof (induction f arbitrary: i buf)
  case (Cons c f)
  have "scan_stat ((c # f) @ CHR '' '' # cs) 27 i buf = scan_stat (f @ CHR '' '' # cs) 27 (Suc i) (buf(i := c))"
    using Cons.prems by auto
  also note Cons.IH
  finally show ?case using Cons.prems by (simp only: filled_Cons length_Cons add_Suc_right add_Suc) simp
qed simp

lemma scan_record:
  assumes "\<forall>f\<in>set fs. CHR '' '' \<notin> set f" and "length fs = 28" and "length (fs ! 27) \<le> 1023"
  shows "scan_stat (fields_text fs @ cs) 0 0 buf = Inr ((filled buf 0 (fs ! 27))(length (fs ! 27) := CHR 0x00))"
proof -
  have "take (Suc 27) fs = take 27 fs @ [fs ! 27]" by (rule take_Suc_conv_app_nth) (simp add: assms(2))
  then have fs: "fs = take 27 fs @ [fs ! 27]" using assms(2) by simp
  have "fields_text fs @ cs = fields_text (take 27 fs) @ fs ! 27 @ CHR '' '' # cs"
    by (subst fs) (simp add: fields_text_def)
  moreover have "\<forall>f\<in>set (take 27 fs). CHR '' '' \<notin> set f" using assms(1) by (auto dest: in_set_takeD)
  moreover have "CHR '' '' \<notin> set (fs ! 27)" using assms(1,2) by auto
  ultimately show ?thesis using scan_fields_skip [of "take 27 fs" 0] scan_field [of "fs ! 27" 0] assms(2,3) by simp
qed

text \<open>A field that is a number in decimal.\<close>

definition names_number :: "string \<Rightarrow> u32 \<Rightarrow> bool" where
  "names_number f v \<longleftrightarrow> f \<noteq> [] \<and> (\<forall>c\<in>set f. dec_digit c \<noteq> None) \<and> digits_value dec_digit 10 0 f = unat v"

lemma digits_value_end:
  "\<forall>c\<in>set f. dig c \<noteq> None \<Longrightarrow> dig d = None \<Longrightarrow> digits_value dig base acc (f @ d # r) = digits_value dig base acc f"
  by (induction f arbitrary: acc) auto

lemma field_number:
  assumes "names_number f v" and "length f \<le> 1023"
  shows "strtoul dec_digit 10 (buffer_text ((filled buf 0 f)(length f := CHR 0x00)) 0 1024) = v"
    and "((filled buf 0 f)(length f := CHR 0x00)) 0 \<noteq> CHR 0x00"
proof -
  let ?b = "(filled buf 0 f)(length f := CHR 0x00)"
  have ne: "f \<noteq> []" and dg: "\<forall>c\<in>set f. dec_digit c \<noteq> None" and v: "digits_value dec_digit 10 0 f = unat v"
    using assms(1) by (auto simp: names_number_def)
  have z: "dec_digit (CHR 0x00) = None" by (simp add: dec_digit_def)
  have hd: "?b 0 = hd f" using ne by (simp add: filled_def hd_conv_nth)
  with ne dg z show "?b 0 \<noteq> CHR 0x00" by (metis list.set_sel(1))
  have "[0..<1024] = [0..<length f] @ length f # [Suc (length f)..<1024]"
    using upt_add_eq_append [of 0 "length f" "1024 - length f"] upt_conv_Cons [of "length f" 1024] assms(2) by simp
  then have "buffer_text ?b 0 1024 = buffer_text ?b 0 (length f) @ CHR 0x00 # map ?b [Suc (length f)..<1024]"
    by (simp add: buffer_text_def)
  also have "buffer_text ?b 0 (length f) = f" by (simp add: buffer_line)
  finally have t: "buffer_text ?b 0 1024 = f @ CHR 0x00 # map ?b [Suc (length f)..<1024]" .
  show "strtoul dec_digit 10 (buffer_text ?b 0 1024) = v"
    by (rule strtoul_dec) (use ne dg v digits_value_end [OF dg z] in \<open>simp_all add: t\<close>)
qed

subsection \<open>Hexadecimal addresses\<close>

definition hex8 :: "u32 \<Rightarrow> string" where
  "hex8 w = hex_text 8 (unat w)"

lemma hex8_chars: "hex8 w = c # r \<Longrightarrow> hex_digit c \<noteq> None \<and> (\<forall>d\<in>set r. hex_digit d \<noteq> None)"
proof -
  have "\<forall>d\<in>set (hex8 w). hex_digit d \<noteq> None" by (auto simp: hex8_def hex_text_def hex_digit_char)
  then show "hex8 w = c # r \<Longrightarrow> hex_digit c \<noteq> None \<and> (\<forall>d\<in>set r. hex_digit d \<noteq> None)" by simp
qed

lemma hex8_value: "strtoul hex_digit 16 (''0x'' @ hex8 w) = w"
proof -
  have "unat w < 2 ^ 32" using unsigned_less [of w] by simp
  then have "digits_value hex_digit 16 0 (hex8 w) = unat w"
    using hex_text_value [of "unat w" 8] by (simp add: hex8_def)
  moreover have "length (hex8 w) = 8" by (simp add: hex8_def)
  then obtain c d r where "hex8 w = c # d # r" by (auto simp: eval_nat_numeral length_Suc_conv)
  ultimately show ?thesis using hex8_chars [of w c "d # r"] by (simp only:) (rule strtoul_hex(2), simp_all)
qed

section \<open>Properties of the stack range\<close>


text \<open>A process whose maps file marks the stack, and one that has only the record.\<close>

definition sample_os :: "string \<Rightarrow> stack_os" where
  "sample_os mark = \<lparr>libc_found = True,
     maps_text = Some (text_of [''10000000-10001000 r-xp [text]'', ''becd7000-becf8000 rw-p '' @ mark]),
     stat_text = Some (fields_text (replicate 27 ''7'' @ [''3204444160'']) @ ''0 0''), junk = \<lambda>_. CHR ''z'',
     attr_base = \<lambda>_. 0, attr_size = \<lambda>_. 0\<rparr>"

definition sample_cache :: stack_cache where
  "sample_cache = \<lparr>main_thread_stack_start = 0, main_thread_stack_size = 0, ubrd_pid = 42\<rparr>"


text \<open>A stack read is bounded by the range except for its upper end, which the check includes: with
  just the words of the range mapped, reading at the upper bound faults; and when the range could not
  be found, the check lets the null pointer through.\<close>

theorem stack_read_bounds:
  assumes "\<forall>a. stack_word a \<noteq> None \<longleftrightarrow> send \<le> a \<and> a < sstart" and "0 < send" and "send \<le> sstart"
  shows "try_get_word_stack (Some (sstart, send)) stack_word ptr =
      (if ptr = sstart then Inl Wild_Access
       else if send \<le> ptr \<and> ptr < sstart then Inr (stack_word ptr) else Inr None) \<and>
    try_get_word_stack None stack_word 0 = Inl Wild_Access"
proof (rule conjI)
  have m: "stack_word a = None \<longleftrightarrow> \<not> (send \<le> a \<and> a < sstart)" for a using assms(1) by blast
  show "try_get_word_stack (Some (sstart, send)) stack_word ptr =
      (if ptr = sstart then Inl Wild_Access
       else if send \<le> ptr \<and> ptr < sstart then Inr (stack_word ptr) else Inr None)"
    using m [of ptr] assms(3) by (cases "stack_word ptr") (auto simp: try_get_word_stack_def)
  have "stack_word 0 = None" using m [of 0] assms(2) by auto
  then show "try_get_word_stack None stack_word 0 = Inl Wild_Access" by (simp add: try_get_word_stack_def)
qed

theorem stack_read_bounds_witness:
  "try_get_word_stack (Some (0x2000, 0x1000)) (\<lambda>a. if 0x1000 \<le> a \<and> a < 0x2000 then Some 7 else None) 0x2000 =
     Inl Wild_Access"
  using stack_read_bounds [of "\<lambda>a. if 0x1000 \<le> a \<and> a < 0x2000 then Some 7 else None" "0x1000" "0x2000" "0x2000"]
  by simp

end
