(* ===== verification/Unwind32.thy ===== *)
theory Unwind32
  imports Ptrace32
begin

text \<open>
  The 32-bit ARM unwinder (\<open>unwind32/backtrace-arm.c\<close>, \<open>unwind32/backtrace-helper.c\<close>,
  \<open>unwind32/backtrace.c\<close>): the search of the exception index table, the interpreter of unwinding
  instructions and the loop that collects frames. \<open>__gnu_Unwind_Find_exidx\<close> is part of the C
  library: its answer for a program counter is an input, as are the register values at the start.
\<close>

section \<open>State\<close>

type_synonym unwind_state_t = "nat \<Rightarrow> u32"

definition R_SP :: nat where "R_SP = 13"
definition R_LR :: nat where "R_LR = 14"
definition R_PC :: nat where "R_PC = 15"

definition EXIDX_CANTUNWIND :: u32 where "EXIDX_CANTUNWIND = 1"

record unwind_env =
  umem :: memory_t
  find_exidx :: "u32 \<Rightarrow> u32 \<times> u32"
  ustack :: "(u32 \<times> u32) option"
  uword :: "u32 \<rightharpoonup> u32"

definition stack_at :: "unwind_env \<Rightarrow> u32 \<Rightarrow> u32 option res" where
  "stack_at E ptr = try_get_word_stack (ustack E) (uword E) ptr"

definition set_reg :: "nat \<Rightarrow> u32 \<Rightarrow> unwind_state_t \<Rightarrow> unwind_state_t" where
  "set_reg reg v state = state(reg := v)"

section \<open>The exception index table\<close>

text \<open>An arithmetic shift right by one after a shift left by one: bit 30 is the sign.\<close>

definition prel_to_absolute :: "u32 \<Rightarrow> u32 \<Rightarrow> u32" where
  "prel_to_absolute place prel_offset = place + word_of_int (sint (push_bit 1 prel_offset) div 2)"

text \<open>The handler of the entry that was found, read from the second word of the entry.\<close>

definition entry_handler :: "memory_t \<Rightarrow> u32 \<Rightarrow> u32" where
  "entry_handler m entry =
     (case try_get_word m (entry + 4) of
        None \<Rightarrow> 0
      | Some h \<Rightarrow>
          if h AND 0x80000000 \<noteq> 0 then entry + 4
          else if h \<noteq> EXIDX_CANTUNWIND then prel_to_absolute (entry + 4) h
          else 0)"

text \<open>\<open>low + high\<close> may wrap around; the loop is not known to end for tables of 2^31 entries or more.\<close>

partial_function (option) exidx_search :: "memory_t \<Rightarrow> u32 \<Rightarrow> u32 \<Rightarrow> u32 \<Rightarrow> u32 \<Rightarrow> u32 \<Rightarrow> u32 option" where
  "exidx_search m exidx_start exidx_size pc low high =
     (if low < high then
        let index = (low + high) div 2;
            entry = exidx_start + index * 8
        in case try_get_word m entry of
             None \<Rightarrow> Some 0
           | Some entry_prel_pc \<Rightarrow>
               if pc < prel_to_absolute entry entry_prel_pc
               then exidx_search m exidx_start exidx_size pc low index
               else if index + 1 < exidx_size then
                 case try_get_word m (entry + 8) of
                   None \<Rightarrow> Some 0
                 | Some next_entry_prel_pc \<Rightarrow>
                     if prel_to_absolute (entry + 8) next_entry_prel_pc \<le> pc
                     then exidx_search m exidx_start exidx_size pc (index + 1) high
                     else Some (entry_handler m entry)
               else Some (entry_handler m entry)
      else Some 0)"

definition get_exception_handler :: "unwind_env \<Rightarrow> map_info list \<Rightarrow> u32 \<Rightarrow> u32 res" where
  "get_exception_handler E map_info_list pc =
     (if pc = 0 then Inr 0
      else
        let (exidx_start, exidx_size) =
          (if mem_tid (umem E) < 0 then find_exidx E pc
           else case find_map_info map_info_list pc of
                  None \<Rightarrow> (0, 0)
                | Some mi \<Rightarrow> (case mi_data mi of None \<Rightarrow> (0, 0) | Some d \<Rightarrow> d))
        in if exidx_start = 0 then Inr 0
           else case exidx_search (umem E) exidx_start exidx_size pc 0 exidx_size of
                  None \<Rightarrow> Inl No_Return
                | Some handler \<Rightarrow> Inr handler)"

section \<open>Unwinding instructions\<close>

record byte_stream_t =
  bs_ptr :: u32
  bs_word :: u32

definition try_next_byte :: "memory_t \<Rightarrow> byte_stream_t \<Rightarrow> (u8 \<times> byte_stream_t) option" where
  "try_next_byte m stream =
     (let k = bs_ptr stream AND 3;
          next_ptr = bs_ptr stream + 1
      in if k = 0 then
           (case try_get_word m (bs_ptr stream) of
              None \<Rightarrow> None
            | Some w \<Rightarrow> Some (ucast (drop_bit 24 w), \<lparr>bs_ptr = next_ptr, bs_word = w\<rparr>))
         else if k = 1 then Some (ucast (drop_bit 16 (bs_word stream)), stream\<lparr>bs_ptr := next_ptr\<rparr>)
         else if k = 2 then Some (ucast (drop_bit 8 (bs_word stream)), stream\<lparr>bs_ptr := next_ptr\<rparr>)
         else Some (ucast (bs_word stream), stream\<lparr>bs_ptr := next_ptr\<rparr>))"

text \<open>
  The loop over the registers of a mask, with the virtual stack pointer. A read that fails stops it,
  and the registers popped so far stay changed.
\<close>

fun pop_loop :: "unwind_env \<Rightarrow> u32 \<Rightarrow> nat list \<Rightarrow> u32 \<Rightarrow> unwind_state_t \<Rightarrow>
    (bool \<times> u32 \<times> unwind_state_t) res" where
  "pop_loop E rmask [] sp state = Inr (True, sp, state)"
| "pop_loop E rmask (i # is) sp state =
     (if rmask AND push_bit i 1 \<noteq> 0 then
        res_bind (stack_at E sp) (\<lambda>r. case r of
          None \<Rightarrow> Inr (False, sp, state)
        | Some v \<Rightarrow> pop_loop E rmask is (sp + 4) (set_reg i v state))
      else pop_loop E rmask is sp state)"

definition try_pop_registers :: "unwind_env \<Rightarrow> u32 \<Rightarrow> unwind_state_t \<Rightarrow> (bool \<times> unwind_state_t) res" where
  "try_pop_registers E rmask state =
     res_bind (pop_loop E rmask [0..<16] (state R_SP) state) (\<lambda>(done, sp, state').
       if \<not> done then Inr (False, state')
       else if rmask AND push_bit R_SP 1 \<noteq> 0 then Inr (True, state')
       else Inr (True, set_reg R_SP sp state'))"

fun find_pc :: "unwind_env \<Rightarrow> u32 \<Rightarrow> nat \<Rightarrow> u32 \<Rightarrow> (bool \<times> u32) option res" where
  "find_pc E pc 0 sp = Inr (Some (False, sp))"
| "find_pc E pc (Suc n) sp =
     res_bind (stack_at E sp) (\<lambda>r. case r of
       None \<Rightarrow> Inr None
     | Some v \<Rightarrow> if v = pc then Inr (Some (True, sp)) else find_pc E pc n (sp + 4))"

text \<open>Its boolean result is ignored by the caller, so only the state is kept.\<close>

definition try_pop_Stack_ForNotSaveInASM :: "unwind_env \<Rightarrow> unwind_state_t \<Rightarrow> unwind_state_t res" where
  "try_pop_Stack_ForNotSaveInASM E state =
     res_bind (stack_at E (state R_SP - 4)) (\<lambda>r. case r of
       None \<Rightarrow> Inr state
     | Some v \<Rightarrow>
         if v = state R_PC then Inr state
         else res_bind (find_pc E (state R_PC) 16 (state R_SP)) (\<lambda>q. case q of
           None \<Rightarrow> Inr state
         | Some (found, sp) \<Rightarrow> Inr (if found then set_reg R_SP (sp + 4) state else state)))"

text \<open>
  The interpreter. An unwinding instruction either continues with a new state (and may have set the
  PC), finishes, or refuses to unwind.
\<close>

datatype step_result =
    Go unwind_state_t byte_stream_t nat bool
  | Finish
  | Refuse unwind_state_t

definition add_sp :: "u32 \<Rightarrow> unwind_state_t \<Rightarrow> unwind_state_t" where
  "add_sp n state = set_reg R_SP (state R_SP + n) state"

text \<open>A second byte: none is left, or it cannot be read, or it is handed on.\<close>

definition second_byte :: "memory_t \<Rightarrow> unwind_state_t \<Rightarrow> byte_stream_t \<Rightarrow> nat \<Rightarrow> (u8 \<Rightarrow> byte_stream_t \<Rightarrow> nat \<Rightarrow> step_result res) \<Rightarrow>
    step_result res" where
  "second_byte m state stream sz f =
     (if sz = 0 then Inr (Refuse state)
      else case try_next_byte m stream of None \<Rightarrow> Inr (Refuse state) | Some (op2, stream') \<Rightarrow> f op2 stream' (sz - 1))"

definition pop_mask :: "unwind_env \<Rightarrow> u32 \<Rightarrow> unwind_state_t \<Rightarrow> byte_stream_t \<Rightarrow> nat \<Rightarrow> bool \<Rightarrow> step_result res" where
  "pop_mask E rmask state stream sz pc_set =
     res_bind (try_pop_registers E rmask state) (\<lambda>(done, state').
       Inr (if done then Go state' stream sz pc_set else Refuse state'))"

text \<open>A number in seven-bit pieces. The code shifts each piece by a count that grows without a bound; in C a shift by 32 or more
  is undefined, the instruction of the processor gives 0, and so does \<open>push_bit\<close> on 32 bits.\<close>

fun uleb_loop :: "memory_t \<Rightarrow> byte_stream_t \<Rightarrow> nat \<Rightarrow> u32 \<Rightarrow> nat \<Rightarrow> (u32 \<times> byte_stream_t \<times> nat) option" where
  "uleb_loop m stream 0 v shift = None"
| "uleb_loop m stream (Suc sz) v shift =
     (case try_next_byte m stream of
        None \<Rightarrow> None
      | Some (op2, stream') \<Rightarrow>
          let v' = v OR push_bit shift (ucast (op2 AND 0x7F))
          in if op2 AND 0x80 \<noteq> 0 then uleb_loop m stream' sz v' (shift + 7)
             else Some (v', stream', sz))"

text \<open>One instruction: \<open>op\<close> has been read and \<open>sz\<close> bytes are left.\<close>

definition unwind_op :: "unwind_env \<Rightarrow> u8 \<Rightarrow> unwind_state_t \<Rightarrow> byte_stream_t \<Rightarrow> nat \<Rightarrow> bool \<Rightarrow> step_result res" where
  "unwind_op E op state stream sz pc_set =
     (let m = umem E;
          go = (\<lambda>state'. Inr (Go state' stream sz pc_set))
      in if op AND 0xC0 = 0x00 then go (add_sp (push_bit 2 (ucast (op AND 0x3F)) + 4) state)
         else if op AND 0xC0 = 0x40 then go (add_sp (- push_bit 2 (ucast (op AND 0x3F)) - 4) state)
         else if op AND 0xF0 = 0x80 then
           second_byte m state stream sz (\<lambda>op2 stream' sz'.
             let rmask = push_bit 12 (ucast op AND 0x0F) OR push_bit 4 (ucast op2) in
             if rmask \<noteq> 0
             then pop_mask E rmask state stream' sz' (pc_set \<or> rmask AND push_bit R_PC 1 \<noteq> 0)
             else Inr (Refuse state))
         else if op AND 0xF0 = 0x90 then
           if op \<noteq> 0x9D \<and> op \<noteq> 0x9F then
             if op = 0x97 \<and> state (unat (op AND 0xF)) AND 0xFFFF0000 = 0
             then go (set_reg R_SP (state 12) state)
             else go (set_reg R_SP (state (unat (op AND 0x0F))) state)
           else Inr (Refuse state)
         else if op AND 0xF8 = 0xA0 then
           pop_mask E (drop_bit (7 - unat (op AND 0x07)) 0x0FF0 AND 0x0FF0) state stream sz pc_set
         else if op AND 0xF8 = 0xA8 then
           pop_mask E ((drop_bit (7 - unat (op AND 0x07)) 0x0FF0 AND 0x0FF0) OR 0x4000) state stream sz pc_set
         else if op = 0xB0 then Inr Finish
         else if op = 0xB1 then
           second_byte m state stream sz (\<lambda>op2 stream' sz'.
             if op2 \<noteq> 0 \<and> op2 AND 0xF0 = 0 then pop_mask E (ucast op2) state stream' sz' pc_set
             else Inr (Refuse state))
         else if op = 0xB2 then
           (case uleb_loop m stream sz 0 0 of
              None \<Rightarrow> Inr (Refuse state)
            | Some (v, stream', sz') \<Rightarrow> Inr (Go (add_sp (push_bit 2 v + 0x204) state) stream' sz' pc_set))
         else if op = 0xB3 then
           second_byte m state stream sz (\<lambda>op2 stream' sz'.
             Inr (Go (add_sp (ucast (op2 AND 0x0F) * 8 + 12) state) stream' sz' pc_set))
         else if op AND 0xF8 = 0xB8 then go (add_sp (ucast (op AND 0x07) * 8 + 12) state)
         else if op AND 0xF8 = 0xC0 then go (add_sp (ucast (op AND 0x07) * 8 + 8) state)
         else if op = 0xC6 then
           second_byte m state stream sz (\<lambda>op2 stream' sz'.
             Inr (Go (add_sp (ucast (op2 AND 0x0F) * 8 + 8) state) stream' sz' pc_set))
         else if op = 0xC7 then
           second_byte m state stream sz (\<lambda>op2 stream' sz'.
             if op2 \<noteq> 0 \<and> op2 AND 0xF0 = 0
             then Inr (Go (add_sp (word_of_nat (length (filter (bit op2) [0..<8])) * 4) state) stream' sz' pc_set)
             else Inr (Refuse state))
         else if op = 0xC8 then
           second_byte m state stream sz (\<lambda>op2 stream' sz'.
             Inr (Go (add_sp (ucast (op2 AND 0x0F) * 8 + 8) state) stream' sz' pc_set))
         else if op = 0xC9 then
           second_byte m state stream sz (\<lambda>op2 stream' sz'.
             Inr (Go (add_sp (ucast (op2 AND 0x0F) * 8 + 8) state) stream' sz' pc_set))
         else if op AND 0xF8 = 0xD0 then go (add_sp (ucast (op AND 0x07) * 8 + 8) state)
         else Inr (Refuse state))"

lemma uleb_loop_size: "uleb_loop m stream sz v shift = Some (v', stream', sz') \<Longrightarrow> sz' < sz"
proof (induction sz arbitrary: stream v shift)
  case (Suc sz)
  then show ?case by (fastforce simp: Let_def split: option.splits prod.splits if_splits)
qed simp

lemma second_byte_size:
  assumes "second_byte m state stream sz f = Inr (Go st str sz' pc)"
    and "\<And>op2 stream' k. f op2 stream' k = Inr (Go st str sz' pc) \<Longrightarrow> sz' \<le> k"
  shows "sz' \<le> sz"
  using assms(1) by (auto simp: second_byte_def split: if_splits option.splits dest!: assms(2))

lemma pop_mask_size: "pop_mask E rmask state stream sz pc_set = Inr (Go st str sz' pc) \<Longrightarrow> sz' = sz"
  by (auto simp: pop_mask_def res_bind_Inr_iff split: if_splits)

lemma unwind_op_size:
  assumes "unwind_op E op state stream sz pc_set = Inr (Go st str sz' pc)"
  shows "sz' \<le> sz"
  using assms unfolding unwind_op_def Let_def
  by (auto split: if_splits option.splits prod.splits elim!: second_byte_size
      dest: pop_mask_size uleb_loop_size)

function personality_loop :: "unwind_env \<Rightarrow> nat \<Rightarrow> unwind_state_t \<Rightarrow> byte_stream_t \<Rightarrow> bool \<Rightarrow>
    (bool \<times> unwind_state_t) res" where
  "personality_loop E sz state stream pc_set =
     (case sz of
        0 \<Rightarrow> Inr (True, if pc_set then state else set_reg R_PC (state R_LR) state)
      | Suc n \<Rightarrow>
          (case try_next_byte (umem E) stream of
             None \<Rightarrow> Inr (False, state)
           | Some (op, stream1) \<Rightarrow>
               (case unwind_op E op state stream1 n pc_set of
                  Inl e \<Rightarrow> Inl e
                | Inr (Refuse state') \<Rightarrow> Inr (False, state')
                | Inr Finish \<Rightarrow> Inr (True, if pc_set then state else set_reg R_PC (state R_LR) state)
                | Inr (Go state' stream2 n' pc_set') \<Rightarrow> personality_loop E n' state' stream2 pc_set')))"
  by pat_completeness auto

termination
  by (relation "measure (\<lambda>(E, sz, state, stream, pc_set). sz)") (auto dest: unwind_op_size)

declare personality_loop.simps [simp del]

definition execute_personality_routine :: "unwind_env \<Rightarrow> unwind_state_t \<Rightarrow> byte_stream_t \<Rightarrow> u8 \<Rightarrow>
    (bool \<times> unwind_state_t) res" where
  "execute_personality_routine E state stream pr_index =
     (if pr_index = 0 then personality_loop E 3 state stream False
      else if pr_index = 1 \<or> pr_index = 2 then
        (case try_next_byte (umem E) stream of
           None \<Rightarrow> Inr (False, state)
         | Some (size_byte, stream') \<Rightarrow> personality_loop E (unat size_byte * 4 + 2) state stream' False)
      else Inr (False, state))"

section \<open>Collecting frames\<close>

definition try_get_half_word :: "memory_t \<Rightarrow> u32 \<Rightarrow> u16 option" where
  "try_get_half_word m pc =
     (case try_get_word m (pc AND 0xFFFFFFFD) of
        None \<Rightarrow> None
      | Some w \<Rightarrow> Some (if pc AND 2 \<noteq> 0 then ucast (drop_bit 16 w) else ucast (w AND 0xFFFF)))"

definition rewind_pc_arch :: "memory_t \<Rightarrow> u32 \<Rightarrow> u32" where
  "rewind_pc_arch m pc =
     (if pc AND 1 \<noteq> 0 then
        if (case try_get_half_word m (pc - 5) of
              None \<Rightarrow> False
            | Some prev1 \<Rightarrow> prev1 AND 0xF000 = 0xF000 \<and>
                (case try_get_half_word m (pc - 3) of None \<Rightarrow> False | Some prev2 \<Rightarrow> prev2 AND 0xE000 = 0xE000))
        then pc - 4 else pc - 2
      else pc - 4)"

text \<open>\<open>frames\<close> is the filled part of the array, so its length is \<open>returned_frames\<close>.\<close>

definition add_backtrace_entry :: "u32 \<Rightarrow> nat \<Rightarrow> nat \<Rightarrow> nat \<times> u32 list \<Rightarrow> nat \<times> u32 list" where
  "add_backtrace_entry pc ignore_depth max_depth fs =
     (let (ignored, frames) = fs in
      if ignored < ignore_depth then (ignored + 1, frames)
      else if max_depth \<le> length frames then (ignored, frames)
      else (ignored, frames @ [pc]))"

lemma add_entry_progress:
  assumes "add_backtrace_entry pc ig mx (i, fs) = (i', fs')" and "length fs < mx"
  shows "(ig - i') + (mx - length fs') < (ig - i) + (mx - length fs)"
  using assms by (auto simp: add_backtrace_entry_def split: if_splits)

text \<open>
  What one iteration of the loop decides: go on with a new register state, or leave the loop.
\<close>

datatype frame_step = Next unwind_state_t | Leave unwind_state_t

definition unwind_frame :: "unwind_env \<Rightarrow> map_info list \<Rightarrow> bool \<Rightarrow> nat \<Rightarrow> u32 \<Rightarrow> unwind_state_t \<Rightarrow> frame_step res" where
  "unwind_frame E map_info_list first returned_frames pc state =
     res_bind (get_exception_handler E map_info_list pc) (\<lambda>handler.
       if handler = 0 then
         if first \<and> state R_LR \<noteq> 0 \<and> state R_LR \<noteq> state R_PC
         then Inr (Next (set_reg R_PC (state R_LR) state))
         else Inr (Leave state)
       else
         case try_next_byte (umem E) \<lparr>bs_ptr = handler, bs_word = 0\<rparr> of
           None \<Rightarrow> Inr (Leave state)
         | Some (pr, stream) \<Rightarrow>
             if pr AND 0xF0 \<noteq> 0x80 then Inr (Leave state)
             else res_bind (execute_personality_routine E state stream (pr AND 0x0F)) (\<lambda>(cont, state1).
               if \<not> cont then Inr (Leave state1)
               else res_bind (if returned_frames = 1 then try_pop_Stack_ForNotSaveInASM E state1 else Inr state1)
                 (\<lambda>state2. Inr (if state2 R_PC = 0 then Leave state2 else Next state2))))"

function unwind_loop32 :: "unwind_env \<Rightarrow> map_info list \<Rightarrow> nat \<Rightarrow> nat \<Rightarrow> bool \<Rightarrow> unwind_state_t \<Rightarrow> nat \<times> u32 list \<Rightarrow>
    (unwind_state_t \<times> nat \<times> u32 list) res" where
  "unwind_loop32 E ms ignore_depth max_depth first state fs =
     (if length (snd fs) < max_depth then
        if state R_PC < 0x10000000 then Inr (state, fs)
        else
          let pc = (if first then state R_PC else rewind_pc_arch (umem E) (state R_PC));
              fs1 = add_backtrace_entry pc ignore_depth max_depth fs
          in case unwind_frame E ms first (length (snd fs1)) pc state of
               Inl e \<Rightarrow> Inl e
             | Inr (Leave state') \<Rightarrow> Inr (state', fs1)
             | Inr (Next state') \<Rightarrow> unwind_loop32 E ms ignore_depth max_depth False state' fs1
      else Inr (state, fs))"
  by pat_completeness auto

termination
proof (relation "measure (\<lambda>(E, ms, ig, mx, first, state, fs). (ig - fst fs) + (mx - length (snd fs)))")
  fix E :: unwind_env and ms ig mx first and state :: unwind_state_t and fs :: "nat \<times> u32 list"
    and pc fs1 st' and v :: frame_step
  assume a: "length (snd fs) < mx" and b: "fs1 = add_backtrace_entry pc ig mx fs"
  show "((E, ms, ig, mx, False, st', fs1), E, ms, ig, mx, first, state, fs) \<in>
      measure (\<lambda>(E, ms, ig, mx, first, state, fs). (ig - fst fs) + (mx - length (snd fs)))"
    using add_entry_progress [of pc ig mx "fst fs" "snd fs" "fst fs1" "snd fs1"] a b by simp
qed auto

declare unwind_loop32.simps [simp del]

definition unwind_backtrace_common :: "unwind_env \<Rightarrow> map_info list \<Rightarrow> unwind_state_t \<Rightarrow> nat \<Rightarrow> nat \<Rightarrow> u32 list res" where
  "unwind_backtrace_common E map_info_list state ignore_depth max_depth =
     res_bind (unwind_loop32 E map_info_list ignore_depth max_depth True state (0, [])) (\<lambda>(state', ignored, frames).
       if length frames < max_depth \<and> state' R_LR \<noteq> 0 \<and> state' R_LR \<noteq> state' R_PC \<and>
          is_executable_map map_info_list (state' R_LR)
       then Inr (snd (add_backtrace_entry (rewind_pc_arch (umem E) (state' R_LR)) ignore_depth max_depth (ignored, frames)))
       else Inr frames)"

text \<open>The entry points: in this process from the captured registers, from a signal context, through \<open>ptrace\<close>.\<close>

definition unwind_backtrace_signal_arch_selfnogcc :: "unwind_env \<Rightarrow> map_info list \<Rightarrow> unwind_state_t \<Rightarrow> nat \<Rightarrow> nat \<Rightarrow> u32 list res" where
  "unwind_backtrace_signal_arch_selfnogcc E ms captured ignore_depth max_depth =
     unwind_backtrace_common (E\<lparr>umem := init_memory ms (umem E)\<rparr>) ms captured ignore_depth max_depth"

definition unwind_backtrace_signal_arch :: "unwind_env \<Rightarrow> map_info list \<Rightarrow> unwind_state_t \<Rightarrow> nat \<Rightarrow> nat \<Rightarrow> u32 list res" where
  "unwind_backtrace_signal_arch E ms uc_mcontext ignore_depth max_depth =
     unwind_backtrace_common (E\<lparr>umem := init_memory ms (umem E)\<rparr>) ms uc_mcontext ignore_depth max_depth"

definition unwind_backtrace_ptrace_arch :: "unwind_env \<Rightarrow> int \<Rightarrow> map_info list \<Rightarrow> unwind_state_t option \<Rightarrow> nat \<Rightarrow> nat \<Rightarrow>
    u32 list option res" where
  "unwind_backtrace_ptrace_arch E tid ms regs ignore_depth max_depth =
     (case regs of
        None \<Rightarrow> Inr None
      | Some state \<Rightarrow>
          res_bind (unwind_backtrace_common (E\<lparr>umem := init_memory_ptrace tid (umem E)\<rparr>) ms state ignore_depth max_depth)
            (\<lambda>frames. Inr (Some frames)))"

definition libudf_unwind_backtrace :: "unwind_env \<Rightarrow> unwind_state_t \<Rightarrow> nat \<Rightarrow> nat \<Rightarrow> u32 list res" where
  "libudf_unwind_backtrace E captured ignore_depth max_depth =
     unwind_backtrace_signal_arch_selfnogcc E acquire_my_map_info_list captured ignore_depth max_depth"

section \<open>The search of the index table\<close>

lemma mid_no_wrap:
  assumes "low < high" and "high < 0x80000000"
  shows "unat ((low + high) div 2 :: u32) = (unat low + unat high) div 2"
proof -
  have "unat low < 2 ^ 31" "unat high < 2 ^ 31" using assms by (auto simp: word_less_nat_alt)
  then have "unat (low + high) = unat low + unat high" by (simp add: unat_word_ariths)
  then show ?thesis by (simp add: unat_div)
qed

lemma exidx_search_returns:
  assumes "high < 0x80000000"
  shows "\<exists>h. exidx_search m start sz pc low high = Some h"
  using assms
proof (induction "unat high - unat low" arbitrary: low high rule: less_induct)
  case less
  show ?case
  proof (cases "low < high")
    case False
    then show ?thesis by (subst exidx_search.simps) simp
  next
    case True
    let ?i = "(low + high) div 2"
    have i: "unat ?i = (unat low + unat high) div 2" by (rule mid_no_wrap [OF True less.prems])
    have lt: "unat low < unat high" using True by (simp add: word_less_nat_alt)
    have hi: "unat high < 0x80000000" using less.prems by (simp add: word_less_nat_alt)
    have i1: "unat (?i + 1) = Suc (unat ?i)" by (rule unat_Suc_less [of _ "0x80000000"]) (use i lt hi in auto)
    have down: "\<exists>h. exidx_search m start sz pc low ?i = Some h"
      by (rule less.hyps) (use i lt hi in \<open>auto simp: word_less_nat_alt\<close>)
    have up: "\<exists>h. exidx_search m start sz pc (?i + 1) high = Some h"
      by (rule less.hyps) (use i i1 lt less.prems in auto)
    show ?thesis using down up True
      by (subst exidx_search.simps) (auto simp: Let_def split: option.split)
  qed
qed

text \<open>
  A table of \<open>n\<close> readable entries with their start addresses in order; \<open>tab_pc\<close> is the address an
  entry's first word refers to.
\<close>

definition tab_entry :: "u32 \<Rightarrow> nat \<Rightarrow> u32" where
  "tab_entry start i = start + word_of_nat i * 8"

definition tab_pc :: "memory_t \<Rightarrow> u32 \<Rightarrow> nat \<Rightarrow> u32" where
  "tab_pc m start i = (case try_get_word m (tab_entry start i) of
     None \<Rightarrow> 0 | Some w \<Rightarrow> prel_to_absolute (tab_entry start i) w)"

definition tab_ok :: "memory_t \<Rightarrow> u32 \<Rightarrow> nat \<Rightarrow> bool" where
  "tab_ok m start n \<longleftrightarrow> n < 2 ^ 31 \<and> (\<forall>i<n. try_get_word m (tab_entry start i) \<noteq> None) \<and>
     (\<forall>i<n. \<forall>j<n. i \<le> j \<longrightarrow> tab_pc m start i \<le> tab_pc m start j)"

text \<open>The entry that covers \<open>pc\<close>: the last one that starts at or before it.\<close>

definition covers :: "memory_t \<Rightarrow> u32 \<Rightarrow> nat \<Rightarrow> u32 \<Rightarrow> nat \<Rightarrow> bool" where
  "covers m start n pc i \<longleftrightarrow> i < n \<and> tab_pc m start i \<le> pc \<and> (i + 1 < n \<longrightarrow> pc < tab_pc m start (i + 1))"

lemma tab_step:
  assumes "tab_ok m start n" and "low < high" and "unat high \<le> n"
  defines "k \<equiv> (unat low + unat high) div 2"
  shows "exidx_search m start (word_of_nat n) pc low high =
    (if pc < tab_pc m start k then exidx_search m start (word_of_nat n) pc low (word_of_nat k)
     else if k + 1 < n \<and> tab_pc m start (k + 1) \<le> pc
     then exidx_search m start (word_of_nat n) pc (word_of_nat (k + 1)) high
     else Some (entry_handler m (tab_entry start k)))"
proof -
  have n: "n < 2 ^ 31" using assms(1) by (simp add: tab_ok_def)
  have lt: "unat low < unat high" using assms(2) by (simp add: word_less_nat_alt)
  have hi: "high < 0x80000000" using n assms(3) by (simp add: word_less_nat_alt)
  have "word_of_nat (unat ((low + high) div 2)) = (word_of_nat k :: u32)"
    unfolding k_def by (simp only: mid_no_wrap [OF assms(2) hi])
  then have mid: "(low + high) div 2 = word_of_nat k" by simp
  have k: "k < n" using lt assms(3) by (auto simp: k_def)
  obtain w where w: "try_get_word m (tab_entry start k) = Some w" using assms(1) k by (auto simp: tab_ok_def)
  have next_lt: "word_of_nat k + 1 < (word_of_nat n :: u32) \<longleftrightarrow> k + 1 < n"
  proof -
    have "unat (word_of_nat (k + 1) :: u32) = k + 1" "unat (word_of_nat n :: u32) = n"
      using n k by (simp_all add: unat_of_nat del: of_nat_add of_nat_Suc)
    then show ?thesis by (simp add: word_less_nat_alt add.commute)
  qed
  have e8: "tab_entry start k + 8 = tab_entry start (k + 1)" by (simp add: tab_entry_def algebra_simps)
  have pck: "tab_pc m start k = prel_to_absolute (tab_entry start k) w" by (simp add: tab_pc_def w)
  have one: "word_of_nat (k + 1) = (word_of_nat k + 1 :: u32)" by simp
  have eq: "exidx_search m start (word_of_nat n) pc low high =
    (if pc < tab_pc m start k then exidx_search m start (word_of_nat n) pc low (word_of_nat k)
     else if k + 1 < n then
       case try_get_word m (tab_entry start (k + 1)) of
         None \<Rightarrow> Some 0
       | Some w' \<Rightarrow>
           if prel_to_absolute (tab_entry start (k + 1)) w' \<le> pc
           then exidx_search m start (word_of_nat n) pc (word_of_nat (k + 1)) high
           else Some (entry_handler m (tab_entry start k))
     else Some (entry_handler m (tab_entry start k)))"
    by (subst exidx_search.simps)
      (simp only: assms(2) if_True Let_def mid tab_entry_def [symmetric] w option.case next_lt e8 pck one)
  show ?thesis
  proof (cases "k + 1 < n")
    case True
    then obtain w' where "try_get_word m (tab_entry start (k + 1)) = Some w'"
      using assms(1) by (auto simp: tab_ok_def)
    then have "tab_pc m start (k + 1) = prel_to_absolute (tab_entry start (k + 1)) w'"
      "try_get_word m (tab_entry start (k + 1)) = Some w'" by (simp_all add: tab_pc_def)
    with eq True show ?thesis by (simp only: option.case if_True simp_thms)
  next
    case False
    with eq show ?thesis by (simp only: if_False simp_thms)
  qed
qed

lemma exidx_search_finds:
  assumes "tab_ok m start n" and "covers m start n pc i" and "unat low \<le> i" and "i < unat high" and "unat high \<le> n"
  shows "exidx_search m start (word_of_nat n) pc low high = Some (entry_handler m (tab_entry start i))"
  using assms(3-5)
proof (induction "unat high - unat low" arbitrary: low high rule: less_induct)
  case less
  define k where "k = (unat low + unat high) div 2"
  have n: "n < 2 ^ 31" and mono: "\<And>i j. i < n \<Longrightarrow> j < n \<Longrightarrow> i \<le> j \<Longrightarrow> tab_pc m start i \<le> tab_pc m start j"
    using assms(1) by (auto simp: tab_ok_def)
  have i: "i < n" "tab_pc m start i \<le> pc" "i + 1 < n \<Longrightarrow> pc < tab_pc m start (i + 1)"
    using assms(2) by (auto simp: covers_def)
  have lt: "low < high" using less.prems by (simp add: word_less_nat_alt)
  have k: "unat low \<le> k" "k < unat high" "k < n" using less.prems by (auto simp: k_def)
  have uk: "unat (word_of_nat k :: u32) = k" "unat (word_of_nat (k + 1) :: u32) = k + 1"
    using k n by (simp_all add: unat_of_nat del: of_nat_add of_nat_Suc)
  note step = tab_step [OF assms(1) lt less.prems(3), of pc, folded k_def]
  consider "pc < tab_pc m start k" | "\<not> pc < tab_pc m start k" "k + 1 < n \<and> tab_pc m start (k + 1) \<le> pc"
    | "\<not> pc < tab_pc m start k" "\<not> (k + 1 < n \<and> tab_pc m start (k + 1) \<le> pc)" by blast
  then show ?case
  proof cases
    case 1
    have "i < k"
    proof (rule ccontr)
      assume "\<not> i < k"
      then have "tab_pc m start k \<le> tab_pc m start i" using mono [of k i] k i by simp
      then show False using 1 i(2) by simp
    qed
    then have "exidx_search m start (word_of_nat n) pc low (word_of_nat k) = Some (entry_handler m (tab_entry start i))"
      by (intro less.hyps) (use k uk less.prems in auto)
    then show ?thesis using step 1 by simp
  next
    case 2
    have "k < i"
    proof (rule ccontr)
      assume "\<not> k < i"
      then have "tab_pc m start (i + 1) \<le> tab_pc m start (k + 1)" using mono [of "i + 1" "k + 1"] 2 by simp
      moreover have "pc < tab_pc m start (i + 1)" using i(3) \<open>\<not> k < i\<close> 2 by simp
      ultimately show False using conjunct2 [OF 2(2)] by order
    qed
    then have "exidx_search m start (word_of_nat n) pc (word_of_nat (k + 1)) high =
        Some (entry_handler m (tab_entry start i))"
      by (intro less.hyps) (use k uk less.prems in auto)
    then show ?thesis using step 2 by simp
  next
    case 3
    have "k = i"
    proof (rule ccontr)
      assume "k \<noteq> i"
      then consider "k < i" | "i < k" by linarith
      then show False
      proof cases
        case 1
        then have "tab_pc m start (k + 1) \<le> tab_pc m start i" using mono [of "k + 1" i] i by simp
        then show False using 3 1 i by (meson dual_order.trans le_less_trans less_iff_succ_less_eq)
      next
        case 2
        then have "tab_pc m start (i + 1) \<le> tab_pc m start k" "i + 1 < n" using mono [of "i + 1" k] k by auto
        then show False using 3(1) i(3) by simp
      qed
    qed
    then show ?thesis using step 3 by (simp only: if_False simp_thms)
  qed
qed

section \<open>Popping registers\<close>

text \<open>The registers of a mask, in the order they are popped.\<close>

definition mask_regs :: "u32 \<Rightarrow> nat list \<Rightarrow> nat list" where
  "mask_regs rmask is = filter (\<lambda>i. rmask AND push_bit i 1 \<noteq> 0) is"

fun pop_values :: "nat list \<Rightarrow> u32 list \<Rightarrow> unwind_state_t \<Rightarrow> unwind_state_t" where
  "pop_values (r # rs) (v # vs) state = pop_values rs vs (state(r := v))"
| "pop_values _ _ state = state"

text \<open>The words on the stack from \<open>sp\<close> upwards.\<close>

fun stack_words :: "unwind_env \<Rightarrow> u32 \<Rightarrow> u32 list \<Rightarrow> bool" where
  "stack_words E sp [] \<longleftrightarrow> True"
| "stack_words E sp (v # vs) \<longleftrightarrow> stack_at E sp = Inr (Some v) \<and> stack_words E (sp + 4) vs"

lemma pop_loop_values:
  assumes "stack_words E sp vs" and "length vs = length (mask_regs rmask is)"
  shows "pop_loop E rmask is sp state =
    Inr (True, sp + 4 * word_of_nat (length vs), pop_values (mask_regs rmask is) vs state)"
  using assms
proof (induction "is" arbitrary: sp vs state)
  case Nil
  then show ?case by (simp add: mask_regs_def)
next
  case (Cons i "is")
  show ?case
  proof (cases "rmask AND push_bit i 1 \<noteq> 0")
    case True
    then obtain v vs' where vs: "vs = v # vs'" "length vs' = length (mask_regs rmask is)"
      using Cons.prems(2) by (cases vs) (auto simp: mask_regs_def)
    then show ?thesis using Cons.IH [of "sp + 4" vs' "state(i := v)"] Cons.prems(1) True
      by (simp add: mask_regs_def set_reg_def algebra_simps del: fun_upd_apply)
  next
    case False
    then show ?thesis using Cons by (simp add: mask_regs_def)
  qed
qed

lemma pop_registers_values:
  assumes "stack_words E (state R_SP) vs" and "length vs = length (mask_regs rmask [0..<16])"
    and "rmask AND push_bit R_SP 1 = 0"
  shows "try_pop_registers E rmask state =
    Inr (True, (pop_values (mask_regs rmask [0..<16]) vs state)
      (R_SP := state R_SP + 4 * word_of_nat (length vs)))"
  using pop_loop_values [OF assms(1,2)] assms(3) by (simp add: try_pop_registers_def set_reg_def)

lemma mask_regs_save:
  assumes "n < 8"
  shows "mask_regs ((drop_bit (7 - n) 0x0FF0 AND 0x0FF0) OR 0x4000) [0..<16] = [4..<5 + n] @ [14]"
proof -
  consider "n = 0" | "n = 1" | "n = 2" | "n = 3" | "n = 4" | "n = 5" | "n = 6" | "n = 7" using assms by linarith
  then show ?thesis by cases (simp; code_simp)+
qed

lemma pop_values_app:
  "length rs = length vs \<Longrightarrow> pop_values (rs @ rs') (vs @ vs') state = pop_values rs' vs' (pop_values rs vs state)"
  by (induction rs vs state rule: pop_values.induct) auto

lemma pop_values_other: "r \<notin> set rs \<Longrightarrow> pop_values rs vs state r = state r"
  by (induction rs vs state rule: pop_values.induct) auto

lemma pop_values_at:
  "distinct rs \<Longrightarrow> k < length rs \<Longrightarrow> length rs = length vs \<Longrightarrow> pop_values rs vs state (rs ! k) = vs ! k"
proof (induction rs vs state arbitrary: k rule: pop_values.induct)
  case (1 r rs v vs state)
  show ?case
  proof (cases k)
    case 0
    then show ?thesis using "1.prems" by (simp add: pop_values_other)
  next
    case (Suc j)
    then show ?thesis using "1.IH" [of j] "1.prems" by (simp del: fun_upd_apply)
  qed
qed auto

section \<open>Frames are bounded\<close>

lemma stack_at_fault: "stack_at E ptr = Inl e \<Longrightarrow> e = Wild_Access"
  by (auto simp: stack_at_def try_get_word_stack_def split: option.splits if_splits prod.splits)

lemma pop_loop_fault: "pop_loop E rmask is sp state = Inl e \<Longrightarrow> e = Wild_Access"
proof (induction "is" arbitrary: sp state)
  case (Cons i "is")
  then show ?case by (auto simp: res_bind_def dest: stack_at_fault split: if_splits sum.splits option.splits)
qed simp

lemma pop_registers_fault: "try_pop_registers E rmask state = Inl e \<Longrightarrow> e = Wild_Access"
  by (auto simp: try_pop_registers_def res_bind_def dest: pop_loop_fault split: sum.splits prod.splits if_splits)

lemma pop_mask_fault: "pop_mask E rmask state stream sz pc_set = Inl e \<Longrightarrow> e = Wild_Access"
  by (auto simp: pop_mask_def res_bind_def dest: pop_registers_fault split: sum.splits prod.splits)

lemma second_byte_fault:
  assumes "second_byte m state stream sz f = Inl e" and "\<And>op2 stream' k. f op2 stream' k = Inl e \<Longrightarrow> e = Wild_Access"
  shows "e = Wild_Access"
  using assms by (auto simp: second_byte_def split: if_splits option.splits)

lemma unwind_op_fault:
  assumes "unwind_op E op state stream sz pc_set = Inl e"
  shows "e = Wild_Access"
  using assms unfolding unwind_op_def Let_def
  by (auto split: if_splits option.splits prod.splits elim!: second_byte_fault dest: pop_mask_fault)

lemma personality_loop_fault: "personality_loop E sz state stream pc_set = Inl e \<Longrightarrow> e = Wild_Access"
proof (induction E sz state stream pc_set rule: personality_loop.induct)
  case (1 E sz state stream pc_set)
  from "1.prems" show ?case
    by (subst (asm) personality_loop.simps)
      (auto split: nat.splits option.splits prod.splits sum.splits step_result.splits
        dest: unwind_op_fault intro: "1.IH")
qed

lemma execute_fault: "execute_personality_routine E state stream pr = Inl e \<Longrightarrow> e = Wild_Access"
  by (auto simp: execute_personality_routine_def dest: personality_loop_fault
      split: if_splits option.splits prod.splits)

lemma find_pc_fault: "find_pc E pc n sp = Inl e \<Longrightarrow> e = Wild_Access"
proof (induction n arbitrary: sp)
  case (Suc n)
  then show ?case by (auto simp: res_bind_def dest: stack_at_fault split: sum.splits option.splits if_splits)
qed simp

lemma not_save_fault: "try_pop_Stack_ForNotSaveInASM E state = Inl e \<Longrightarrow> e = Wild_Access"
  by (auto simp: try_pop_Stack_ForNotSaveInASM_def res_bind_def dest: stack_at_fault find_pc_fault
      split: sum.splits option.splits if_splits)

definition tables_bounded :: "unwind_env \<Rightarrow> map_info list \<Rightarrow> bool" where
  "tables_bounded E ms \<longleftrightarrow> (\<forall>pc. snd (find_exidx E pc) < 0x80000000) \<and>
     (\<forall>mi\<in>set ms. case mi_data mi of None \<Rightarrow> True | Some d \<Rightarrow> snd d < 0x80000000)"

lemma handler_total:
  assumes "tables_bounded E ms"
  shows "\<exists>h. get_exception_handler E ms pc = Inr h"
proof -
  define d where "d = (if mem_tid (umem E) < 0 then find_exidx E pc
           else case find_map_info ms pc of
                  None \<Rightarrow> (0, 0)
                | Some mi \<Rightarrow> (case mi_data mi of None \<Rightarrow> (0, 0) | Some d \<Rightarrow> d))"
  have "snd d < 0x80000000"
    using assms find_map_info_Some [of ms pc] by (auto simp: tables_bounded_def d_def split: option.splits)
  from exidx_search_returns [OF this] have "\<exists>h. exidx_search (umem E) (fst d) (snd d) pc 0 (snd d) = Some h" .
  then show ?thesis
    unfolding get_exception_handler_def d_def [symmetric] by (auto simp: case_prod_beta)
qed

lemma unwind_frame_fault:
  assumes "tables_bounded E ms" and "unwind_frame E ms first n pc state = Inl e"
  shows "e = Wild_Access"
proof -
  obtain h where h: "get_exception_handler E ms pc = Inr h" using handler_total [OF assms(1)] by blast
  show ?thesis using assms(2)
    by (auto simp: unwind_frame_def h res_bind_def dest: execute_fault not_save_fault
        split: if_splits option.splits prod.splits sum.splits)
qed

lemma add_entry_bound:
  "length (snd fs) \<le> mx \<Longrightarrow> length (snd (add_backtrace_entry pc ig mx fs)) \<le> mx"
  by (auto simp: add_backtrace_entry_def split: prod.splits)

definition loop_done :: "nat \<Rightarrow> (unwind_state_t \<times> nat \<times> u32 list) res \<Rightarrow> bool" where
  "loop_done mx r \<longleftrightarrow> (case r of Inl e \<Rightarrow> e = Wild_Access | Inr (_, _, frames) \<Rightarrow> length frames \<le> mx)"

lemma unwind_loop32_ok:
  assumes "tables_bounded E ms" and "length (snd fs) \<le> mx"
  shows "loop_done mx (unwind_loop32 E ms ig mx first state fs)"
  using assms
proof (induction E ms ig mx first state fs rule: unwind_loop32.induct)
  case (1 E ms ig mx first state fs)
  show ?case
  proof (cases "length (snd fs) < mx \<and> \<not> state R_PC < 0x10000000")
    case False
    then show ?thesis using "1.prems" by (subst unwind_loop32.simps) (auto simp: loop_done_def split: prod.splits)
  next
    case True
    define pc where "pc = (if first then state R_PC else rewind_pc_arch (umem E) (state R_PC))"
    define fs1 where "fs1 = add_backtrace_entry pc ig mx fs"
    have b: "length (snd fs1) \<le> mx" using add_entry_bound "1.prems"(2) by (simp add: fs1_def)
    have eq: "unwind_loop32 E ms ig mx first state fs =
      (case unwind_frame E ms first (length (snd fs1)) pc state of
         Inl e \<Rightarrow> Inl e | Inr (Leave st) \<Rightarrow> Inr (st, fs1)
       | Inr (Next st) \<Rightarrow> unwind_loop32 E ms ig mx False st fs1)"
      using True by (subst unwind_loop32.simps)
        (simp only: simp_thms if_True if_False Let_def pc_def [symmetric] fs1_def [symmetric])
    show ?thesis
    proof (cases "unwind_frame E ms first (length (snd fs1)) pc state")
      case (Inl e)
      then show ?thesis using eq unwind_frame_fault [OF "1.prems"(1) Inl] by (simp add: loop_done_def)
    next
      case (Inr v)
      show ?thesis
      proof (cases v)
        case (Next st)
        then show ?thesis using eq Inr "1.IH" [OF _ _ pc_def fs1_def _ Next "1.prems"(1) b] True by simp
      next
        case (Leave st)
        then show ?thesis using eq Inr b by (cases fs1) (simp add: loop_done_def)
      qed
    qed
  qed
qed

section \<open>A stream of four instruction bytes\<close>

definition join_bytes :: "u8 \<Rightarrow> u8 \<Rightarrow> u8 \<Rightarrow> u8 \<Rightarrow> u32" where
  "join_bytes b0 b1 b2 b3 =
     push_bit 24 (ucast b0) OR push_bit 16 (ucast b1) OR push_bit 8 (ucast b2) OR ucast b3"

lemma split_bytes:
  "ucast (drop_bit 24 (join_bytes b0 b1 b2 b3)) = b0" "ucast (drop_bit 16 (join_bytes b0 b1 b2 b3)) = b1"
  "ucast (drop_bit 8 (join_bytes b0 b1 b2 b3)) = b2" "ucast (join_bytes b0 b1 b2 b3) = b3"
  unfolding join_bytes_def
  by (rule bit_word_eqI; auto simp: bit_simps dest: bit_imp_le_length)+

lemma unat_and_3: "unat ((w :: u32) AND 3) = unat w mod 4"
proof -
  have "w AND 3 = take_bit 2 w" by (simp add: take_bit_eq_mask mask_numeral)
  then show ?thesis by (simp add: take_bit_eq_mod unat_mod)
qed

lemma aligned_next:
  fixes h :: u32
  assumes "h AND 3 = 0"
  shows "(h + 1) AND 3 = 1" and "(h + 2) AND 3 = 2" and "(h + 3) AND 3 = 3"
proof -
  have h: "unat h mod 4 = 0" using unat_and_3 [of h] assms by simp
  have "unat ((h + k) AND 3) = (unat h + unat k) mod 4" for k
    by (simp add: unat_and_3 unat_word_ariths mod_mod_cancel)
  then have "unat ((h + k) AND 3) = unat k mod 4" for k using h by (metis add_0 mod_add_left_eq)
  from this [of 1] this [of 2] this [of 3]
  show "(h + 1) AND 3 = 1" "(h + 2) AND 3 = 2" "(h + 3) AND 3 = 3"
    by (simp_all add: word_eq_iff_unsigned [where 'a = nat])
qed

lemma stream_four:
  assumes "h AND 3 = 0" and "try_get_word m h = Some (join_bytes b0 b1 b2 b3)"
  shows "try_next_byte m \<lparr>bs_ptr = h, bs_word = x\<rparr> = Some (b0, \<lparr>bs_ptr = h + 1, bs_word = join_bytes b0 b1 b2 b3\<rparr>)"
    and "try_next_byte m \<lparr>bs_ptr = h + 1, bs_word = join_bytes b0 b1 b2 b3\<rparr> =
      Some (b1, \<lparr>bs_ptr = h + 2, bs_word = join_bytes b0 b1 b2 b3\<rparr>)"
    and "try_next_byte m \<lparr>bs_ptr = h + 2, bs_word = join_bytes b0 b1 b2 b3\<rparr> =
      Some (b2, \<lparr>bs_ptr = h + 3, bs_word = join_bytes b0 b1 b2 b3\<rparr>)"
    and "try_next_byte m \<lparr>bs_ptr = h + 3, bs_word = join_bytes b0 b1 b2 b3\<rparr> =
      Some (b3, \<lparr>bs_ptr = h + 4, bs_word = join_bytes b0 b1 b2 b3\<rparr>)"
  using assms by (simp_all add: try_next_byte_def Let_def aligned_next split_bytes add.assoc)

lemma op_vsp:
  "op AND 0xC0 = 0 \<Longrightarrow> unwind_op E op state stream sz pc_set =
     Inr (Go (add_sp (push_bit 2 (ucast (op AND 0x3F)) + 4) state) stream sz pc_set)"
  by (simp add: unwind_op_def)

lemma op_pop_lr:
  assumes "n < 8"
  shows "unwind_op E (word_of_nat (0xA8 + n)) state stream sz pc_set =
    pop_mask E ((drop_bit (7 - n) 0x0FF0 AND 0x0FF0) OR 0x4000) state stream sz pc_set"
proof -
  consider "n = 0" | "n = 1" | "n = 2" | "n = 3" | "n = 4" | "n = 5" | "n = 6" | "n = 7" using assms by linarith
  then show ?thesis by cases (simp_all add: unwind_op_def)
qed

lemma mask_without_sp:
  assumes "n < 8"
  shows "((drop_bit (7 - n) 0x0FF0 AND 0x0FF0) OR 0x4000) AND push_bit R_SP 1 = (0 :: u32)"
proof -
  consider "n = 0" | "n = 1" | "n = 2" | "n = 3" | "n = 4" | "n = 5" | "n = 6" | "n = 7" using assms by linarith
  then show ?thesis by cases (simp_all add: R_SP_def)
qed

section \<open>Properties of the 32-bit unwinder\<close>


definition sample_unwind_env :: unwind_env where
  "sample_unwind_env =
     \<lparr>umem = \<lparr>mem_tid = - 1, mem_maps = [],
        local_word = (\<lambda>a. if a = 0x20000004 then join_bytes 0x80 0x01 0xA9 0xB0 else 0),
        remote_word = \<lambda>_. (0, False)\<rparr>,
      find_exidx = \<lambda>_. (0x20000000, 1), ustack = Some (0x40010000, 0x40000000), uword = \<lambda>a. Some a\<rparr>"


text \<open>C19. The binary search of the exception index finds the right entry: in a readable table of fewer than
  2^31 entries sorted by address, it returns the handler of the last entry that starts at or before
  the program counter.\<close>

theorem exidx_search_correct:
  assumes "tab_ok m start n" and "covers m start n pc i"
  shows "exidx_search m start (word_of_nat n) pc 0 (word_of_nat n) = Some (entry_handler m (tab_entry start i))"
proof -
  have "n < 2 ^ 32" using assms(1) by (simp add: tab_ok_def)
  then have "unat (word_of_nat n :: u32) = n" by (simp add: unat_of_nat)
  then show ?thesis by (intro exidx_search_finds [OF assms]) (use assms(2) in \<open>auto simp: covers_def\<close>)
qed

definition sample_table :: memory_t where
  "sample_table = \<lparr>mem_tid = - 1, mem_maps = [],
     local_word = (\<lambda>a. if a = 0x1000 then 0x100 else if a = 0x1008 then 0x200 else if a = 0x1010 then 0x300
       else 0x80B0B0B0),
     remote_word = \<lambda>_. (0, False)\<rparr>"

theorem exidx_search_correct_witness:
  "exidx_search sample_table 0x1000 3 0x1250 0 3 = Some 0x100C"
proof -
  have pcs: "tab_pc sample_table 0x1000 0 = 0x1100" "tab_pc sample_table 0x1000 1 = 0x1208"
    "tab_pc sample_table 0x1000 2 = 0x1310"
    by (simp_all add: tab_pc_def tab_entry_def try_get_word_def sample_table_def prel_to_absolute_def)
  have two: "tab_pc sample_table 0x1000 (1 + 1) = 0x1310" using pcs(3) by (simp only: one_add_one)
  have "tab_ok sample_table 0x1000 3"
    unfolding tab_ok_def using pcs [unfolded numeral_2_eq_2 One_nat_def]
    by (auto simp: less_Suc_eq numeral_3_eq_3 tab_entry_def try_get_word_def sample_table_def)
  moreover have "covers sample_table 0x1000 3 0x1250 1" unfolding covers_def two by (simp add: pcs [unfolded One_nat_def])
  moreover have "entry_handler sample_table (tab_entry 0x1000 1) = 0x100C"
    by (simp add: entry_handler_def tab_entry_def try_get_word_def sample_table_def)
  ultimately show ?thesis using exidx_search_correct [of sample_table "0x1000" 3 "0x1250" 1] by simp
qed

text \<open>C20. Unwinding undoes the standard prologue. A function that pushed \<open>r4\<close> to \<open>r(4+n)\<close> and \<open>lr\<close>
  and then lowered the stack pointer by \<open>4 k + 4\<close> has the compact unwinding data
  \<open>80 k A8+n B0\<close>. Executing it gives the caller's stack pointer, the saved registers, and the saved
  \<open>lr\<close> as program counter; the other registers are untouched.\<close>

theorem prologue_unwound:
  assumes "n < 8" and "k AND 0xC0 = 0" and "h AND 3 = 0"
    and "try_get_word (umem E) h = Some (join_bytes 0x80 k (word_of_nat (0xA8 + n)) 0xB0)"
    and "length saved = n + 1"
    and "stack_words E (state R_SP + (push_bit 2 (ucast (k AND 0x3F)) + 4)) (saved @ [lr])"
  shows "\<exists>stream state'. try_next_byte (umem E) \<lparr>bs_ptr = h, bs_word = 0\<rparr> = Some (0x80, stream) \<and>
    execute_personality_routine E state stream (0x80 AND 0x0F) = Inr (True, state') \<and>
    state' R_SP = state R_SP + (push_bit 2 (ucast (k AND 0x3F)) + 4) + 4 * word_of_nat (n + 2) \<and>
    state' R_PC = lr \<and> (\<forall>i\<le>n. state' (4 + i) = saved ! i) \<and>
    (\<forall>r. r < 4 \<or> 4 + n < r \<and> r < 13 \<longrightarrow> state' r = state r)"
proof -
  let ?w = "join_bytes 0x80 k (word_of_nat (0xA8 + n)) 0xB0"
  let ?s = "\<lambda>j. \<lparr>bs_ptr = h + j, bs_word = ?w\<rparr>"
  let ?m = "(drop_bit (7 - n) 0x0FF0 AND 0x0FF0) OR 0x4000 :: u32"
  note four = stream_four [OF assms(3,4)]
  define st1 where "st1 = add_sp (push_bit 2 (ucast (k AND 0x3F)) + 4) state"
  define rs where "rs = [4..<5 + n]"
  define st2 where "st2 = (pop_values (rs @ [14]) (saved @ [lr]) st1)(R_SP := st1 R_SP + 4 * word_of_nat (n + 2))"
  have sp1: "st1 R_SP = state R_SP + (push_bit 2 (ucast (k AND 0x3F)) + 4)" by (simp add: st1_def add_sp_def set_reg_def)
  have len: "length rs = length saved" using assms(5) by (simp add: rs_def)
  have regs: "mask_regs ?m [0..<16] = rs @ [14]" using mask_regs_save [OF assms(1)] by (simp only: rs_def)
  have pop: "try_pop_registers E ?m st1 = Inr (True, st2)"
    using pop_registers_values [of E st1 "saved @ [lr]" ?m] assms(6) len regs mask_without_sp [OF assms(1)]
    by (simp add: sp1 st2_def assms(5) del: fun_upd_apply)
  define fin where "fin = set_reg R_PC (st2 R_LR) st2"
  have l0: "personality_loop E (Suc 0) st2 (?s 3) False = Inr (True, fin)"
    using four(4) by (subst personality_loop.simps) (simp add: unwind_op_def fin_def)
  have l1: "personality_loop E (Suc (Suc 0)) st1 (?s 2) False = Inr (True, fin)"
    using four(3) l0 pop op_pop_lr [OF assms(1), of E st1 "?s 3" "Suc 0" False]
    by (subst personality_loop.simps) (simp add: pop_mask_def)
  have l2: "personality_loop E (Suc (Suc (Suc 0))) state (?s 1) False = Inr (True, fin)"
    using four(2) l1 op_vsp [OF assms(2), of E state "?s 2" "Suc (Suc 0)" False]
    by (subst personality_loop.simps) (simp add: st1_def)
  have "execute_personality_routine E state (?s 1) (0x80 AND 0x0F) = Inr (True, fin)"
    using l2 by (simp add: execute_personality_routine_def numeral_3_eq_3)
  moreover have "fin R_SP = st1 R_SP + 4 * word_of_nat (n + 2)" by (simp add: fin_def set_reg_def st2_def R_SP_def R_PC_def)
  moreover have "fin R_PC = lr"
    using len by (simp add: fin_def set_reg_def st2_def R_SP_def R_PC_def R_LR_def pop_values_app)
  moreover have "fin (4 + i) = saved ! i" if "i \<le> n" for i
  proof -
    have "rs ! i = 4 + i" "i < length rs" "distinct rs" using that by (simp_all add: rs_def)
    then have "pop_values rs saved st1 (4 + i) = saved ! i" using pop_values_at [of rs i saved st1] len by simp
    then show ?thesis using that assms(1) len
      by (simp add: fin_def set_reg_def st2_def R_SP_def R_PC_def pop_values_app)
  qed
  moreover have "fin r = state r" if "r < 4 \<or> 4 + n < r \<and> r < 13" for r
  proof -
    have "r \<notin> set (rs @ [14])" "r \<noteq> 13" "r \<noteq> 15" using that by (auto simp: rs_def)
    then show ?thesis by (simp add: fin_def set_reg_def st2_def R_SP_def R_PC_def pop_values_other st1_def add_sp_def)
  qed
  ultimately show ?thesis using four(1) [of 0] sp1 by (intro exI [of _ "?s 1"] exI [of _ fin]) simp
qed

theorem prologue_unwound_witness:
  "\<exists>state'. execute_personality_routine sample_unwind_env (\<lambda>r. 0x40000000)
      \<lparr>bs_ptr = 0x20000005, bs_word = join_bytes 0x80 0x01 0xA9 0xB0\<rparr> 0 = Inr (True, state') \<and>
     state' R_SP = 0x40000014 \<and> state' R_PC = 0x40000010 \<and> state' 4 = 0x40000008 \<and> state' 5 = 0x4000000C"
proof -
  have g: "try_get_word (umem sample_unwind_env) 0x20000004 = Some (join_bytes 0x80 0x01 (word_of_nat (0xA8 + 1)) 0xB0)"
    by (simp add: sample_unwind_env_def try_get_word_def join_bytes_def)
  have w: "stack_words sample_unwind_env ((\<lambda>r. 0x40000000) R_SP + (push_bit 2 (ucast (0x01 AND 0x3F :: u8)) + 4))
      ([0x40000008, 0x4000000C] @ [0x40000010])"
    by (simp add: sample_unwind_env_def stack_at_def try_get_word_stack_def)
  from prologue_unwound [of 1 "0x01" "0x20000004" sample_unwind_env, OF _ _ _ g _ w]
  obtain stream state' where s: "try_next_byte (umem sample_unwind_env) \<lparr>bs_ptr = 0x20000004, bs_word = 0\<rparr> = Some (0x80, stream)"
    "execute_personality_routine sample_unwind_env (\<lambda>r. 0x40000000) stream 0 = Inr (True, state')"
    "state' R_SP = 0x40000014" "state' R_PC = 0x40000010" "\<forall>i\<le>1. state' (4 + i) = [0x40000008, 0x4000000C] ! i"
    by auto
  from s(1) have "stream = \<lparr>bs_ptr = 0x20000005, bs_word = join_bytes 0x80 0x01 0xA9 0xB0\<rparr>"
    using g by (simp add: try_next_byte_def)
  moreover have "state' 4 = 0x40000008" "state' 5 = 0x4000000C"
    using spec [OF s(5), of 0] spec [OF s(5), of 1] by simp_all
  ultimately show ?thesis using s by blast
qed

text \<open>The instruction \<open>C6\<close> (pop a range of wireless MMX registers) has a second byte. The test for
  \<open>C0\<close> to \<open>C7\<close> comes first, so the byte is left in the stream and is executed as an instruction.\<close>

theorem wmmx_range_shadowed:
  "unwind_op E 0xC6 state stream sz pc_set = Inr (Go (add_sp 56 state) stream sz pc_set) \<and>
   unwind_op E 0xC7 state stream sz pc_set = Inr (Go (add_sp 64 state) stream sz pc_set)"
  by (simp add: unwind_op_def)

end
