(* ===== verification/Proc_Maps.thy ===== *)
theory Proc_Maps
  imports C_Text Byte_Memory
begin

text \<open>
  The address space as the PLT hooks see it (\<open>xHook/xh_util.c\<close>): bytes with page protections,
  loads and stores that fault where the page does not allow them, the protection of an address as
  read from the text of \<open>/proc/self/maps\<close>, and \<open>mprotect\<close>. The model follows the 64-bit build
  (8-byte pointers, pages of 4096 bytes). The text of the maps file and the kernel's answer to
  \<open>mprotect\<close> are inputs.
\<close>

section \<open>The address space\<close>

definition PROT_READ :: u32 where "PROT_READ = 1"
definition PROT_WRITE :: u32 where "PROT_WRITE = 2"
definition PROT_EXEC :: u32 where "PROT_EXEC = 4"

definition PAGE_SIZE :: u64 where "PAGE_SIZE = 4096"

definition PAGE_START :: "u64 \<Rightarrow> u64" where
  "PAGE_START addr = addr AND NOT (mask 12)"

definition PAGE_END :: "u64 \<Rightarrow> u64" where
  "PAGE_END addr = PAGE_START (addr + 8 - 1) + PAGE_SIZE"

definition PAGE_COVER :: "u64 \<Rightarrow> u64" where
  "PAGE_COVER addr = PAGE_END addr - PAGE_START addr"

text \<open>\<open>cells\<close> holds the mapped bytes, \<open>prots\<close> the protection of the page that starts at an address.\<close>

record process =
  cells :: "u64 \<Rightarrow> u8 option"
  prots :: "u64 \<Rightarrow> u32"

definition readable :: "process \<Rightarrow> u64 \<Rightarrow> bool" where
  "readable p a \<longleftrightarrow> cells p a \<noteq> None \<and> prots p (PAGE_START a) AND PROT_READ \<noteq> 0"

definition writable :: "process \<Rightarrow> u64 \<Rightarrow> bool" where
  "writable p a \<longleftrightarrow> cells p a \<noteq> None \<and> prots p (PAGE_START a) AND PROT_WRITE \<noteq> 0"

definition load8 :: "process \<Rightarrow> u64 \<Rightarrow> u8 res" where
  "load8 p a = (if readable p a then Inr (the (cells p a)) else Inl Wild_Access)"

fun load_bytes :: "process \<Rightarrow> u64 \<Rightarrow> nat \<Rightarrow> u8 list res" where
  "load_bytes p a 0 = Inr []"
| "load_bytes p a (Suc n) =
     res_bind (load8 p a) (\<lambda>b. res_bind (load_bytes p (a + 1) n) (\<lambda>bs. Inr (b # bs)))"

definition load16 :: "process \<Rightarrow> u64 \<Rightarrow> u16 res" where
  "load16 p a = res_bind (load_bytes p a 2) (\<lambda>bs. Inr (le_word bs))"

definition load32 :: "process \<Rightarrow> u64 \<Rightarrow> u32 res" where
  "load32 p a = res_bind (load_bytes p a 4) (\<lambda>bs. Inr (le_word bs))"

definition load64 :: "process \<Rightarrow> u64 \<Rightarrow> u64 res" where
  "load64 p a = res_bind (load_bytes p a 8) (\<lambda>bs. Inr (le_word bs))"

text \<open>A pointer is stored whole or the store faults.\<close>

definition store64 :: "u64 \<Rightarrow> u64 \<Rightarrow> process \<Rightarrow> process res" where
  "store64 a w p =
     (if \<forall>i\<in>set [0..<8]. writable p (a + word_of_nat i)
      then Inr (p\<lparr>cells := write_bytes a (map Some (le64 w)) (cells p)\<rparr>) else Inl Wild_Access)"

section \<open>Error numbers\<close>

definition XH_ERRNO_UNKNOWN :: int where "XH_ERRNO_UNKNOWN = 1001"
definition XH_ERRNO_INVAL :: int where "XH_ERRNO_INVAL = 1002"
definition XH_ERRNO_NOMEM :: int where "XH_ERRNO_NOMEM = 1003"
definition XH_ERRNO_NOTFND :: int where "XH_ERRNO_NOTFND = 1005"
definition XH_ERRNO_BADMAPS :: int where "XH_ERRNO_BADMAPS = 1006"
definition XH_ERRNO_FORMAT :: int where "XH_ERRNO_FORMAT = 1007"
definition XH_ERRNO_ELFINIT :: int where "XH_ERRNO_ELFINIT = 1008"
definition XH_ERRNO_SEGVERR :: int where "XH_ERRNO_SEGVERR = 1009"

lemmas xh_errno_defs = XH_ERRNO_UNKNOWN_def XH_ERRNO_INVAL_def XH_ERRNO_NOMEM_def XH_ERRNO_NOTFND_def
  XH_ERRNO_BADMAPS_def XH_ERRNO_FORMAT_def XH_ERRNO_ELFINIT_def XH_ERRNO_SEGVERR_def

section \<open>Reading a line of the maps file\<close>

text \<open>
  The conversions of \<open>sscanf\<close>, each on the text that is left: a number (leading space, an optional
  sign, for hexadecimal an optional \<open>0x\<close>, one digit or more; saturating), a string of at most \<open>k\<close>
  characters, a literal character, and white space in the format. \<open>None\<close> is a failed match.
\<close>

definition scan_number :: "(char \<Rightarrow> nat option) \<Rightarrow> nat \<Rightarrow> string \<Rightarrow> (u64 \<times> string) option" where
  "scan_number dig base s =
     (let s1 = dropWhile isspace s;
          neg = (s1 \<noteq> [] \<and> hd s1 = CHR ''-'');
          s2 = (if s1 \<noteq> [] \<and> hd s1 \<in> {CHR ''-'', CHR ''+''} then tl s1 else s1);
          s3 = (if base = 16 \<and> take 2 s2 \<in> {''0x'', ''0X''} \<and> drop 2 s2 \<noteq> [] \<and> dig (s2 ! 2) \<noteq> None
                then drop 2 s2 else s2);
          ds = takeWhile (\<lambda>c. dig c \<noteq> None) s3;
          v = digits_value dig base 0 ds;
          w = (if v < 2 ^ 64 then word_of_nat v else - 1 :: u64)
      in if ds = [] then None else Some (if neg \<and> v < 2 ^ 64 then - w else w, drop (length ds) s3))"

definition scan_string :: "nat \<Rightarrow> string \<Rightarrow> (string \<times> string) option" where
  "scan_string k s =
     (let s1 = dropWhile isspace s; w = take k (takeWhile (\<lambda>c. \<not> isspace c) s1)
      in if w = [] then None else Some (w, drop (length w) s1))"

definition scan_char :: "char \<Rightarrow> string \<Rightarrow> string option" where
  "scan_char c s = (if s \<noteq> [] \<and> hd s = c then Some (tl s) else None)"

definition scan_space :: "string \<Rightarrow> string" where
  "scan_space s = dropWhile isspace s"

text \<open>\<open>sscanf(line, "%lx-%lx %4s ", &start, &end, perm)\<close>\<close>

definition scan_range :: "string \<Rightarrow> (u64 \<times> u64 \<times> string) option" where
  "scan_range line =
     Option.bind (scan_number hex_digit 16 line) (\<lambda>(start, r1).
     Option.bind (scan_char (CHR ''-'') r1) (\<lambda>r2.
     Option.bind (scan_number hex_digit 16 r2) (\<lambda>(endp, r3).
     Option.bind (scan_string 4 (scan_space r3)) (\<lambda>(perm, r4). Some (start, endp, perm)))))"

text \<open>\<open>%4s\<close> leaves the characters of the array that the text does not reach as they were.\<close>

definition fill :: "string \<Rightarrow> string \<Rightarrow> string" where
  "fill s buf = s @ CHR 0x00 # drop (Suc (length s)) buf"

section \<open>The protection of an address\<close>

record xh_os =
  self_maps :: "process \<Rightarrow> string option"
  perm_junk :: string
  os_mprotect :: "(u64 \<Rightarrow> u32) \<Rightarrow> u64 \<Rightarrow> u64 \<Rightarrow> u32 \<Rightarrow> int option \<times> (u64 \<Rightarrow> u32)"

definition first_prot :: "string \<Rightarrow> u32" where
  "first_prot perm =
     (if perm ! 0 = CHR ''r'' then PROT_READ else 0) OR
     (if perm ! 1 = CHR ''w'' then PROT_WRITE else 0) OR
     (if perm ! 2 = CHR ''x'' then PROT_EXEC else 0)"

definition next_prot :: "string \<Rightarrow> u32 \<Rightarrow> u32" where
  "next_prot perm prot =
     prot AND (if perm ! 0 \<noteq> CHR ''r'' then NOT PROT_READ else - 1)
          AND (if perm ! 1 \<noteq> CHR ''w'' then NOT PROT_WRITE else - 1)
          AND (if perm ! 2 \<noteq> CHR ''x'' then NOT PROT_EXEC else - 1)"

fun protect_loop :: "string option \<Rightarrow> u64 \<Rightarrow> u64 \<Rightarrow> string \<Rightarrow> u32 \<Rightarrow> bool \<Rightarrow> string list \<Rightarrow> bool \<times> u32" where
  "protect_loop pathname end_addr start_addr perm prot load0 [] = (False, prot)"
| "protect_loop pathname end_addr start_addr perm prot load0 (line # lines) =
     (if (case pathname of None \<Rightarrow> False | Some pn \<Rightarrow> \<not> strstr line pn)
      then protect_loop pathname end_addr start_addr perm prot load0 lines
      else case scan_range line of
        None \<Rightarrow> protect_loop pathname end_addr start_addr perm prot load0 lines
      | Some (start, endp, s) \<Rightarrow>
          let perm' = fill s perm in
          if perm' ! 3 \<noteq> CHR ''p'' then protect_loop pathname end_addr start_addr perm' prot load0 lines
          else if start \<le> start_addr \<and> start_addr < endp then
            let prot' = (if load0 then prot OR first_prot perm' else next_prot perm' prot) in
            if end_addr \<le> endp then (True, prot')
            else protect_loop pathname end_addr endp perm' prot' False lines
          else protect_loop pathname end_addr start_addr perm' prot load0 lines)"

definition xh_util_get_mem_protect :: "xh_os \<Rightarrow> process \<Rightarrow> u64 \<Rightarrow> u64 \<Rightarrow> string option \<Rightarrow> int \<times> u32" where
  "xh_util_get_mem_protect os p addr len pathname =
     (case self_maps os p of
        None \<Rightarrow> (XH_ERRNO_BADMAPS, 0)
      | Some text \<Rightarrow>
          let (found_all, prot) =
            protect_loop pathname (addr + len) addr (perm_junk os) 0 True (fgets_lines 512 text)
          in (if found_all then 0 else XH_ERRNO_SEGVERR, prot))"

definition xh_util_get_addr_protect :: "xh_os \<Rightarrow> process \<Rightarrow> u64 \<Rightarrow> string option \<Rightarrow> int \<times> u32" where
  "xh_util_get_addr_protect os p addr pathname = xh_util_get_mem_protect os p addr 8 pathname"

definition xh_util_set_addr_protect :: "xh_os \<Rightarrow> u64 \<Rightarrow> u32 \<Rightarrow> process \<Rightarrow> int \<times> process" where
  "xh_util_set_addr_protect os addr prot p =
     (let (err, prots') = os_mprotect os (prots p) (PAGE_START addr) (PAGE_COVER addr) prot
      in (case err of None \<Rightarrow> 0 | Some e \<Rightarrow> if e = 0 then XH_ERRNO_UNKNOWN else e, p\<lparr>prots := prots'\<rparr>))"


section \<open>Reading back a printed line\<close>

text \<open>A mapping as the kernel prints it: two addresses, four permission letters, and the rest.\<close>

record map_entry =
  e_start :: u64
  e_end :: u64
  e_width :: nat
  e_perm :: string
  e_rest :: string

definition print_entry :: "map_entry \<Rightarrow> string" where
  "print_entry e = hex_text (e_width e) (unat (e_start e)) @ CHR ''-'' # hex_text (e_width e) (unat (e_end e)) @
     CHR '' '' # e_perm e @ CHR '' '' # e_rest e"

definition entry_ok :: "map_entry \<Rightarrow> bool" where
  "entry_ok e \<longleftrightarrow> 0 < e_width e \<and> unat (e_start e) < 16 ^ e_width e \<and> unat (e_end e) < 16 ^ e_width e \<and>
     e_start e < e_end e \<and> length (e_perm e) = 4 \<and> (\<forall>c\<in>set (e_perm e). \<not> isspace c) \<and>
     CHR 0x0A \<notin> set (e_rest e) \<and> 2 * e_width e + length (e_rest e) + 7 \<le> 510"

lemma hex_char_props:
  assumes "d < 16"
  shows "hex_digit (hex_char d) \<noteq> None" "\<not> isspace (hex_char d)" "hex_char d \<notin> {CHR ''-'', CHR ''+'', CHR ''x'', CHR ''X''}"
proof -
  have *: "hex_char d \<in> set ''0123456789abcdef''"
    using assms hex_char_nth [OF assms] nth_mem [of d "''0123456789abcdef''"] by simp
  show "hex_digit (hex_char d) \<noteq> None" using assms by (simp add: hex_digit_char)
  show "\<not> isspace (hex_char d)" using * by (auto simp: isspace_def)
  show "hex_char d \<notin> {CHR ''-'', CHR ''+'', CHR ''x'', CHR ''X''}" using * by auto
qed

lemma hex_text_chars:
  assumes "c \<in> set (hex_text k x)"
  shows "hex_digit c \<noteq> None" "\<not> isspace c" "c \<notin> {CHR ''-'', CHR ''+'', CHR ''x'', CHR ''X''}"
proof -
  from assms obtain i where c: "c = hex_char (x div 16 ^ i mod 16)" by (auto simp: hex_text_def)
  show "hex_digit c \<noteq> None" "\<not> isspace c" "c \<notin> {CHR ''-'', CHR ''+'', CHR ''x'', CHR ''X''}"
    unfolding c by (rule hex_char_props; simp)+
qed

lemma takeWhile_app_stop: "(\<forall>x\<in>set xs. P x) \<Longrightarrow> \<not> P y \<Longrightarrow> takeWhile P (xs @ y # ys) = xs"
  by (induction xs) auto

lemma scan_number_hex:
  assumes "0 < k" and "unat (w :: u64) < 16 ^ k" and "hex_digit c = None" and "c \<notin> {CHR ''x'', CHR ''X''}"
  shows "scan_number hex_digit 16 (hex_text k (unat w) @ c # s) = Some (w, c # s)"
proof -
  define t where "t = hex_text k (unat w)"
  have lt: "length t = k" by (simp add: t_def)
  then have ne: "t \<noteq> []" using assms(1) by auto
  then obtain u us where t: "t = u # us" by (cases t) auto
  note ch = hex_text_chars [of _ k "unat w", folded t_def]
  have u: "\<not> isspace u" "u \<notin> {CHR ''-'', CHR ''+''}" using ch [of u] t by auto
  have sp: "dropWhile isspace (t @ c # s) = t @ c # s" using u(1) t by simp
  have "(t @ c # s) ! 1 \<notin> {CHR ''x'', CHR ''X''}" if "length (t @ c # s) > 1"
  proof (cases us)
    case Nil
    then show ?thesis using t assms(4) by simp
  next
    case (Cons v vs)
    then show ?thesis using ch(3) [of v] t by simp
  qed
  then have pre: "take 2 (t @ c # s) \<notin> {''0x'', ''0X''}" using t by (cases us) auto
  have tw: "takeWhile (\<lambda>c. hex_digit c \<noteq> None) (t @ c # s) = t"
    using ch(1) assms(3) by (intro takeWhile_app_stop) auto
  have v: "digits_value hex_digit 16 0 t = unat w" unfolding t_def by (rule hex_text_value [OF assms(2)])
  have "unat w < 2 ^ 64" using unsigned_less [of w, where 'a = nat] by simp
  moreover define z where "z = t @ c # s"
  moreover have "z \<noteq> []" "hd z \<noteq> CHR ''-''" "hd z \<noteq> CHR ''+''" "drop (length t) z = c # s"
    using u t by (auto simp: z_def)
  ultimately show ?thesis unfolding scan_number_def t_def [symmetric] Let_def
    using ne tw v pre sp by simp
qed

lemma scan_range_print:
  assumes "entry_ok e"
  shows "scan_range (print_entry e @ nl) = Some (e_start e, e_end e, e_perm e)"
proof -
  define r where "r = CHR '' '' # e_perm e @ CHR '' '' # e_rest e @ nl"
  have p: "print_entry e @ nl = hex_text (e_width e) (unat (e_start e)) @ CHR ''-'' #
      (hex_text (e_width e) (unat (e_end e)) @ r)" by (simp add: print_entry_def r_def)
  note ok = assms [unfolded entry_ok_def]
  have h: "hex_digit (CHR ''-'') = None" "hex_digit (CHR '' '') = None" by code_simp+
  have 1: "scan_number hex_digit 16 (print_entry e @ nl) =
      Some (e_start e, CHR ''-'' # hex_text (e_width e) (unat (e_end e)) @ r)"
    unfolding p using ok h by (intro scan_number_hex) auto
  have 2: "scan_number hex_digit 16 (hex_text (e_width e) (unat (e_end e)) @ r) = Some (e_end e, r)"
    unfolding r_def using ok h by (intro scan_number_hex) auto
  obtain a b c d where perm: "e_perm e = [a, b, c, d]" using ok
    by (auto simp: length_Suc_conv eval_nat_numeral)
  have ns: "\<not> isspace a" "\<not> isspace b" "\<not> isspace c" "\<not> isspace d" using ok perm by auto
  have "scan_string 4 (scan_space r) = Some (e_perm e, CHR '' '' # e_rest e @ nl)"
    using ns by (simp add: scan_string_def scan_space_def r_def perm isspace_def Let_def)
  then show ?thesis by (simp add: scan_range_def 1 2 scan_char_def)
qed

section \<open>Protections of a range\<close>

definition flags :: "bool \<Rightarrow> bool \<Rightarrow> bool \<Rightarrow> u32" where
  "flags r w x = (if r then PROT_READ else 0) OR (if w then PROT_WRITE else 0) OR (if x then PROT_EXEC else 0)"

lemma flags_bits:
  "flags r w x AND PROT_READ \<noteq> 0 \<longleftrightarrow> r" "flags r w x AND PROT_WRITE \<noteq> 0 \<longleftrightarrow> w" "flags r w x AND PROT_EXEC \<noteq> 0 \<longleftrightarrow> x"
  by (cases r; cases w; cases x; simp add: flags_def PROT_READ_def PROT_WRITE_def PROT_EXEC_def)+

definition overlaps :: "map_entry \<Rightarrow> u64 \<Rightarrow> u64 \<Rightarrow> bool" where
  "overlaps e lo hi \<longleftrightarrow> e_start e < hi \<and> lo < e_end e"

definition covered :: "map_entry list \<Rightarrow> u64 \<Rightarrow> u64 \<Rightarrow> bool" where
  "covered es lo hi \<longleftrightarrow> (\<forall>x. lo \<le> x \<and> x < hi \<longrightarrow> (\<exists>e\<in>set es. e_start e \<le> x \<and> x < e_end e))"

definition common_prot :: "map_entry list \<Rightarrow> u64 \<Rightarrow> u64 \<Rightarrow> nat \<Rightarrow> char \<Rightarrow> bool" where
  "common_prot es lo hi i c \<longleftrightarrow> (\<forall>e\<in>set es. overlaps e lo hi \<longrightarrow> e_perm e ! i = c)"

definition line_of :: "map_entry \<Rightarrow> string" where
  "line_of e = print_entry e @ [CHR 0x0A]"

definition relevant :: "string option \<Rightarrow> map_entry \<Rightarrow> bool" where
  "relevant pathname e \<longleftrightarrow> (case pathname of None \<Rightarrow> True | Some pn \<Rightarrow> strstr (line_of e) pn) \<and> e_perm e ! 3 = CHR ''p''"

definition in_order :: "map_entry list \<Rightarrow> bool" where
  "in_order es \<longleftrightarrow> sorted_wrt (\<lambda>a b. e_end a \<le> e_start b) es"

lemma fill_nth: "i < length s \<Longrightarrow> fill s buf ! i = s ! i"
  by (simp add: fill_def nth_append)

lemma first_prot_flags: "length s = 4 \<Longrightarrow>
    first_prot (fill s buf) = flags (s ! 0 = CHR ''r'') (s ! 1 = CHR ''w'') (s ! 2 = CHR ''x'')"
  by (simp add: first_prot_def flags_def fill_nth)

lemma next_prot_flags: "length s = 4 \<Longrightarrow>
    next_prot (fill s buf) (flags r w x) = flags (r \<and> s ! 0 = CHR ''r'') (w \<and> s ! 1 = CHR ''w'') (x \<and> s ! 2 = CHR ''x'')"
  by (cases r; cases w; cases x)
    (simp_all add: next_prot_def flags_def fill_nth PROT_READ_def PROT_WRITE_def PROT_EXEC_def)

lemma protect_loop_Cons:
  assumes "entry_ok e"
  shows "protect_loop pathname hi lo perm prot load0 (line_of e # ls) =
    (if \<not> relevant pathname e then
       protect_loop pathname hi lo
         (if case pathname of None \<Rightarrow> False | Some pn \<Rightarrow> \<not> strstr (line_of e) pn then perm else fill (e_perm e) perm)
         prot load0 ls
     else if e_start e \<le> lo \<and> lo < e_end e then
       let prot' = (if load0 then prot OR first_prot (fill (e_perm e) perm) else next_prot (fill (e_perm e) perm) prot) in
       if hi \<le> e_end e then (True, prot')
       else protect_loop pathname hi (e_end e) (fill (e_perm e) perm) prot' False ls
     else protect_loop pathname hi lo (fill (e_perm e) perm) prot load0 ls)"
proof -
  have "scan_range (line_of e) = Some (e_start e, e_end e, e_perm e)"
    unfolding line_of_def by (rule scan_range_print [OF assms])
  moreover have "fill (e_perm e) perm ! 3 = e_perm e ! 3"
    using assms by (intro fill_nth) (simp add: entry_ok_def)
  ultimately show ?thesis by (auto simp: relevant_def Let_def split: option.splits)
qed

declare protect_loop.simps(2) [simp del]

lemma covered_skip:
  assumes "e_end e \<le> lo"
  shows "covered (e # es) lo hi = covered es lo hi" "common_prot (e # es) lo hi i c = common_prot es lo hi i c"
  using assms by (force simp: covered_def common_prot_def overlaps_def)+

lemma covered_gap:
  assumes "\<forall>e\<in>set es. lo < e_start e" and "lo < hi"
  shows "\<not> covered es lo hi"
  using assms unfolding covered_def by (metis leD order_refl)

lemma covered_step:
  assumes "e_start e \<le> lo" and "lo < e_end e" and "e_end e < hi" and "\<forall>d\<in>set es. e_end e \<le> e_start d \<and> e_start d < e_end d"
  shows "covered (e # es) lo hi = covered es (e_end e) hi"
    "common_prot (e # es) lo hi i c \<longleftrightarrow> e_perm e ! i = c \<and> common_prot es (e_end e) hi i c"
proof -
  show "covered (e # es) lo hi = covered es (e_end e) hi"
    unfolding covered_def using assms(1-3) by (auto, (meson leD leI order.trans order.strict_trans2 order_less_imp_le)+)
  have "overlaps d lo hi = overlaps d (e_end e) hi" if "d \<in> set es" for d
    using assms(2) bspec [OF assms(4) that] by (auto simp: overlaps_def)
  moreover have "overlaps e lo hi" using assms(1-3) by (auto simp: overlaps_def)
  ultimately show "common_prot (e # es) lo hi i c \<longleftrightarrow> e_perm e ! i = c \<and> common_prot es (e_end e) hi i c"
    by (auto simp: common_prot_def)
qed

lemma covered_last:
  assumes "e_start e \<le> lo" and "lo < e_end e" and "hi \<le> e_end e" and "lo < hi" and "\<forall>d\<in>set es. e_end e \<le> e_start d"
  shows "covered (e # es) lo hi" "common_prot (e # es) lo hi i c \<longleftrightarrow> e_perm e ! i = c"
proof -
  show "covered (e # es) lo hi" using assms(1-3) by (fastforce simp: covered_def)
  have "\<not> overlaps d lo hi" if "d \<in> set es" for d
    using assms(3) bspec [OF assms(5) that] by (auto simp: overlaps_def)
  moreover have "overlaps e lo hi" using assms by (auto simp: overlaps_def)
  ultimately show "common_prot (e # es) lo hi i c \<longleftrightarrow> e_perm e ! i = c" by (auto simp: common_prot_def)
qed

text \<open>The answer of the loop: did it reach the end, and if so with the letters common to all.\<close>

definition loop_answer :: "map_entry list \<Rightarrow> u64 \<Rightarrow> u64 \<Rightarrow> bool \<Rightarrow> bool \<Rightarrow> bool \<Rightarrow> bool \<times> u32 \<Rightarrow> bool" where
  "loop_answer ms lo hi r w x ans \<longleftrightarrow>
     fst ans = covered ms lo hi \<and>
     (fst ans \<longrightarrow> snd ans = flags (r \<and> common_prot ms lo hi 0 (CHR ''r'')) (w \<and> common_prot ms lo hi 1 (CHR ''w''))
        (x \<and> common_prot ms lo hi 2 (CHR ''x'')))"

lemma protect_loop_answer:
  assumes "\<forall>e\<in>set es. entry_ok e" and "in_order es" and "lo < hi"
    and "load0 \<and> prot = 0 \<and> r \<and> w \<and> x \<or> \<not> load0 \<and> prot = flags r w x"
  shows "loop_answer (filter (relevant pathname) es) lo hi r w x
    (protect_loop pathname hi lo perm prot load0 (map line_of es))"
  using assms
proof (induction es arbitrary: lo perm prot load0 r w x)
  case Nil
  then show ?case by (auto simp: loop_answer_def covered_def)
next
  case (Cons e es)
  have ok: "entry_ok e" and oks: "\<forall>e\<in>set es. entry_ok e" and ord: "in_order es"
    and nxt: "\<forall>d\<in>set es. e_end e \<le> e_start d"
    using Cons.prems(1,2) by (auto simp: in_order_def)
  note IH = Cons.IH [OF oks ord]
  let ?ms = "filter (relevant pathname) es"
  have nxt': "\<forall>d\<in>set ?ms. e_end e \<le> e_start d \<and> e_start d < e_end d"
    using nxt oks by (auto simp: entry_ok_def)
  have e: "e_start e < e_end e" and len: "length (e_perm e) = 4" using ok by (auto simp: entry_ok_def)
  show ?case
  proof (cases "relevant pathname e")
    case False
    then show ?thesis using IH [OF Cons.prems(3,4)] by (simp add: protect_loop_Cons [OF ok])
  next
    case rel: True
    let ?p = "if load0 then prot OR first_prot (fill (e_perm e) perm) else next_prot (fill (e_perm e) perm) prot"
    have p: "?p = flags (r \<and> e_perm e ! 0 = CHR ''r'') (w \<and> e_perm e ! 1 = CHR ''w'') (x \<and> e_perm e ! 2 = CHR ''x'')"
      using Cons.prems(4) by (auto simp: first_prot_flags [OF len] next_prot_flags [OF len])
    consider (inside) "e_start e \<le> lo" "lo < e_end e" | (before) "e_end e \<le> lo" | (gap) "lo < e_start e"
      by fastforce
    then show ?thesis
    proof cases
      case inside
      show ?thesis
      proof (cases "hi \<le> e_end e")
        case True
        then show ?thesis using inside rel p covered_last [OF inside True Cons.prems(3), of ?ms] nxt'
          by (simp add: protect_loop_Cons [OF ok] loop_answer_def Let_def)
      next
        case False
        then have "e_end e < hi" by simp
        note st = covered_step [OF inside this nxt']
        show ?thesis using inside rel False p IH [OF \<open>e_end e < hi\<close>, of False ?p] st
          by (simp add: protect_loop_Cons [OF ok] loop_answer_def Let_def conj_assoc)
      qed
    next
      case before
      then have "\<not> lo < e_end e" by simp
      then show ?thesis using rel IH [OF Cons.prems(3,4)] covered_skip [OF before]
        by (simp add: protect_loop_Cons [OF ok] loop_answer_def)
    next
      case gap
      then have "\<not> e_start e \<le> lo" by simp
      moreover have "\<forall>d\<in>set (e # ?ms). lo < e_start d" using gap nxt' e by auto
      then have "\<not> covered (e # ?ms) lo hi" "\<not> covered ?ms lo hi"
        using covered_gap [OF _ Cons.prems(3)] by simp_all
      ultimately show ?thesis using rel IH [OF Cons.prems(3,4)]
        by (simp add: protect_loop_Cons [OF ok] loop_answer_def)
    qed
  qed
qed

lemma entry_line_ok:
  assumes "entry_ok e"
  shows "CHR 0x0A \<notin> set (print_entry e) \<and> length (print_entry e) + 2 \<le> 512"
proof -
  have "isspace (CHR 0x0A)" by (simp add: isspace_def)
  then show ?thesis using assms hex_text_chars(2)
    by (auto simp: print_entry_def entry_ok_def)
qed

lemma get_mem_protect_eq:
  assumes "self_maps os p = Some (text_of (map print_entry es))" and "\<forall>e\<in>set es. entry_ok e" and "in_order es"
    and "addr < addr + len" and "ms = filter (relevant pathname) es"
  shows "\<exists>prot. xh_util_get_mem_protect os p addr len pathname =
      (if covered ms addr (addr + len) then 0 else XH_ERRNO_SEGVERR, prot) \<and>
    (covered ms addr (addr + len) \<longrightarrow> prot = flags (common_prot ms addr (addr + len) 0 (CHR ''r''))
       (common_prot ms addr (addr + len) 1 (CHR ''w'')) (common_prot ms addr (addr + len) 2 (CHR ''x'')))"
proof -
  define ans where "ans = protect_loop pathname (addr + len) addr (perm_junk os) 0 True (map line_of es)"
  have "fgets_lines 512 (text_of (map print_entry es)) = map line_of es"
    using fgets_lines_text [of "map print_entry es" 512] entry_line_ok assms(2) by (simp add: line_of_def comp_def)
  then have "xh_util_get_mem_protect os p addr len pathname = (if fst ans then 0 else XH_ERRNO_SEGVERR, snd ans)"
    using assms(1) by (simp add: xh_util_get_mem_protect_def ans_def split_beta)
  moreover have "loop_answer ms addr (addr + len) True True True ans"
    unfolding ans_def assms(5) by (rule protect_loop_answer [OF assms(2,3,4)]) simp
  ultimately show ?thesis by (auto simp: loop_answer_def)
qed

section \<open>Properties of the protection of an address\<close>

text \<open>C25. The protection of a range of addresses is read back from the printed memory map: with mappings
  in ascending order, the call succeeds exactly if the private mappings of the given file cover the
  whole range, and the protection has a bit exactly if every one of those mappings that overlaps
  the range has its letter.\<close>

theorem mem_protect_correct:
  assumes "self_maps os p = Some (text_of (map print_entry es))" and "\<forall>e\<in>set es. entry_ok e" and "in_order es"
    and "addr < addr + len" and "ms = filter (relevant pathname) es"
  shows "\<exists>prot. xh_util_get_mem_protect os p addr len pathname =
      (if covered ms addr (addr + len) then 0 else XH_ERRNO_SEGVERR, prot) \<and>
    (covered ms addr (addr + len) \<longrightarrow>
       (prot AND PROT_READ \<noteq> 0 \<longleftrightarrow> common_prot ms addr (addr + len) 0 (CHR ''r'')) \<and>
       (prot AND PROT_WRITE \<noteq> 0 \<longleftrightarrow> common_prot ms addr (addr + len) 1 (CHR ''w'')) \<and>
       (prot AND PROT_EXEC \<noteq> 0 \<longleftrightarrow> common_prot ms addr (addr + len) 2 (CHR ''x'')))"
  using get_mem_protect_eq [OF assms] by (auto simp: flags_bits)

definition sample_entries :: "map_entry list" where
  "sample_entries =
     [\<lparr>e_start = 0x7000, e_end = 0x8000, e_width = 8, e_perm = ''r-xp'', e_rest = ''00000000 103:08 77 /l.so''\<rparr>,
      \<lparr>e_start = 0x8000, e_end = 0x9000, e_width = 8, e_perm = ''rw-p'', e_rest = ''00001000 103:08 77 /l.so''\<rparr>]"

definition sample_xh_os :: xh_os where
  "sample_xh_os = \<lparr>self_maps = \<lambda>_. Some (text_of (map print_entry sample_entries)), perm_junk = ''xxxxx'',
     os_mprotect = \<lambda>ps a n prot. (None, \<lambda>pg. if a \<le> pg \<and> pg < a + n then prot else ps pg)\<rparr>"

lemma line_has_path:
  assumes "e_rest e = r @ pn" shows "strstr (line_of e) pn"
proof -
  have "line_of e = (hex_text (e_width e) (unat (e_start e)) @ CHR ''-'' # hex_text (e_width e) (unat (e_end e)) @
     CHR '' '' # e_perm e @ CHR '' '' # r) @ pn @ [CHR 0x0A]"
    using assms by (simp add: line_of_def print_entry_def)
  then show ?thesis unfolding strstr_iff by blast
qed

lemma sample_paths: "\<forall>e\<in>set sample_entries. strstr (line_of e) ''/l.so''"
proof
  fix e assume "e \<in> set sample_entries"
  then have "e_rest e = take 19 (e_rest e) @ ''/l.so''" by (auto simp: sample_entries_def)
  then show "strstr (line_of e) ''/l.so''" by (rule line_has_path)
qed

lemma sample_entries_ok: "\<forall>e\<in>set sample_entries. entry_ok e" "in_order sample_entries"
    "filter (relevant (Some ''/l.so'')) sample_entries = sample_entries"
proof -
  show "\<forall>e\<in>set sample_entries. entry_ok e" "in_order sample_entries"
    by (simp_all add: sample_entries_def entry_ok_def isspace_def in_order_def)
  have "\<forall>e\<in>set sample_entries. e_perm e ! 3 = CHR ''p''" by (simp add: sample_entries_def)
  with sample_paths show "filter (relevant (Some ''/l.so'')) sample_entries = sample_entries"
    by (auto simp: relevant_def filter_id_conv)
qed

theorem mem_protect_correct_witness:
  "\<exists>prot. xh_util_get_mem_protect sample_xh_os \<lparr>cells = \<lambda>_. None, prots = \<lambda>_. 0\<rparr> 0x7FFC 8 (Some ''/l.so'') = (0, prot) \<and>
     prot AND PROT_READ \<noteq> 0 \<and> prot AND PROT_WRITE = 0 \<and> prot AND PROT_EXEC = 0"
proof -
  have "covered sample_entries 0x7FFC 0x8004"
    by (auto simp: covered_def sample_entries_def word_le_nat_alt word_less_nat_alt)
  moreover have "common_prot sample_entries 0x7FFC 0x8004 0 (CHR ''r'')"
    "\<not> common_prot sample_entries 0x7FFC 0x8004 1 (CHR ''w'')" "\<not> common_prot sample_entries 0x7FFC 0x8004 2 (CHR ''x'')"
    by (simp_all add: common_prot_def overlaps_def sample_entries_def)
  ultimately show ?thesis
    using mem_protect_correct [of sample_xh_os "\<lparr>cells = \<lambda>_. None, prots = \<lambda>_. 0\<rparr>" sample_entries "0x7FFC" 8 sample_entries "Some ''/l.so''"]
    by (simp add: sample_entries_ok sample_xh_os_def)
qed

end
