(* ===== verification/Elf_Reloc.thy ===== *)
theory Elf_Reloc
  imports Proc_Maps
begin

text \<open>
  The relocation iterators of \<open>xHook/xh_elf.c\<close> for the 64-bit build: over a plain table, and over
  the packed APS2 format of Android, a stream of signed LEB128 numbers. They read the address
  space of the process; the packed iterator is shown to list the relocations that an encoder of
  the format was given.
\<close>

section \<open>Plain tables\<close>

record xh_elf_plain_reloc_iterator_t =
  p_cur :: u64
  p_end :: u64
  p_is_use_rela :: bool

definition xh_elf_plain_reloc_iterator_init :: "u64 \<Rightarrow> u32 \<Rightarrow> bool \<Rightarrow> xh_elf_plain_reloc_iterator_t" where
  "xh_elf_plain_reloc_iterator_init rel rel_sz is_use_rela =
     \<lparr>p_cur = rel, p_end = rel + ucast rel_sz, p_is_use_rela = is_use_rela\<rparr>"

text \<open>\<open>sizeof\<close> of \<open>Elf64_Rela\<close> and \<open>Elf64_Rel\<close>\<close>

definition rel_size :: "bool \<Rightarrow> u64" where
  "rel_size is_use_rela = (if is_use_rela then 24 else 16)"

definition xh_elf_plain_reloc_iterator_next ::
  "xh_elf_plain_reloc_iterator_t \<Rightarrow> u64 option \<times> xh_elf_plain_reloc_iterator_t" where
  "xh_elf_plain_reloc_iterator_next self =
     (if p_end self \<le> p_cur self then (None, self)
      else let cur = p_cur self + rel_size (p_is_use_rela self) in (Some cur, self\<lparr>p_cur := cur\<rparr>))"

section \<open>Signed LEB128 numbers\<close>

record xh_elf_sleb128_decoder_t =
  d_cur :: u64
  d_end :: u64

definition xh_elf_sleb128_decoder_init :: "u64 \<Rightarrow> u32 \<Rightarrow> xh_elf_sleb128_decoder_t" where
  "xh_elf_sleb128_decoder_init rel rel_sz = \<lparr>d_cur = rel, d_end = rel + ucast rel_sz\<rparr>"

text \<open>
  The loop over the bytes of one number. A shift by the width of \<open>size_t\<close> or more is undefined in C.
  The result is an error number or the value, with the position reached.
\<close>

function sleb_loop :: "process \<Rightarrow> u64 \<Rightarrow> u64 \<Rightarrow> u64 \<Rightarrow> nat \<Rightarrow> (int + u64) res \<times> u64" where
  "sleb_loop p endp cur v shift =
     (if endp \<le> cur then (Inr (Inl XH_ERRNO_FORMAT), cur)
      else case load8 p cur of
        Inl e \<Rightarrow> (Inl e, cur)
      | Inr byte \<Rightarrow>
          if 64 \<le> shift then (Inl Bad_Shift, cur + 1)
          else
            let v' = v OR push_bit shift (ucast (byte AND 127)); shift' = shift + 7 in
            if byte AND 128 \<noteq> 0 then sleb_loop p endp (cur + 1) v' shift'
            else (Inr (Inr (if shift' < 64 \<and> byte AND 64 \<noteq> 0 then v' OR (- push_bit shift' 1) else v')), cur + 1))"
  by auto
termination
proof (relation "measure (\<lambda>(p, endp, cur, v, shift). unat endp - unat cur)")
  fix p endp cur v shift byte x xa
  assume "\<not> endp \<le> (cur :: u64)"
  then have "unat cur < unat endp" by (simp add: word_le_nat_alt)
  moreover from this have "unat (cur + 1) = Suc (unat cur)"
    using unsigned_less [of endp, where 'a = nat] by (intro unat_Suc_less [of _ "unat endp"]) auto
  ultimately show "((p, endp, cur + 1, x, xa), p, endp, cur, v, shift) \<in>
      measure (\<lambda>(p, endp, cur, v, shift). unat endp - unat cur)" by simp
qed simp

declare sleb_loop.simps [simp del]

definition xh_elf_sleb128_decoder_next ::
  "process \<Rightarrow> xh_elf_sleb128_decoder_t \<Rightarrow> (int + u64) res \<times> xh_elf_sleb128_decoder_t" where
  "xh_elf_sleb128_decoder_next p self =
     (let (r, cur) = sleb_loop p (d_end self) (d_cur self) 0 0 in (r, self\<lparr>d_cur := cur\<rparr>))"

section \<open>Packed tables\<close>

record reloc =
  r_offset :: u64
  r_info :: u64
  r_addend :: u64

record xh_elf_packed_reloc_iterator_t =
  decoder :: xh_elf_sleb128_decoder_t
  relocation_count :: u64
  group_size :: u64
  group_flags :: u64
  group_r_offset_delta :: u64
  relocation_index :: u64
  relocation_group_index :: u64
  it_r_offset :: u64
  it_r_info :: u64
  it_r_addend :: u64
  it_is_use_rela :: bool

definition RELOCATION_GROUPED_BY_INFO_FLAG :: u64 where "RELOCATION_GROUPED_BY_INFO_FLAG = 1"
definition RELOCATION_GROUPED_BY_OFFSET_DELTA_FLAG :: u64 where "RELOCATION_GROUPED_BY_OFFSET_DELTA_FLAG = 2"
definition RELOCATION_GROUPED_BY_ADDEND_FLAG :: u64 where "RELOCATION_GROUPED_BY_ADDEND_FLAG = 4"
definition RELOCATION_GROUP_HAS_ADDEND_FLAG :: u64 where "RELOCATION_GROUP_HAS_ADDEND_FLAG = 8"

lemmas group_flag_defs = RELOCATION_GROUPED_BY_INFO_FLAG_def RELOCATION_GROUPED_BY_OFFSET_DELTA_FLAG_def
  RELOCATION_GROUPED_BY_ADDEND_FLAG_def RELOCATION_GROUP_HAS_ADDEND_FLAG_def

text \<open>
  The functions of the iterator are sequences of steps that return an error number, 0 for success, or
  fault; \<open>andThen\<close> goes on after a success only. \<open>read_field\<close> reads one number into the iterator.
\<close>

type_synonym it_step = "xh_elf_packed_reloc_iterator_t \<Rightarrow> int res \<times> xh_elf_packed_reloc_iterator_t"

definition andThen :: "it_step \<Rightarrow> it_step \<Rightarrow> it_step" where
  "andThen m1 m2 self = (let (r, self') = m1 self in if r = Inr 0 then m2 self' else (r, self'))"

definition read_field :: "process \<Rightarrow> (u64 \<Rightarrow> xh_elf_packed_reloc_iterator_t \<Rightarrow> xh_elf_packed_reloc_iterator_t) \<Rightarrow> it_step" where
  "read_field p upd self =
     (let (r, d) = xh_elf_sleb128_decoder_next p (decoder self); self' = self\<lparr>decoder := d\<rparr> in
      case r of Inl e \<Rightarrow> (Inl e, self') | Inr (Inl code) \<Rightarrow> (Inr code, self') | Inr (Inr v) \<Rightarrow> (Inr 0, upd v self'))"

definition change :: "(xh_elf_packed_reloc_iterator_t \<Rightarrow> xh_elf_packed_reloc_iterator_t) \<Rightarrow> it_step" where
  "change f self = (Inr 0, f self)"

definition onlyIf :: "(xh_elf_packed_reloc_iterator_t \<Rightarrow> bool) \<Rightarrow> it_step \<Rightarrow> it_step" where
  "onlyIf c m self = (if c self then m self else (Inr 0, self))"

definition xh_elf_packed_reloc_iterator_init ::
  "process \<Rightarrow> u64 \<Rightarrow> u32 \<Rightarrow> bool \<Rightarrow> int res \<times> xh_elf_packed_reloc_iterator_t" where
  "xh_elf_packed_reloc_iterator_init p rel rel_sz is_use_rela =
     andThen (read_field p (\<lambda>v s. s\<lparr>relocation_count := v\<rparr>))
             (read_field p (\<lambda>v s. s\<lparr>it_r_offset := v\<rparr>))
       \<lparr>decoder = xh_elf_sleb128_decoder_init rel rel_sz, relocation_count = 0, group_size = 0,
        group_flags = 0, group_r_offset_delta = 0, relocation_index = 0, relocation_group_index = 0,
        it_r_offset = 0, it_r_info = 0, it_r_addend = 0, it_is_use_rela = is_use_rela\<rparr>"

definition has_flag :: "u64 \<Rightarrow> xh_elf_packed_reloc_iterator_t \<Rightarrow> bool" where
  "has_flag f self \<longleftrightarrow> group_flags self AND f \<noteq> 0"

definition group_addend :: "process \<Rightarrow> it_step" where
  "group_addend p self =
     (if has_flag RELOCATION_GROUP_HAS_ADDEND_FLAG self \<and> has_flag RELOCATION_GROUPED_BY_ADDEND_FLAG self then
        if \<not> it_is_use_rela self then (Inr XH_ERRNO_FORMAT, self)
        else read_field p (\<lambda>v s. s\<lparr>it_r_addend := it_r_addend s + v\<rparr>) self
      else if \<not> has_flag RELOCATION_GROUP_HAS_ADDEND_FLAG self then (Inr 0, self\<lparr>it_r_addend := 0\<rparr>)
      else (Inr 0, self))"

definition xh_elf_packed_reloc_iterator_read_group_fields :: "process \<Rightarrow> it_step" where
  "xh_elf_packed_reloc_iterator_read_group_fields p =
     andThen (read_field p (\<lambda>v s. s\<lparr>group_size := v\<rparr>))
    (andThen (read_field p (\<lambda>v s. s\<lparr>group_flags := v\<rparr>))
    (andThen (onlyIf (has_flag RELOCATION_GROUPED_BY_OFFSET_DELTA_FLAG) (read_field p (\<lambda>v s. s\<lparr>group_r_offset_delta := v\<rparr>)))
    (andThen (onlyIf (has_flag RELOCATION_GROUPED_BY_INFO_FLAG) (read_field p (\<lambda>v s. s\<lparr>it_r_info := v\<rparr>)))
    (andThen (group_addend p)
             (change (\<lambda>s. s\<lparr>relocation_group_index := 0\<rparr>))))))"

definition next_offset :: "process \<Rightarrow> it_step" where
  "next_offset p self =
     (if has_flag RELOCATION_GROUPED_BY_OFFSET_DELTA_FLAG self
      then (Inr 0, self\<lparr>it_r_offset := it_r_offset self + group_r_offset_delta self\<rparr>)
      else read_field p (\<lambda>v s. s\<lparr>it_r_offset := it_r_offset s + v\<rparr>) self)"

definition next_fields :: "process \<Rightarrow> it_step" where
  "next_fields p =
     andThen (onlyIf (\<lambda>s. relocation_group_index s = group_size s) (xh_elf_packed_reloc_iterator_read_group_fields p))
    (andThen (next_offset p)
    (andThen (onlyIf (\<lambda>s. \<not> has_flag RELOCATION_GROUPED_BY_INFO_FLAG s) (read_field p (\<lambda>v s. s\<lparr>it_r_info := v\<rparr>)))
    (andThen (onlyIf (\<lambda>s. it_is_use_rela s \<and> has_flag RELOCATION_GROUP_HAS_ADDEND_FLAG s \<and>
                         \<not> has_flag RELOCATION_GROUPED_BY_ADDEND_FLAG s)
                (read_field p (\<lambda>v s. s\<lparr>it_r_addend := it_r_addend s + v\<rparr>)))
             (change (\<lambda>s. s\<lparr>relocation_index := relocation_index s + 1,
                             relocation_group_index := relocation_group_index s + 1\<rparr>)))))"

text \<open>The next relocation; any error ends the iteration like the end of the table. The addend counts
  only for a table with addends.\<close>

definition xh_elf_packed_reloc_iterator_next ::
  "process \<Rightarrow> xh_elf_packed_reloc_iterator_t \<Rightarrow> reloc option res \<times> xh_elf_packed_reloc_iterator_t" where
  "xh_elf_packed_reloc_iterator_next p self =
     (if relocation_count self \<le> relocation_index self then (Inr None, self)
      else let (r, self') = next_fields p self in
        (case r of
           Inl e \<Rightarrow> Inl e
         | Inr code \<Rightarrow>
             Inr (if code \<noteq> 0 then None
                  else Some \<lparr>r_offset = it_r_offset self', r_info = it_r_info self',
                         r_addend = (if it_is_use_rela self' then it_r_addend self' else 0)\<rparr>), self'))"

section \<open>The encoding of a number\<close>

function sleb_encode :: "int \<Rightarrow> u8 list" where
  "sleb_encode i =
     (let b = take_bit 7 i; r = drop_bit 7 i in
      if r = 0 \<and> b < 64 \<or> r = - 1 \<and> 64 \<le> b then [word_of_int b]
      else (word_of_int b OR 128) # sleb_encode r)"
  by auto
termination
proof (relation "measure (\<lambda>i. nat \<bar>i\<bar>)")
  fix i b r :: int
  assume b: "b = take_bit 7 i" and r: "r = drop_bit 7 i"
    and ne: "\<not> (r = 0 \<and> b < 64 \<or> r = - 1 \<and> 64 \<le> b)"
  have i: "i = 128 * r + b" "0 \<le> b" "b < 128"
    by (simp_all add: b r take_bit_eq_mod drop_bit_eq_div)
  then have "\<bar>r\<bar> < \<bar>i\<bar>" using ne by linarith
  then show "(r, i) \<in> measure (\<lambda>i. nat \<bar>i\<bar>)" by auto
qed simp

declare sleb_encode.simps [simp del]

fun holds :: "process \<Rightarrow> u64 \<Rightarrow> u8 list \<Rightarrow> bool" where
  "holds p a [] \<longleftrightarrow> True"
| "holds p a (b # bs) \<longleftrightarrow> load8 p a = Inr b \<and> holds p (a + 1) bs"

lemma holds_append [simp]:
  "holds p a (xs @ ys) \<longleftrightarrow> holds p a xs \<and> holds p (a + word_of_nat (length xs)) ys"
  by (induction xs arbitrary: a) (simp_all add: algebra_simps)

lemma bit_flags: "bit (127 :: u8) n \<longleftrightarrow> n < 7" "bit (128 :: u8) n \<longleftrightarrow> n = 7" "bit (64 :: u8) n \<longleftrightarrow> n = 6"
proof -
  have "(127 :: u8) = mask 7" "(128 :: u8) = 2 ^ 7" "(64 :: u8) = 2 ^ 6"
    by (simp_all add: mask_eq_exp_minus_1)
  then show "bit (127 :: u8) n \<longleftrightarrow> n < 7" "bit (128 :: u8) n \<longleftrightarrow> n = 7" "bit (64 :: u8) n \<longleftrightarrow> n = 6"
    by (auto simp only: bit_mask_iff bit_exp_iff possible_bit_word) auto
qed

lemma byte_bits:
  fixes b :: int
  assumes "0 \<le> b" "b < 128"
  shows "word_of_int b AND 127 = (word_of_int b :: u8)" "word_of_int b AND 128 = (0 :: u8)"
    "(word_of_int b OR 128) AND 127 = (word_of_int b :: u8)" "(word_of_int b OR 128) AND 128 \<noteq> (0 :: u8)"
    "word_of_int b AND 64 \<noteq> (0 :: u8) \<longleftrightarrow> 64 \<le> b" "ucast (word_of_int b :: u8) = (word_of_int b :: u64)"
proof -
  have tb: "take_bit 7 b = b" using assms by (simp add: take_bit_int_eq_self)
  have hi: "n < 7" if "bit b n" for n using that tb bit_take_bit_iff [of 7 b n] by simp
  have wb: "bit (word_of_int b :: u8) n \<longleftrightarrow> bit b n" for n using hi [of n] by (auto simp: bit_word_of_int_iff)
  note bits = bit_and_iff bit_or_iff bit_flags wb
  show "word_of_int b AND 127 = (word_of_int b :: u8)"
    by (rule bit_word_eqI) (auto simp only: bits dest: hi)
  show z: "word_of_int b AND 128 = (0 :: u8)"
    by (rule bit_word_eqI) (auto simp only: bits bit_0_eq bot_apply bot_bool_def dest: hi)
  show "(word_of_int b OR 128) AND 127 = (word_of_int b :: u8)"
    by (rule bit_word_eqI) (auto simp only: bits dest: hi)
  have "bit ((word_of_int b OR 128) AND 128 :: u8) 7" by (simp only: bits) simp
  then show "(word_of_int b OR 128) AND 128 \<noteq> (0 :: u8)" by force
  show "ucast (word_of_int b :: u8) = (word_of_int b :: u64)"
    by (rule bit_word_eqI) (auto simp: bit_ucast_iff wb bit_word_of_int_iff dest: hi)
  have "64 \<le> b \<longleftrightarrow> drop_bit 6 b \<noteq> 0" using assms by (auto simp: drop_bit_eq_div)
  also have "\<dots> \<longleftrightarrow> bit b 6"
  proof -
    have "bit b 6 \<longleftrightarrow> odd (b div 64)" by (simp add: bit_iff_odd)
    moreover have "b div 64 = 0 \<or> b div 64 = 1" using assms by auto
    ultimately show ?thesis by (auto simp: drop_bit_eq_div)
  qed
  also have "\<dots> \<longleftrightarrow> word_of_int b AND 64 \<noteq> (0 :: u8)"
  proof
    assume "bit b 6"
    then have "bit (word_of_int b AND 64 :: u8) 6" by (simp only: bits)
    then show "word_of_int b AND 64 \<noteq> (0 :: u8)" by force
  next
    assume *: "word_of_int b AND 64 \<noteq> (0 :: u8)"
    show "bit b 6"
    proof (rule ccontr)
      assume "\<not> bit b 6"
      then have "word_of_int b AND 64 = (0 :: u8)"
        by (intro bit_word_eqI) (auto simp only: bits bit_0_eq bot_apply bot_bool_def)
      with * show False by contradiction
    qed
  qed
  finally show "word_of_int b AND 64 \<noteq> (0 :: u8) \<longleftrightarrow> 64 \<le> b" by blast
qed

lemma sleb_piece:
  fixes i :: int and v :: u64
  assumes "s < 64"
  shows "v OR push_bit s (word_of_int (take_bit 7 i)) OR push_bit (s + 7) (word_of_int (drop_bit 7 i)) =
    v OR push_bit s (word_of_int i)"
proof (rule bit_word_eqI)
  fix n assume "n < LENGTH(64)"
  then show "bit (v OR push_bit s (word_of_int (take_bit 7 i)) OR push_bit (s + 7) (word_of_int (drop_bit 7 i))) n =
    bit (v OR push_bit s (word_of_int i)) n"
    by (cases "n < s"; cases "n < s + 7") (auto simp: bit_simps)
qed

lemma sleb_encode_ne [simp]: "sleb_encode i \<noteq> []"
  by (subst sleb_encode.simps) (simp add: Let_def)

lemma sleb_last:
  fixes v :: u64
  assumes "s < 64" and "drop_bit 7 i = 0 \<and> take_bit 7 i < 64 \<or> drop_bit 7 i = - 1 \<and> 64 \<le> take_bit 7 i"
  shows "(if s + 7 < 64 \<and> 64 \<le> take_bit 7 i then v OR push_bit s (word_of_int (take_bit 7 i)) OR - push_bit (s + 7) 1
      else v OR push_bit s (word_of_int (take_bit 7 i))) = v OR push_bit s (word_of_int i)"
proof -
  have 0: "push_bit (s + 7) (word_of_int 0 :: u64) = 0" by simp
  have 1: "- push_bit (s + 7) 1 = push_bit (s + 7) (word_of_int (- 1) :: u64)"
    by (simp add: push_bit_eq_mult)
  have 2: "push_bit (s + 7) w = 0" if "64 \<le> s + 7" for w :: u64
    using that by (intro bit_word_eqI) (auto simp: bit_push_bit_iff)
  consider "drop_bit 7 i = 0" "take_bit 7 i < 64" | "drop_bit 7 i = - 1" "64 \<le> take_bit 7 i"
    using assms(2) by blast
  then show ?thesis
  proof cases
    case 1
    then show ?thesis using sleb_piece [OF assms(1), of v i] by (simp only: 0) simp
  next
    case 2
    show ?thesis
    proof (cases "s + 7 < 64")
      case True
      then show ?thesis using sleb_piece [OF assms(1), of v i] 2 by (simp only: 1 if_True simp_thms)
    next
      case False
      then show ?thesis using sleb_piece [OF assms(1), of v i] \<open>\<And>w. 64 \<le> s + 7 \<Longrightarrow> push_bit (s + 7) w = 0\<close> by simp
    qed
  qed
qed

lemma sleb_loop_encode:
  assumes "holds p cur (sleb_encode i)" and "s \<le> 63" and "- (2 ^ (63 - s)) \<le> i" and "i < 2 ^ (63 - s)"
    and "unat cur + length (sleb_encode i) \<le> unat endp"
  shows "sleb_loop p endp cur v s =
    (Inr (Inr (v OR push_bit s (word_of_int i))), cur + word_of_nat (length (sleb_encode i)))"
  using assms
proof (induction i arbitrary: cur v s rule: sleb_encode.induct)
  case (1 i)
  define b where "b = take_bit 7 i"
  define r where "r = drop_bit 7 i"
  have i: "i = 128 * r + b" "0 \<le> b" "b < 128"
    by (simp_all add: b_def r_def take_bit_eq_mod drop_bit_eq_div)
  note bits = byte_bits [OF i(2,3)]
  have lt: "\<not> endp \<le> cur"
    using 1(6) length_greater_0_conv [of "sleb_encode i"] by (simp add: word_le_nat_alt del: length_greater_0_conv)
  have s64: "\<not> 64 \<le> s" "s < 64" using 1(3) by simp_all
  show ?case
  proof (cases "r = 0 \<and> b < 64 \<or> r = - 1 \<and> 64 \<le> b")
    case True
    then have e: "sleb_encode i = [word_of_int b]"
      by (subst sleb_encode.simps) (simp add: Let_def b_def r_def)
    then have l: "load8 p cur = Inr (word_of_int b)" using 1(2) by simp
    have "sleb_loop p endp cur v s = (Inr (Inr (if s + 7 < 64 \<and> 64 \<le> b
        then v OR push_bit s (word_of_int b) OR - push_bit (s + 7) 1 else v OR push_bit s (word_of_int b))), cur + 1)"
      using lt l s64(1) bits by (subst sleb_loop.simps) (simp add: Let_def or.assoc)
    also have "\<dots> = (Inr (Inr (v OR push_bit s (word_of_int i))), cur + 1)"
      using sleb_last [OF s64(2), of i v] True unfolding b_def r_def by simp
    finally show ?thesis by (simp add: e)
  next
    case False
    then have e: "sleb_encode i = (word_of_int b OR 128) # sleb_encode r"
      using sleb_encode.simps [of i] by (simp only: Let_def b_def r_def if_False simp_thms)
    then have l: "load8 p cur = Inr (word_of_int b OR 128)" and h: "holds p (cur + 1) (sleb_encode r)"
      using 1(2) by simp_all
    have big: "64 \<le> i \<or> i < - 64" using False i by linarith
    have s7: "s + 7 \<le> 63"
    proof (rule ccontr)
      assume "\<not> s + 7 \<le> 63"
      then have "63 - s \<le> 6" by simp
      then have "(2 :: int) ^ (63 - s) \<le> 2 ^ 6" by (intro power_increasing) auto
      with big 1(4,5) show False by simp
    qed
    then have p: "(2 :: int) ^ (63 - s) = 128 * 2 ^ (63 - (s + 7))"
      using power_add [of "2::int" 7 "63 - (s + 7)"] by (simp add: Suc_diff_le flip: power_Suc) 
    have rng: "- (2 ^ (63 - (s + 7))) \<le> r" "r < 2 ^ (63 - (s + 7))" using 1(4,5) i unfolding p by linarith+
    have u: "unat (cur + 1) = Suc (unat cur)"
      using lt unsigned_less [of endp, where 'a = nat]
      by (intro unat_Suc_less [of _ "unat endp"]) (auto simp: word_le_nat_alt)
    have "sleb_loop p endp cur v s = sleb_loop p endp (cur + 1) (v OR push_bit s (word_of_int b)) (s + 7)"
      using lt l s64(1) bits by (subst sleb_loop.simps) (simp add: Let_def)
    also have "\<dots> = (Inr (Inr ((v OR push_bit s (word_of_int b)) OR push_bit (s + 7) (word_of_int r))),
        cur + 1 + word_of_nat (length (sleb_encode r)))"
      unfolding b_def r_def
      by (rule 1(1) [OF refl refl]) (use False h s7 rng u 1(6) e in \<open>simp_all add: b_def r_def\<close>)
    also have "(v OR push_bit s (word_of_int b)) OR push_bit (s + 7) (word_of_int r) = v OR push_bit s (word_of_int i)"
      unfolding b_def r_def or.assoc by (rule sleb_piece [OF s64(2)])
    finally show ?thesis by (simp add: e algebra_simps)
  qed
qed


section \<open>Iterating over a packed table\<close>

lemma sleb_loop_code: "fst (sleb_loop p endp cur v s) = Inr (Inl code) \<Longrightarrow> code = XH_ERRNO_FORMAT"
proof (induction p endp cur v s rule: sleb_loop.induct)
  case (1 p endp cur v s)
  show ?case using 1(2) by (subst (asm) sleb_loop.simps) (auto simp: Let_def split: if_splits sum.splits intro: 1(1))
qed

definition frame :: "xh_elf_packed_reloc_iterator_t \<Rightarrow> u64 \<times> u64 \<times> bool" where
  "frame it = (relocation_index it, relocation_count it, it_is_use_rela it)"

text \<open>Steps that leave the position in the table alone when they succeed.\<close>

definition keeps_frame :: "it_step \<Rightarrow> bool" where
  "keeps_frame m \<longleftrightarrow> (\<forall>self self'. m self = (Inr 0, self') \<longrightarrow> frame self' = frame self)"

named_theorems frame_intros

lemma keeps_andThen [frame_intros]: "keeps_frame m1 \<Longrightarrow> keeps_frame m2 \<Longrightarrow> keeps_frame (andThen m1 m2)"
  by (auto simp: keeps_frame_def andThen_def split: prod.splits if_splits)

lemma keeps_onlyIf [frame_intros]: "keeps_frame m \<Longrightarrow> keeps_frame (onlyIf c m)"
  by (auto simp: keeps_frame_def onlyIf_def)

lemma keeps_change [frame_intros]: "(\<And>s. frame (f s) = frame s) \<Longrightarrow> keeps_frame (change f)"
  by (auto simp: keeps_frame_def change_def)

lemma keeps_read [frame_intros]:
  assumes "\<And>v s. frame (upd v s) = frame s"
  shows "keeps_frame (read_field p upd)"
proof -
  have "code \<noteq> 0" if "sleb_loop p endp cur 0 0 = (Inr (Inl code), cur')" for endp cur code cur'
    using that sleb_loop_code [of p endp cur 0 0 code] by (simp add: xh_errno_defs)
  then show ?thesis
    by (auto simp: keeps_frame_def read_field_def xh_elf_sleb128_decoder_next_def Let_def assms
        split: prod.splits sum.splits) (simp_all add: frame_def)
qed

lemma keeps_addend [frame_intros]: "keeps_frame (group_addend p)"
  using keeps_read [of "\<lambda>v s. s\<lparr>it_r_addend := it_r_addend s + v\<rparr>" p]
  by (auto simp: keeps_frame_def group_addend_def frame_def xh_errno_defs)

lemma keeps_group [frame_intros]: "keeps_frame (xh_elf_packed_reloc_iterator_read_group_fields p)"
  unfolding xh_elf_packed_reloc_iterator_read_group_fields_def
  by (intro frame_intros) (simp_all add: frame_def)

lemma keeps_offset [frame_intros]: "keeps_frame (next_offset p)"
  using keeps_read [of "\<lambda>v s. s\<lparr>it_r_offset := it_r_offset s + v\<rparr>" p]
  by (auto simp: keeps_frame_def next_offset_def frame_def)

lemma andThen_last: "andThen m (change f) self = (Inr 0, self') \<longleftrightarrow> (\<exists>s. m self = (Inr 0, s) \<and> self' = f s)"
  by (auto simp: andThen_def change_def split: prod.splits)

lemma andThen_assoc: "andThen m1 (andThen m2 m3) = andThen (andThen m1 m2) m3"
  by (rule ext) (auto simp: andThen_def split: prod.splits)

lemma next_fields_frame:
  assumes "next_fields p self = (Inr 0, self')"
  shows "frame self' = (relocation_index self + 1, relocation_count self, it_is_use_rela self)"
proof -
  define m where "m = andThen (andThen (andThen (onlyIf (\<lambda>s. relocation_group_index s = group_size s)
      (xh_elf_packed_reloc_iterator_read_group_fields p)) (next_offset p))
    (onlyIf (\<lambda>s. \<not> has_flag RELOCATION_GROUPED_BY_INFO_FLAG s) (read_field p (\<lambda>v s. s\<lparr>it_r_info := v\<rparr>))))
    (onlyIf (\<lambda>s. it_is_use_rela s \<and> has_flag RELOCATION_GROUP_HAS_ADDEND_FLAG s \<and>
                         \<not> has_flag RELOCATION_GROUPED_BY_ADDEND_FLAG s)
                (read_field p (\<lambda>v s. s\<lparr>it_r_addend := it_r_addend s + v\<rparr>)))"
  have "keeps_frame m" unfolding m_def by (intro frame_intros) (simp_all add: frame_def)
  with assms show ?thesis unfolding next_fields_def andThen_assoc m_def [symmetric]
    by (auto simp: andThen_last keeps_frame_def frame_def)
qed

lemma packed_next_progress:
  assumes "xh_elf_packed_reloc_iterator_next p self = (Inr (Some r), self')"
  shows "unat (relocation_count self') - unat (relocation_index self') <
    unat (relocation_count self) - unat (relocation_index self)"
proof -
  from assms have lt: "relocation_index self < relocation_count self"
    and "next_fields p self = (Inr 0, self')"
    by (auto simp: xh_elf_packed_reloc_iterator_next_def not_le split: if_splits prod.splits sum.splits)
  from next_fields_frame [OF this(2)]
  have "relocation_count self' = relocation_count self" "relocation_index self' = relocation_index self + 1"
    by (auto simp: frame_def)
  moreover from lt have "unat (relocation_index self + 1) = Suc (unat (relocation_index self))"
    using unsigned_less [of "relocation_count self", where 'a = nat]
    by (intro unat_Suc_less [of _ "unat (relocation_count self)"]) (auto simp: word_less_nat_alt)
  ultimately show ?thesis using lt by (simp add: word_less_nat_alt)
qed

text \<open>The loop over a packed table: \<open>f\<close> is done for each relocation, until it fails.\<close>

function packed_loop :: "(reloc \<Rightarrow> process \<Rightarrow> int res \<times> process) \<Rightarrow> xh_elf_packed_reloc_iterator_t \<Rightarrow> process \<Rightarrow>
    int res \<times> process" where
  "packed_loop f it p =
     (case xh_elf_packed_reloc_iterator_next p it of
        (Inl e, it') \<Rightarrow> (Inl e, p)
      | (Inr None, it') \<Rightarrow> (Inr 0, p)
      | (Inr (Some rel), it') \<Rightarrow>
          let (r, p') = f rel p in if r = Inr 0 then packed_loop f it' p' else (r, p'))"
  by auto
termination
  by (relation "measure (\<lambda>(f, it, p). unat (relocation_count it) - unat (relocation_index it))")
    (auto dest!: sym [where s = "(Inr (Some _), _)"] packed_next_progress)

declare packed_loop.simps [simp del]


section \<open>An encoder of packed tables\<close>

text \<open>\<open>words_at p d ws\<close>: the numbers ahead of the decoder are \<open>ws\<close>.\<close>

definition enc :: "u64 list \<Rightarrow> u8 list" where
  "enc ws = concat (map (\<lambda>w. sleb_encode (sint w)) ws)"

definition words_at :: "process \<Rightarrow> xh_elf_sleb128_decoder_t \<Rightarrow> u64 list \<Rightarrow> bool" where
  "words_at p d ws \<longleftrightarrow> holds p (d_cur d) (enc ws) \<and> unat (d_cur d) + length (enc ws) \<le> unat (d_end d)"

definition adv :: "xh_elf_sleb128_decoder_t \<Rightarrow> u64 \<Rightarrow> xh_elf_sleb128_decoder_t" where
  "adv d w = d\<lparr>d_cur := d_cur d + word_of_nat (length (sleb_encode (sint w)))\<rparr>"

lemma decoder_reads:
  assumes "words_at p d (w # ws)"
  shows "xh_elf_sleb128_decoder_next p d = (Inr (Inr w), adv d w) \<and> words_at p (adv d w) ws"
proof -
  define c where "c = sleb_encode (sint w)"
  have h: "holds p (d_cur d) c" "holds p (d_cur d + word_of_nat (length c)) (enc ws)"
    and b: "unat (d_cur d) + length c + length (enc ws) \<le> unat (d_end d)"
    using assms by (auto simp: words_at_def enc_def c_def)
  have r: "- (2 ^ 63) \<le> sint w" "sint w < 2 ^ 63"
    using sint_ge [of w] sint_lt [of w] by simp_all
  have "sleb_loop p (d_end d) (d_cur d) 0 0 =
      (Inr (Inr (0 OR push_bit 0 (word_of_int (sint w)))), d_cur d + word_of_nat (length c))"
    unfolding c_def by (rule sleb_loop_encode) (use h b r in \<open>simp_all add: c_def\<close>)
  then have n: "xh_elf_sleb128_decoder_next p d = (Inr (Inr w), adv d w)"
    by (simp add: xh_elf_sleb128_decoder_next_def adv_def c_def)
  have "unat (d_cur d) + length c < 2 ^ 64" using b unsigned_less [of "d_end d", where 'a = nat] by simp
  then have "unat (d_cur d + word_of_nat (length c)) = unat (d_cur d) + length c"
    by (simp add: unat_word_ariths unat_of_nat)
  with h b n show ?thesis by (simp add: words_at_def adv_def c_def)
qed

lemma words_at_advs: "words_at p d (us @ ws) \<Longrightarrow> words_at p (foldl adv d us) ws"
  by (induction us arbitrary: d) (auto dest: decoder_reads)

lemma read_field_reads:
  "words_at p (decoder self) (w # ws) \<Longrightarrow> read_field p upd self = (Inr 0, upd w (self\<lparr>decoder := adv (decoder self) w\<rparr>))"
  by (drule decoder_reads) (simp add: read_field_def)

lemma onlyIf_reads:
  assumes "words_at p (decoder self) ((if c then [w] else []) @ ws)" and "C self = c"
  shows "onlyIf C (read_field p upd) self =
    (Inr 0, if c then upd w (self\<lparr>decoder := foldl adv (decoder self) [w]\<rparr>) else self)"
  using assms by (auto simp: onlyIf_def read_field_reads)

lemma andThen_ok: "m1 self = (Inr 0, s) \<Longrightarrow> andThen m1 m2 self = m2 s"
  by (simp add: andThen_def)

text \<open>
  A group of relocations with its flags. The encoder knows the offset and the addend of the
  relocation before; a group whose offsets, informations or addends agree the way its flags say
  leaves them out of the entries.
\<close>

definition on :: "u64 \<Rightarrow> u64 \<Rightarrow> bool" where
  "on f fl \<longleftrightarrow> fl AND f \<noteq> 0"

definition enc_item :: "u64 \<Rightarrow> u64 \<Rightarrow> u64 \<Rightarrow> reloc \<Rightarrow> u64 list" where
  "enc_item fl off add r =
     (if \<not> on RELOCATION_GROUPED_BY_OFFSET_DELTA_FLAG fl then [r_offset r - off] else []) @
     (if \<not> on RELOCATION_GROUPED_BY_INFO_FLAG fl then [r_info r] else []) @
     (if on RELOCATION_GROUP_HAS_ADDEND_FLAG fl \<and> \<not> on RELOCATION_GROUPED_BY_ADDEND_FLAG fl then [r_addend r - add] else [])"

fun enc_items :: "u64 \<Rightarrow> u64 \<Rightarrow> u64 \<Rightarrow> reloc list \<Rightarrow> u64 list" where
  "enc_items fl off add [] = []"
| "enc_items fl off add (r # rs) = enc_item fl off add r @ enc_items fl (r_offset r) (r_addend r) rs"

definition enc_header :: "u64 \<Rightarrow> u64 \<Rightarrow> u64 \<Rightarrow> reloc list \<Rightarrow> u64 list" where
  "enc_header fl off add rs =
     [word_of_nat (length rs), fl] @
     (if on RELOCATION_GROUPED_BY_OFFSET_DELTA_FLAG fl then [r_offset (hd rs) - off] else []) @
     (if on RELOCATION_GROUPED_BY_INFO_FLAG fl then [r_info (hd rs)] else []) @
     (if on RELOCATION_GROUP_HAS_ADDEND_FLAG fl \<and> on RELOCATION_GROUPED_BY_ADDEND_FLAG fl then [r_addend (hd rs) - add] else [])"

fun equal_steps :: "u64 \<Rightarrow> u64 \<Rightarrow> reloc list \<Rightarrow> bool" where
  "equal_steps delta off [] \<longleftrightarrow> True"
| "equal_steps delta off (r # rs) \<longleftrightarrow> r_offset r = off + delta \<and> equal_steps delta (r_offset r) rs"

definition group_ok :: "u64 \<Rightarrow> u64 \<Rightarrow> reloc list \<Rightarrow> bool" where
  "group_ok off fl rs \<longleftrightarrow> rs \<noteq> [] \<and>
     (on RELOCATION_GROUPED_BY_OFFSET_DELTA_FLAG fl \<longrightarrow> equal_steps (r_offset (hd rs) - off) off rs) \<and>
     (on RELOCATION_GROUPED_BY_INFO_FLAG fl \<longrightarrow> (\<forall>r\<in>set rs. r_info r = r_info (hd rs))) \<and>
     (on RELOCATION_GROUP_HAS_ADDEND_FLAG fl \<and> on RELOCATION_GROUPED_BY_ADDEND_FLAG fl \<longrightarrow>
        (\<forall>r\<in>set rs. r_addend r = r_addend (hd rs))) \<and>
     (\<not> on RELOCATION_GROUP_HAS_ADDEND_FLAG fl \<longrightarrow> (\<forall>r\<in>set rs. r_addend r = 0))"

fun enc_groups :: "u64 \<Rightarrow> u64 \<Rightarrow> (u64 \<times> reloc list) list \<Rightarrow> u64 list" where
  "enc_groups off add [] = []"
| "enc_groups off add ((fl, rs) # gs) =
     enc_header fl off add rs @ enc_items fl off add rs @ enc_groups (r_offset (last rs)) (r_addend (last rs)) gs"

fun groups_ok :: "u64 \<Rightarrow> (u64 \<times> reloc list) list \<Rightarrow> bool" where
  "groups_ok off [] \<longleftrightarrow> True"
| "groups_ok off ((fl, rs) # gs) \<longleftrightarrow> group_ok off fl rs \<and> groups_ok (r_offset (last rs)) gs"

definition enc_table :: "u64 \<Rightarrow> (u64 \<times> reloc list) list \<Rightarrow> u64 list" where
  "enc_table off gs = word_of_nat (length (concat (map snd gs))) # off # enc_groups off 0 gs"


text \<open>One entry of a group is read back.\<close>

definition item_fields :: "process \<Rightarrow> it_step" where
  "item_fields p =
    andThen (next_offset p)
    (andThen (onlyIf (\<lambda>s. \<not> has_flag RELOCATION_GROUPED_BY_INFO_FLAG s) (read_field p (\<lambda>v s. s\<lparr>it_r_info := v\<rparr>)))
    (andThen (onlyIf (\<lambda>s. it_is_use_rela s \<and> has_flag RELOCATION_GROUP_HAS_ADDEND_FLAG s \<and>
                         \<not> has_flag RELOCATION_GROUPED_BY_ADDEND_FLAG s)
                (read_field p (\<lambda>v s. s\<lparr>it_r_addend := it_r_addend s + v\<rparr>)))
             (change (\<lambda>s. s\<lparr>relocation_index := relocation_index s + 1,
                             relocation_group_index := relocation_group_index s + 1\<rparr>))))"

lemma next_fields_eq: "next_fields p = andThen (onlyIf (\<lambda>s. relocation_group_index s = group_size s)
    (xh_elf_packed_reloc_iterator_read_group_fields p)) (item_fields p)"
  by (simp only: next_fields_def item_fields_def)

definition item_match :: "xh_elf_packed_reloc_iterator_t \<Rightarrow> reloc \<Rightarrow> bool" where
  "item_match self r \<longleftrightarrow>
     (has_flag RELOCATION_GROUPED_BY_OFFSET_DELTA_FLAG self \<longrightarrow> r_offset r = it_r_offset self + group_r_offset_delta self) \<and>
     (has_flag RELOCATION_GROUPED_BY_INFO_FLAG self \<longrightarrow> r_info r = it_r_info self) \<and>
     (\<not> has_flag RELOCATION_GROUP_HAS_ADDEND_FLAG self \<or> has_flag RELOCATION_GROUPED_BY_ADDEND_FLAG self \<longrightarrow>
        r_addend r = it_r_addend self)"

lemma item_fields_reads:
  assumes w: "words_at p (decoder self) (enc_item (group_flags self) (it_r_offset self) (it_r_addend self) r @ ws)"
    and "it_is_use_rela self" and m: "item_match self r"
  shows "item_fields p self = (Inr 0, self\<lparr>
      decoder := foldl adv (decoder self) (enc_item (group_flags self) (it_r_offset self) (it_r_addend self) r),
      it_r_offset := r_offset r, it_r_info := r_info r, it_r_addend := r_addend r,
      relocation_index := relocation_index self + 1, relocation_group_index := relocation_group_index self + 1\<rparr>)"
proof -
  define fl where "fl = group_flags self"
  define w1 where "w1 = (if \<not> on RELOCATION_GROUPED_BY_OFFSET_DELTA_FLAG fl then [r_offset r - it_r_offset self] else [])"
  define w2 where "w2 = (if \<not> on RELOCATION_GROUPED_BY_INFO_FLAG fl then [r_info r] else [])"
  define w3 where "w3 = (if on RELOCATION_GROUP_HAS_ADDEND_FLAG fl \<and> \<not> on RELOCATION_GROUPED_BY_ADDEND_FLAG fl
    then [r_addend r - it_r_addend self] else [])"
  have e: "enc_item (group_flags self) (it_r_offset self) (it_r_addend self) r = w1 @ w2 @ w3"
    by (simp only: enc_item_def w1_def w2_def w3_def fl_def)
  have f: "has_flag f s = on f fl" if "group_flags s = fl" for f s using that by (simp add: has_flag_def on_def)
  define s1 where "s1 = self\<lparr>decoder := foldl adv (decoder self) w1, it_r_offset := r_offset r\<rparr>"
  define s2 where "s2 = s1\<lparr>decoder := foldl adv (decoder s1) w2, it_r_info := r_info r\<rparr>"
  define s3 where "s3 = s2\<lparr>decoder := foldl adv (decoder s2) w3, it_r_addend := r_addend r\<rparr>"
  have d: "words_at p (decoder self) (w1 @ w2 @ w3 @ ws)" "words_at p (decoder s1) (w2 @ w3 @ ws)"
    "words_at p (decoder s2) (w3 @ ws)"
    using w e words_at_advs [of p "decoder self" w1] words_at_advs [of p "decoder s1" w2]
    by (simp_all add: s1_def s2_def)
  have g: "group_flags self = fl" "group_flags s1 = fl" "group_flags s2 = fl"
    by (simp_all add: s1_def s2_def fl_def)
  note m' = m [unfolded item_match_def f [OF g(1)]]
  have "next_offset p self = (Inr 0, s1)"
  proof (cases "on RELOCATION_GROUPED_BY_OFFSET_DELTA_FLAG fl")
    case True
    then show ?thesis using m' by (simp add: next_offset_def f [OF g(1)] s1_def w1_def)
  next
    case False
    then have "words_at p (decoder self) ((r_offset r - it_r_offset self) # w2 @ w3 @ ws)"
      using d(1) by (simp add: w1_def)
    then show ?thesis using False by (simp add: next_offset_def f [OF g(1)] s1_def w1_def read_field_reads)
  qed
  moreover have "onlyIf (\<lambda>s. \<not> has_flag RELOCATION_GROUPED_BY_INFO_FLAG s) (read_field p (\<lambda>v s. s\<lparr>it_r_info := v\<rparr>)) s1 = (Inr 0, s2)"
  proof (cases "on RELOCATION_GROUPED_BY_INFO_FLAG fl")
    case True
    then have "r_info r = it_r_info s1" using m' by (simp add: s1_def)
    then show ?thesis using True by (simp add: onlyIf_def f [OF g(2)] s2_def w2_def)
  next
    case False
    then have "words_at p (decoder s1) (r_info r # w3 @ ws)" using d(2) by (simp add: w2_def)
    then show ?thesis using False by (simp add: onlyIf_def f [OF g(2)] s2_def w2_def read_field_reads)
  qed
  moreover have "onlyIf (\<lambda>s. it_is_use_rela s \<and> has_flag RELOCATION_GROUP_HAS_ADDEND_FLAG s \<and>
        \<not> has_flag RELOCATION_GROUPED_BY_ADDEND_FLAG s) (read_field p (\<lambda>v s. s\<lparr>it_r_addend := it_r_addend s + v\<rparr>)) s2 = (Inr 0, s3)"
  proof (cases "on RELOCATION_GROUP_HAS_ADDEND_FLAG fl \<and> \<not> on RELOCATION_GROUPED_BY_ADDEND_FLAG fl")
    case True
    then have "words_at p (decoder s2) ((r_addend r - it_r_addend self) # ws)" using d(3) by (simp add: w3_def)
    moreover have "it_is_use_rela s2" "it_r_addend s2 = it_r_addend self" using assms(2) by (simp_all add: s1_def s2_def)
    ultimately show ?thesis using True by (simp add: onlyIf_def f [OF g(3)] s3_def w3_def read_field_reads)
  next
    case False
    then have "r_addend r = it_r_addend self" using m' by blast
    then show ?thesis using False
      by (simp only: onlyIf_def f [OF g(3)] s3_def w3_def if_False simp_thms foldl_Nil) (simp add: s1_def s2_def)
  qed
  ultimately show ?thesis unfolding item_fields_def e
    by (simp add: andThen_ok change_def) (simp add: s1_def s2_def s3_def)
qed


text \<open>The fields at the head of a group are read back.\<close>

lemma onlyIf_field:
  assumes "words_at p (decoder self) ((if c then [w] else []) @ ws)" and "C self = c"
  shows "onlyIf C (read_field p upd) self =
    (Inr 0, if c then upd w (self\<lparr>decoder := adv (decoder self) w\<rparr>) else self)"
  using assms by (cases c) (simp_all add: onlyIf_def read_field_reads)

definition header_state :: "u64 \<Rightarrow> u64 \<Rightarrow> u64 \<Rightarrow> reloc list \<Rightarrow> xh_elf_packed_reloc_iterator_t \<Rightarrow> xh_elf_packed_reloc_iterator_t" where
  "header_state fl off add rs self = self\<lparr>
      decoder := foldl adv (decoder self) (enc_header fl off add rs),
      group_size := word_of_nat (length rs), group_flags := fl,
      group_r_offset_delta := (if on RELOCATION_GROUPED_BY_OFFSET_DELTA_FLAG fl then r_offset (hd rs) - off
         else group_r_offset_delta self),
      relocation_group_index := 0,
      it_r_info := (if on RELOCATION_GROUPED_BY_INFO_FLAG fl then r_info (hd rs) else it_r_info self),
      it_r_addend := (if on RELOCATION_GROUP_HAS_ADDEND_FLAG fl
         then if on RELOCATION_GROUPED_BY_ADDEND_FLAG fl then r_addend (hd rs) else add else 0)\<rparr>"

lemma header_reads:
  assumes w: "words_at p (decoder self) (enc_header fl off add rs @ ws)"
    and "it_r_addend self = add" and "it_is_use_rela self"
  shows "xh_elf_packed_reloc_iterator_read_group_fields p self = (Inr 0, header_state fl off add rs self)"
proof -
  define w3 where "w3 = (if on RELOCATION_GROUPED_BY_OFFSET_DELTA_FLAG fl then [r_offset (hd rs) - off] else [])"
  define w4 where "w4 = (if on RELOCATION_GROUPED_BY_INFO_FLAG fl then [r_info (hd rs)] else [])"
  define w5 where "w5 = (if on RELOCATION_GROUP_HAS_ADDEND_FLAG fl \<and> on RELOCATION_GROUPED_BY_ADDEND_FLAG fl
    then [r_addend (hd rs) - add] else [])"
  define sz :: u64 where "sz = word_of_nat (length rs)"
  have e: "enc_header fl off add rs = sz # fl # w3 @ w4 @ w5"
    by (simp add: enc_header_def w3_def w4_def w5_def sz_def)
  define s1 where "s1 = self\<lparr>decoder := adv (decoder self) sz, group_size := sz\<rparr>"
  define s2 where "s2 = s1\<lparr>decoder := adv (decoder s1) fl, group_flags := fl\<rparr>"
  define s3 where "s3 = (if on RELOCATION_GROUPED_BY_OFFSET_DELTA_FLAG fl
    then s2\<lparr>decoder := adv (decoder s2) (r_offset (hd rs) - off), group_r_offset_delta := r_offset (hd rs) - off\<rparr> else s2)"
  define s4 where "s4 = (if on RELOCATION_GROUPED_BY_INFO_FLAG fl
    then s3\<lparr>decoder := adv (decoder s3) (r_info (hd rs)), it_r_info := r_info (hd rs)\<rparr> else s3)"
  have w1: "words_at p (decoder self) (sz # fl # w3 @ w4 @ w5 @ ws)" using w by (simp add: e)
  have w2: "words_at p (decoder s1) (fl # w3 @ w4 @ w5 @ ws)" using decoder_reads [OF w1] by (simp add: s1_def)
  have w3: "words_at p (decoder s2) (w3 @ w4 @ w5 @ ws)" using decoder_reads [OF w2] by (simp add: s2_def)
  have d3: "decoder s3 = foldl adv (decoder s2) w3" by (simp add: s3_def w3_def)
  have w4: "words_at p (decoder s3) (w4 @ w5 @ ws)" unfolding d3 by (rule words_at_advs [OF w3])
  have d4: "decoder s4 = foldl adv (decoder s3) w4" by (simp add: s4_def w4_def)
  have w5: "words_at p (decoder s4) (w5 @ ws)" unfolding d4 by (rule words_at_advs [OF w4])
  have f: "has_flag f s2 = on f fl" "has_flag f s3 = on f fl" "has_flag f s4 = on f fl" for f
    by (simp_all add: has_flag_def on_def s2_def s3_def s4_def)
  have a: "it_r_addend s4 = add" "it_is_use_rela s4" using assms(2,3) by (simp_all add: s1_def s2_def s3_def s4_def)
  have 1: "read_field p (\<lambda>v s. s\<lparr>group_size := v\<rparr>) self = (Inr 0, s1)"
    using read_field_reads [OF w1] by (simp add: s1_def)
  have 2: "read_field p (\<lambda>v s. s\<lparr>group_flags := v\<rparr>) s1 = (Inr 0, s2)"
    using read_field_reads [OF w2] by (simp add: s2_def)
  have 3: "onlyIf (has_flag RELOCATION_GROUPED_BY_OFFSET_DELTA_FLAG) (read_field p (\<lambda>v s. s\<lparr>group_r_offset_delta := v\<rparr>)) s2 = (Inr 0, s3)"
    using onlyIf_field [OF w3 [unfolded w3_def], of "has_flag RELOCATION_GROUPED_BY_OFFSET_DELTA_FLAG"] f(1) by (simp add: s3_def)
  have 4: "onlyIf (has_flag RELOCATION_GROUPED_BY_INFO_FLAG) (read_field p (\<lambda>v s. s\<lparr>it_r_info := v\<rparr>)) s3 = (Inr 0, s4)"
    using onlyIf_field [OF w4 [unfolded w4_def], of "has_flag RELOCATION_GROUPED_BY_INFO_FLAG"] f(2) by (simp add: s4_def)
  have 5: "group_addend p s4 = (Inr 0, s4\<lparr>decoder := foldl adv (decoder s4) w5, it_r_addend :=
      (if on RELOCATION_GROUP_HAS_ADDEND_FLAG fl
         then if on RELOCATION_GROUPED_BY_ADDEND_FLAG fl then r_addend (hd rs) else add else 0)\<rparr>)"
  proof (cases "on RELOCATION_GROUP_HAS_ADDEND_FLAG fl \<and> on RELOCATION_GROUPED_BY_ADDEND_FLAG fl")
    case True
    then have "words_at p (decoder s4) ((r_addend (hd rs) - add) # ws)" using w5 by (simp add: w5_def)
    then show ?thesis using True a by (simp add: group_addend_def f read_field_reads w5_def)
  next
    case False
    then show ?thesis using a by (auto simp: group_addend_def f w5_def)
  qed
  have "xh_elf_packed_reloc_iterator_read_group_fields p self =
      (Inr 0, s4\<lparr>decoder := foldl adv (decoder s4) w5, relocation_group_index := 0, it_r_addend :=
      (if on RELOCATION_GROUP_HAS_ADDEND_FLAG fl
         then if on RELOCATION_GROUPED_BY_ADDEND_FLAG fl then r_addend (hd rs) else add else 0)\<rparr>)"
    unfolding xh_elf_packed_reloc_iterator_read_group_fields_def
    by (simp only: andThen_def 1 2 3 4 5 change_def Let_def prod.case if_True) simp
  moreover have "foldl adv (decoder self) (enc_header fl off add rs) = foldl adv (decoder s4) w5"
    by (simp add: e d4 d3 s2_def s1_def)
  ultimately show ?thesis
    by (simp add: header_state_def sz_def [symmetric]) (simp add: s1_def s2_def s3_def s4_def)
qed


section \<open>The iterator lists what was encoded\<close>

fun run_relocs :: "(reloc \<Rightarrow> process \<Rightarrow> int res \<times> process) \<Rightarrow> reloc list \<Rightarrow> process \<Rightarrow> int res \<times> process" where
  "run_relocs f [] p = (Inr 0, p)"
| "run_relocs f (rel # rels) p = (let (r, p') = f rel p in if r = Inr 0 then run_relocs f rels p' else (r, p'))"

definition end_off :: "xh_elf_packed_reloc_iterator_t \<Rightarrow> reloc list \<Rightarrow> u64" where
  "end_off self rs = (if rs = [] then it_r_offset self else r_offset (last rs))"

definition end_add :: "xh_elf_packed_reloc_iterator_t \<Rightarrow> reloc list \<Rightarrow> u64" where
  "end_add self rs = (if rs = [] then it_r_addend self else r_addend (last rs))"

definition all_match :: "xh_elf_packed_reloc_iterator_t \<Rightarrow> reloc list \<Rightarrow> bool" where
  "all_match self rs \<longleftrightarrow>
     (has_flag RELOCATION_GROUPED_BY_OFFSET_DELTA_FLAG self \<longrightarrow> equal_steps (group_r_offset_delta self) (it_r_offset self) rs) \<and>
     (has_flag RELOCATION_GROUPED_BY_INFO_FLAG self \<longrightarrow> (\<forall>r\<in>set rs. r_info r = it_r_info self)) \<and>
     (\<not> has_flag RELOCATION_GROUP_HAS_ADDEND_FLAG self \<or> has_flag RELOCATION_GROUPED_BY_ADDEND_FLAG self \<longrightarrow>
        (\<forall>r\<in>set rs. r_addend r = it_r_addend self))"

text \<open>\<open>ahead I self rs gs\<close>: of its current group the iterator has \<open>rs\<close> before it, then the groups \<open>gs\<close>;
  the bytes of the table are the same in all address spaces with the property \<open>I\<close>.\<close>

definition ahead :: "(process \<Rightarrow> bool) \<Rightarrow> xh_elf_packed_reloc_iterator_t \<Rightarrow> reloc list \<Rightarrow> (u64 \<times> reloc list) list \<Rightarrow> bool" where
  "ahead I self rs gs \<longleftrightarrow> it_is_use_rela self \<and>
     unat (group_size self) = unat (relocation_group_index self) + length rs \<and>
     unat (relocation_count self) = unat (relocation_index self) + length rs + length (concat (map snd gs)) \<and>
     (\<forall>p. I p \<longrightarrow> words_at p (decoder self) (enc_items (group_flags self) (it_r_offset self) (it_r_addend self) rs @
        enc_groups (end_off self rs) (end_add self rs) gs)) \<and>
     all_match self rs \<and> groups_ok (end_off self rs) gs"

lemma enc_items_add:
  "\<not> (on RELOCATION_GROUP_HAS_ADDEND_FLAG fl \<and> \<not> on RELOCATION_GROUPED_BY_ADDEND_FLAG fl) \<Longrightarrow>
    enc_items fl off add rs = enc_items fl off add' rs"
  by (cases rs) (auto simp: enc_item_def)

lemma ahead_item:
  assumes "ahead I self (r # rs) gs" and "I p"
  shows "\<exists>self'. item_fields p self = (Inr 0, self') \<and> ahead I self' rs gs \<and>
    it_r_offset self' = r_offset r \<and> it_r_info self' = r_info r \<and> it_r_addend self' = r_addend r"
proof -
  define ws where "ws = enc_items (group_flags self) (r_offset r) (r_addend r) rs @
      enc_groups (end_off self (r # rs)) (end_add self (r # rs)) gs"
  define us where "us = enc_item (group_flags self) (it_r_offset self) (it_r_addend self) r"
  note A = assms(1) [unfolded ahead_def]
  have w: "\<forall>q. I q \<longrightarrow> words_at q (decoder self) (us @ ws)" using A by (simp add: us_def ws_def)
  have m: "all_match self (r # rs)" and rela: "it_is_use_rela self" using A by blast+
  then have "item_match self r" by (auto simp: all_match_def item_match_def)
  moreover define self' where "self' = self\<lparr>decoder := foldl adv (decoder self) us,
      it_r_offset := r_offset r, it_r_info := r_info r, it_r_addend := r_addend r,
      relocation_index := relocation_index self + 1, relocation_group_index := relocation_group_index self + 1\<rparr>"
  ultimately have "item_fields p self = (Inr 0, self')"
    using item_fields_reads [of p self r ws] w assms(2) rela by (simp add: us_def)
  moreover have "all_match self' rs"
    using m by (auto simp: all_match_def self'_def has_flag_def)
  moreover have "\<forall>q. I q \<longrightarrow> words_at q (decoder self') ws"
    using w words_at_advs by (simp add: self'_def)
  moreover have eo: "end_off self' rs = end_off self (r # rs)" "end_add self' rs = end_add self (r # rs)"
    by (simp_all add: end_off_def end_add_def self'_def)
  moreover have "unat (relocation_group_index self + 1) = Suc (unat (relocation_group_index self))"
    "unat (relocation_index self + 1) = Suc (unat (relocation_index self))"
    using A unsigned_less [of "group_size self", where 'a = nat] unsigned_less [of "relocation_count self", where 'a = nat]
    by (intro unat_Suc_less [of _ "unat (group_size self)"] unat_Suc_less [of _ "unat (relocation_count self)"]; simp)+
  ultimately have "ahead I self' rs gs"
    using A rela by (simp add: ahead_def ws_def) (simp add: self'_def)
  with \<open>item_fields p self = (Inr 0, self')\<close> show ?thesis by (intro exI [of _ self']) (simp add: self'_def)
qed

lemma ahead_group:
  assumes "ahead I self [] ((fl, rs) # gs)" and "I p"
  shows "\<exists>self'. xh_elf_packed_reloc_iterator_read_group_fields p self = (Inr 0, self') \<and> ahead I self' rs gs \<and> rs \<noteq> []"
proof -
  note A = assms(1) [unfolded ahead_def end_off_def end_add_def, simplified]
  define off where "off = it_r_offset self"
  define add where "add = it_r_addend self"
  define ws where "ws = enc_items fl off add rs @ enc_groups (r_offset (last rs)) (r_addend (last rs)) gs"
  have w: "\<forall>q. I q \<longrightarrow> words_at q (decoder self) (enc_header fl off add rs @ ws)"
    using A by (simp add: ws_def off_def add_def)
  have ok: "group_ok off fl rs" and rela: "it_is_use_rela self" using A by (auto simp: off_def)
  define h where "h = header_state fl off add rs self"
  have 1: "xh_elf_packed_reloc_iterator_read_group_fields p self = (Inr 0, h)"
    unfolding h_def by (rule header_reads [where ws = ws]) (use w assms(2) rela in \<open>simp_all add: add_def\<close>)
  have ne: "rs \<noteq> []" using ok by (simp add: group_ok_def)
  have fl: "has_flag f h = on f fl" for f by (simp add: h_def header_state_def has_flag_def on_def)
  have hs: "group_flags h = fl" "it_r_offset h = off" "group_size h = word_of_nat (length rs)"
    "relocation_group_index h = 0" "relocation_count h = relocation_count self" "relocation_index h = relocation_index self"
    "it_is_use_rela h" "decoder h = foldl adv (decoder self) (enc_header fl off add rs)"
    using rela by (simp_all add: h_def header_state_def off_def)
  have ei: "enc_items fl off (it_r_addend h) rs = enc_items fl off add rs"
  proof (cases "on RELOCATION_GROUP_HAS_ADDEND_FLAG fl \<and> \<not> on RELOCATION_GROUPED_BY_ADDEND_FLAG fl")
    case True
    then show ?thesis by (simp add: h_def header_state_def)
  next
    case False
    then show ?thesis by (rule enc_items_add)
  qed
  have wh: "\<forall>q. I q \<longrightarrow> words_at q (decoder h) ws"
    unfolding hs(8) by (intro allI impI words_at_advs) (use w in simp)
  have d1: "group_r_offset_delta h = r_offset (hd rs) - off" if "on RELOCATION_GROUPED_BY_OFFSET_DELTA_FLAG fl"
    using that by (simp add: h_def header_state_def)
  have d2: "it_r_info h = r_info (hd rs)" if "on RELOCATION_GROUPED_BY_INFO_FLAG fl"
    using that by (simp add: h_def header_state_def)
  have d3: "it_r_addend h = (if on RELOCATION_GROUP_HAS_ADDEND_FLAG fl then r_addend (hd rs) else 0)"
    if "\<not> on RELOCATION_GROUP_HAS_ADDEND_FLAG fl \<or> on RELOCATION_GROUPED_BY_ADDEND_FLAG fl"
    using that by (auto simp: h_def header_state_def)
  have am: "all_match h rs"
    unfolding all_match_def fl hs
  proof (intro conjI impI ballI)
    fix r assume r: "r \<in> set rs"
    show "r_info r = it_r_info h" if "on RELOCATION_GROUPED_BY_INFO_FLAG fl"
      using ok r that unfolding d2 [OF that] group_ok_def by blast
    show "r_addend r = it_r_addend h" if "\<not> on RELOCATION_GROUP_HAS_ADDEND_FLAG fl \<or> on RELOCATION_GROUPED_BY_ADDEND_FLAG fl"
      using ok r that unfolding d3 [OF that] group_ok_def by (simp only: split: if_splits) blast
  qed (use ok d1 in \<open>simp add: group_ok_def\<close>)
  have len: "unat (word_of_nat (length rs) :: u64) = length rs"
    using A unsigned_less [of "relocation_count self", where 'a = nat] by (simp add: unat_of_nat)
  have "ahead I h rs gs"
    unfolding ahead_def end_off_def end_add_def hs(1-6) ei
    using A ne hs(7) wh am len by (simp add: ws_def)
  with 1 ne show ?thesis by blast
qed

lemma packed_loop_step:
  assumes "next_fields p it = (Inr 0, it')" and "relocation_index it < relocation_count it"
    and "it_is_use_rela it'"
  shows "packed_loop f it p = (let (r, p') = f \<lparr>r_offset = it_r_offset it', r_info = it_r_info it', r_addend = it_r_addend it'\<rparr> p
     in if r = Inr 0 then packed_loop f it' p' else (r, p'))"
  using assms(1,3) assms(2) [folded not_le]
  by (subst packed_loop.simps) (simp add: xh_elf_packed_reloc_iterator_next_def)

lemma ahead_next:
  assumes "ahead I self rs gs" and "I p" and "rs @ concat (map snd gs) = r # rest"
  shows "\<exists>self' rs' gs'. next_fields p self = (Inr 0, self') \<and> ahead I self' rs' gs' \<and> rs' @ concat (map snd gs') = rest \<and>
    it_r_offset self' = r_offset r \<and> it_r_info self' = r_info r \<and> it_r_addend self' = r_addend r"
proof (cases rs)
  case (Cons r0 rs')
  then have r: "r0 = r" "rs' @ concat (map snd gs) = rest" using assms(3) by auto
  have "relocation_group_index self \<noteq> group_size self" using assms(1) Cons by (auto simp: ahead_def)
  then have "next_fields p self = item_fields p self" by (simp add: next_fields_eq andThen_def onlyIf_def)
  then show ?thesis using ahead_item [OF assms(1) [unfolded Cons] assms(2)] r by metis
next
  case Nil
  have "\<exists>fl rs' gs'. gs = (fl, rs') # gs'" using assms(3) Nil by (cases gs) auto
  then obtain fl rs0 gs' where gs: "gs = (fl, rs0) # gs'" by blast
  from ahead_group [OF assms(1) [unfolded Nil gs] assms(2)] obtain h where
    h: "xh_elf_packed_reloc_iterator_read_group_fields p self = (Inr 0, h)" "ahead I h rs0 gs'" "rs0 \<noteq> []" by blast
  then obtain rs' where rs0: "rs0 = r # rs'" "rs' @ concat (map snd gs') = rest"
    using assms(3) Nil gs by (cases rs0) auto
  have "relocation_group_index self = group_size self"
    using assms(1) Nil by (simp add: ahead_def) (metis unsigned_word_eqI)
  then have "next_fields p self = item_fields p h" using h by (simp add: next_fields_eq andThen_def onlyIf_def)
  then show ?thesis using ahead_item [OF h(2) [unfolded rs0(1)] assms(2)] rs0 by metis
qed

lemma packed_loop_runs:
  assumes "ahead I self rs gs" and "I p"
    and "\<And>r q q'. r \<in> set (rs @ concat (map snd gs)) \<Longrightarrow> I q \<Longrightarrow> f r q = (Inr 0, q') \<Longrightarrow> I q'"
  shows "packed_loop f self p = run_relocs f (rs @ concat (map snd gs)) p"
proof -
  define all where "all = rs @ concat (map snd gs)"
  have "packed_loop f self p = run_relocs f all p"
    using assms all_def
  proof (induction all arbitrary: self rs gs p)
    case Nil
    then have "relocation_count self \<le> relocation_index self" by (simp add: ahead_def word_le_nat_alt)
    then show ?case by (subst packed_loop.simps) (simp add: xh_elf_packed_reloc_iterator_next_def)
  next
    case (Cons r rest)
    from ahead_next [OF Cons.prems(1,2) Cons.prems(4) [symmetric]] obtain self' rs' gs' where
      n: "next_fields p self = (Inr 0, self')" and a: "ahead I self' rs' gs'" and rest: "rs' @ concat (map snd gs') = rest"
      and it: "it_r_offset self' = r_offset r" "it_r_info self' = r_info r" "it_r_addend self' = r_addend r" by blast
    have "length rs + length (concat (map snd gs)) = length (r # rest)"
      using arg_cong [OF Cons.prems(4), of length] by simp
    then have lt: "relocation_index self < relocation_count self"
      using Cons.prems(1) by (simp add: ahead_def word_less_nat_alt)
    have rela: "it_is_use_rela self'" using a by (simp add: ahead_def)
    have rel: "\<lparr>r_offset = it_r_offset self', r_info = it_r_info self', r_addend = it_r_addend self'\<rparr> = r"
      using it by simp
    obtain x p' where fx: "f r p = (x, p')" by fastforce
    show ?case
    proof (cases "x = Inr 0")
      case True
      have keep: "\<And>u q q'. u \<in> set (rs' @ concat (map snd gs')) \<Longrightarrow> I q \<Longrightarrow> f u q = (Inr 0, q') \<Longrightarrow> I q'"
        using Cons.prems(3) unfolding rest Cons.prems(4) [symmetric] by (metis list.set_intros(2))
      have "I p'" using Cons.prems(2-4) fx True by (metis list.set_intros(1))
      from Cons.IH [OF a this keep rest [symmetric]] show ?thesis
        using packed_loop_step [OF n lt rela, of f] rel fx True by simp
    next
      case False
      then show ?thesis using packed_loop_step [OF n lt rela, of f] rel fx by simp
    qed
  qed
  then show ?thesis by (simp add: all_def)
qed

section \<open>Properties of the iterators\<close>

text \<open>Signed LEB128 numbers are read back: every 64-bit value is decoded from its encoding, and the
  decoder stands right after it.\<close>

theorem sleb128_roundtrip:
  assumes "holds p (d_cur d) (sleb_encode (sint w))"
    and "unat (d_cur d) + length (sleb_encode (sint w)) \<le> unat (d_end d)"
  shows "xh_elf_sleb128_decoder_next p d =
    (Inr (Inr w), d\<lparr>d_cur := d_cur d + word_of_nat (length (sleb_encode (sint w)))\<rparr>)"
  using decoder_reads [of p d w "[]"] assms by (simp add: words_at_def enc_def adv_def)

text \<open>An address space with the bytes \<open>bs\<close> at \<open>a\<close>, readable.\<close>

definition bytes_image :: "u64 \<Rightarrow> u8 list \<Rightarrow> process" where
  "bytes_image a bs = \<lparr>cells = \<lambda>x. if unat (x - a) < length bs then Some (bs ! unat (x - a)) else None,
     prots = \<lambda>_. PROT_READ\<rparr>"

lemma holds_drop:
  assumes "k \<le> length bs" and "length bs < 2 ^ 64"
  shows "holds (bytes_image a bs) (a + word_of_nat k) (drop k bs)"
  using assms
proof (induction "length bs - k" arbitrary: k)
  case (Suc n)
  then have k: "k < length bs" by simp
  have "unat (word_of_nat k :: u64) = k" using k Suc.prems by (simp add: unat_of_nat)
  then have "load8 (bytes_image a bs) (a + word_of_nat k) = Inr (bs ! k)"
    using k by (simp add: load8_def readable_def bytes_image_def PROT_READ_def)
  moreover have "holds (bytes_image a bs) (a + word_of_nat (Suc k)) (drop (Suc k) bs)"
    by (rule Suc.hyps) (use Suc k in auto)
  ultimately show ?case using k by (simp add: Cons_nth_drop_Suc [symmetric] algebra_simps)
qed simp

lemma holds_image: "length bs < 2 ^ 64 \<Longrightarrow> holds (bytes_image a bs) a bs"
  using holds_drop [of 0 bs a] by simp

theorem sleb128_roundtrip_witness:
  "\<exists>d. xh_elf_sleb128_decoder_next (bytes_image 0x1000 [0xF8, 0xAC, 0xD1, 0x91, 0x01]) \<lparr>d_cur = 0x1000, d_end = 0x1010\<rparr> =
     (Inr (Inr 0x12345678), d) \<and> d_cur d = 0x1005"
proof -
  have e: "sleb_encode (sint (0x12345678 :: u64)) = [0xF8, 0xAC, 0xD1, 0x91, 0x01]" by code_simp
  show ?thesis
    using sleb128_roundtrip [of "bytes_image 0x1000 [0xF8, 0xAC, 0xD1, 0x91, 0x01]" "\<lparr>d_cur = 0x1000, d_end = 0x1010\<rparr>" "0x12345678"]
      holds_image [of "[0xF8, 0xAC, 0xD1, 0x91, 0x01]" "0x1000"] unfolding e by simp
qed

lemma packed_table_runs:
  assumes "\<And>q. I q \<Longrightarrow> holds q rel (enc (enc_table off gs))" and "I p"
    and "unat rel + length (enc (enc_table off gs)) < 2 ^ 64"
    and "unat rel_sz = length (enc (enc_table off gs))"
    and "groups_ok off gs" and "length (concat (map snd gs)) < 2 ^ 64"
    and "\<And>r q q'. r \<in> set (concat (map snd gs)) \<Longrightarrow> I q \<Longrightarrow> f r q = (Inr 0, q') \<Longrightarrow> I q'"
  shows "\<exists>it. xh_elf_packed_reloc_iterator_init p rel rel_sz True = (Inr 0, it) \<and>
    packed_loop f it p = run_relocs f (concat (map snd gs)) p"
proof -
  define n :: u64 where "n = word_of_nat (length (concat (map snd gs)))"
  define d where "d = xh_elf_sleb128_decoder_init rel rel_sz"
  define it where "it = \<lparr>decoder = adv (adv d n) off, relocation_count = n, group_size = 0,
        group_flags = 0, group_r_offset_delta = 0, relocation_index = 0, relocation_group_index = 0,
        it_r_offset = off, it_r_info = 0, it_r_addend = 0, it_is_use_rela = True\<rparr>"
  have t: "enc_table off gs = n # off # enc_groups off 0 gs" by (simp add: enc_table_def n_def)
  have "unat (rel + ucast rel_sz) = unat rel + length (enc (enc_table off gs))"
    using assms(3,4) by (simp add: unat_word_ariths unsigned_ucast_eq take_bit_nat_eq_self)
  then have w: "words_at q d (n # off # enc_groups off 0 gs)" if "I q" for q
    using assms(1) [OF that] by (simp add: words_at_def d_def xh_elf_sleb128_decoder_init_def t)
  then have w2: "words_at q (adv d n) (off # enc_groups off 0 gs)" "words_at q (adv (adv d n) off) (enc_groups off 0 gs)"
    if "I q" for q using decoder_reads that by blast+
  have "xh_elf_packed_reloc_iterator_init p rel rel_sz True = (Inr 0, it)"
    using decoder_reads [OF w [OF assms(2)]] decoder_reads [OF w2(1) [OF assms(2)]]
    by (simp add: xh_elf_packed_reloc_iterator_init_def andThen_def read_field_def d_def [symmetric] it_def)
  moreover have "ahead I it [] gs"
    using w2(2) assms(5,6) by (simp add: ahead_def it_def end_off_def end_add_def all_match_def n_def unat_of_nat)
  from packed_loop_runs [OF this assms(2), of f] assms(7)
  have "packed_loop f it p = run_relocs f (concat (map snd gs)) p" by simp
  ultimately show ?thesis by blast
qed

text \<open>C24. A packed table lists the relocations it was made from: for every way to group them and every
  choice of flags that fits the groups, the loop over the encoded table does \<open>f\<close> for each relocation
  in order, until one fails, provided \<open>f\<close> leaves the bytes of the table alone.\<close>

theorem packed_table_roundtrip:
  assumes "\<And>q. I q \<Longrightarrow> holds q rel (enc (enc_table off gs))" and "I p"
    and "unat rel + length (enc (enc_table off gs)) < 2 ^ 64"
    and "unat rel_sz = length (enc (enc_table off gs))"
    and "groups_ok off gs" and "length (concat (map snd gs)) < 2 ^ 64"
    and "\<And>r q q'. r \<in> set (concat (map snd gs)) \<Longrightarrow> I q \<Longrightarrow> f r q = (Inr 0, q') \<Longrightarrow> I q'"
  shows "\<exists>it. xh_elf_packed_reloc_iterator_init p rel rel_sz True = (Inr 0, it) \<and>
    packed_loop f it p = run_relocs f (concat (map snd gs)) p"
  by (rule packed_table_runs [where I = I, OF assms])

definition sample_groups :: "(u64 \<times> reloc list) list" where
  "sample_groups =
     [(11, [\<lparr>r_offset = 0x1008, r_info = 3, r_addend = 5\<rparr>, \<lparr>r_offset = 0x1010, r_info = 3, r_addend = 7\<rparr>]),
      (0, [\<lparr>r_offset = 0x4000, r_info = 9, r_addend = 0\<rparr>])]"

definition sample_packed :: "u8 list" where
  "sample_packed = enc (enc_table 0x1000 sample_groups)"

theorem packed_table_roundtrip_witness:
  "\<exists>it. xh_elf_packed_reloc_iterator_init (bytes_image 0x2000 sample_packed) 0x2000 (word_of_nat (length sample_packed)) True = (Inr 0, it) \<and>
     packed_loop (\<lambda>r p. (Inr (if r_offset r = 0x4000 then 5 else 0), p)) it (bytes_image 0x2000 sample_packed) =
       (Inr 5, bytes_image 0x2000 sample_packed)"
proof -
  have len: "length sample_packed = 15" by code_simp
  have ok: "groups_ok 0x1000 sample_groups"
    by (simp add: sample_groups_def group_ok_def on_def group_flag_defs)
  show ?thesis
    using packed_table_roundtrip [where I = "\<lambda>q. q = bytes_image 0x2000 sample_packed" and rel = "0x2000"
        and off = "0x1000" and gs = sample_groups and rel_sz = "word_of_nat (length sample_packed)"
        and p = "bytes_image 0x2000 sample_packed" and f = "\<lambda>r p. (Inr (if r_offset r = 0x4000 then 5 else 0), p)"]
      holds_image [of sample_packed "0x2000"] len ok
    by (simp add: sample_packed_def [symmetric]) (simp add: sample_groups_def)
qed


text \<open>
  The loop over a plain table. \<open>f\<close> gets the address of an entry and returns an error number and
  whether to leave the loop. At the very top of the address space the position wraps around, so the
  loop is not bounded by itself.
\<close>

partial_function (option) plain_loop :: "(u64 \<Rightarrow> process \<Rightarrow> (int \<times> bool) res \<times> process) \<Rightarrow>
    xh_elf_plain_reloc_iterator_t \<Rightarrow> process \<Rightarrow> (int res \<times> process) option" where
  "plain_loop f it p =
     (case xh_elf_plain_reloc_iterator_next it of
        (None, it') \<Rightarrow> Some (Inr 0, p)
      | (Some rel, it') \<Rightarrow>
          (case f rel p of
             (Inl e, p') \<Rightarrow> Some (Inl e, p')
           | (Inr (code, stop), p') \<Rightarrow>
               if code \<noteq> 0 then Some (Inr code, p') else if stop then Some (Inr 0, p') else plain_loop f it' p'))"

fun run_entries :: "(u64 \<Rightarrow> process \<Rightarrow> (int \<times> bool) res \<times> process) \<Rightarrow> u64 list \<Rightarrow> process \<Rightarrow> int res \<times> process" where
  "run_entries f [] p = (Inr 0, p)"
| "run_entries f (rel # rels) p =
     (case f rel p of
        (Inl e, p') \<Rightarrow> (Inl e, p')
      | (Inr (code, stop), p') \<Rightarrow>
          if code \<noteq> 0 then (Inr code, p') else if stop then (Inr 0, p') else run_entries f rels p')"

fun entries :: "u64 \<Rightarrow> u64 \<Rightarrow> nat \<Rightarrow> u64 list" where
  "entries cur sz 0 = []"
| "entries cur sz (Suc n) = (cur + sz) # entries (cur + sz) sz n"

lemma entries_eq: "entries cur sz n = map (\<lambda>i. cur + word_of_nat (Suc i) * sz) [0..<n]"
proof (induction n arbitrary: cur)
  case (Suc n)
  have "[0..<Suc n] = 0 # map Suc [0..<n]" by (simp add: upt_conv_Cons map_Suc_upt del: upt_Suc)
  then show ?case using Suc by (simp add: algebra_simps comp_def)
qed simp

lemma plain_loop_runs:
  assumes "unat cur + n * unat (rel_size rela) = unat endp"
  shows "plain_loop f \<lparr>p_cur = cur, p_end = endp, p_is_use_rela = rela\<rparr> p = Some (run_entries f (entries cur (rel_size rela) n) p)"
  using assms
proof (induction n arbitrary: cur p)
  case 0
  then have "endp \<le> cur" by (simp add: word_le_nat_alt)
  then show ?case by (subst plain_loop.simps) (simp add: xh_elf_plain_reloc_iterator_next_def)
next
  case (Suc n)
  have pos: "0 < unat (rel_size rela)" by (simp add: rel_size_def)
  have lt: "\<not> endp \<le> cur" using Suc.prems pos by (simp add: word_le_nat_alt)
  have "unat cur + unat (rel_size rela) < 2 ^ 64"
    using Suc.prems unsigned_less [of endp, where 'a = nat] by simp
  then have "unat (cur + rel_size rela) = unat cur + unat (rel_size rela)" by (simp add: unat_word_ariths)
  then have "unat (cur + rel_size rela) + n * unat (rel_size rela) = unat endp" using Suc.prems by simp
  from Suc.IH [OF this] show ?case using lt
    by (subst plain_loop.simps) (simp add: xh_elf_plain_reloc_iterator_next_def Let_def split: prod.splits sum.splits)
qed

text \<open>The loop over a plain table of \<open>n\<close> entries ends, and does \<open>f\<close> for \<open>n\<close> entries; but they are
  the entries 1 to \<open>n\<close>: the iterator advances before it returns, so the first relocation of a table
  is never looked at, and the address after the last one is taken for a relocation.\<close>

theorem plain_iterator_shifted:
  assumes "unat rel_sz = n * unat (rel_size rela)" and "unat rel + unat rel_sz < 2 ^ 64"
  shows "plain_loop f (xh_elf_plain_reloc_iterator_init rel rel_sz rela) p =
    Some (run_entries f (map (\<lambda>i. rel + word_of_nat (Suc i) * rel_size rela) [0..<n]) p)"
proof -
  have "unat rel_sz < 2 ^ 64" using assms(2) by simp
  then have "unat (ucast rel_sz :: u64) = unat rel_sz" by (simp add: unsigned_ucast_eq take_bit_nat_eq_self)
  then have "unat rel + n * unat (rel_size rela) = unat (rel + ucast rel_sz)"
    using assms by (simp add: unat_word_ariths)
  then show ?thesis
    using plain_loop_runs [of rel n rela "rel + ucast rel_sz" f p]
    by (simp add: xh_elf_plain_reloc_iterator_init_def entries_eq)
qed

theorem plain_iterator_shifted_witness:
  "plain_loop (\<lambda>a p. (Inr (if a = 0x1000 then (5, False) else if a = 0x1030 then (6, False) else (0, False)), p))
      (xh_elf_plain_reloc_iterator_init 0x1000 48 True) (bytes_image 0 []) =
    Some (Inr 6, bytes_image 0 [])"
  using plain_iterator_shifted [of 48 2 True "0x1000" "\<lambda>a p. (Inr (if a = 0x1000 then (5, False) else
      if a = 0x1030 then (6, False) else (0, False)), p)" "bytes_image 0 []"]
  by (simp add: rel_size_def upt_rec)

end
