(* ===== verification/Symbol_Search.thy ===== *)
theory Symbol_Search
  imports Raphael_Prelude
begin

text \<open>
  The contract of a search along a chain of a hash table, which the symbol lookups of \<open>xHook/xh_elf.c\<close> and
  \<open>xDL/xdl.c\<close> share: look at an entry, stop with it when it matches, go to the next one or stop when
  there is none. A search may fault; on a circular chain it does not return.
\<close>

locale chain_search =
  fixes at_end :: "'i \<Rightarrow> bool"
    and test :: "'i \<Rightarrow> bool res"
    and nxt :: "'i \<Rightarrow> 'i option res"
    and search :: "'i \<Rightarrow> 'i option res option"
  assumes search_step: "search i =
      (if at_end i then Some (Inr None)
       else case test i of
         Inl e \<Rightarrow> Some (Inl e)
       | Inr b \<Rightarrow>
           if b then Some (Inr (Some i))
           else (case nxt i of
              Inl e \<Rightarrow> Some (Inl e) | Inr None \<Rightarrow> Some (Inr None) | Inr (Some j) \<Rightarrow> search j))"
    and search_hit: "search i = Some (Inr (Some j)) \<Longrightarrow> test j = Inr True"
begin

text \<open>\<open>chain i is\<close>: the entries from \<open>i\<close> on are \<open>is\<close>, and each can be looked at.\<close>

definition entry :: "'i \<Rightarrow> bool" where
  "entry i \<longleftrightarrow> \<not> at_end i \<and> (\<exists>b. test i = Inr b)"

fun chain :: "'i \<Rightarrow> 'i list \<Rightarrow> bool" where
  "chain i [] \<longleftrightarrow> at_end i"
| "chain i (j # js) \<longleftrightarrow> i = j \<and> entry i \<and>
     (nxt i = Inr None \<and> js = [] \<or> (\<exists>k. nxt i = Inr (Some k) \<and> chain k js))"

lemma search_chain: "chain i is \<Longrightarrow> search i = Some (Inr (List.find (\<lambda>j. test j = Inr True) is))"
proof (induction "is" arbitrary: i)
  case Nil
  then show ?case by (subst search_step) simp
next
  case (Cons j js)
  then obtain b where b: "i = j" "\<not> at_end i" "test i = Inr b" by (auto simp: entry_def)
  show ?case
  proof (cases "nxt i = Inr None \<and> js = []")
    case True
    then show ?thesis using b by (subst search_step) (cases b; simp)
  next
    case False
    then obtain k where k: "nxt i = Inr (Some k)" "chain k js" using Cons.prems by auto
    show ?thesis using b k(1) Cons.IH [OF k(2)] by (subst search_step) (cases b; simp)
  qed
qed

text \<open>A search of a chain that ends finds an entry if and only if one matches, and then it is a matching one.\<close>

lemma search_complete:
  assumes "chain i is" and "j \<in> set is" and "test j = Inr True"
  shows "\<exists>k\<in>set is. search i = Some (Inr (Some k)) \<and> test k = Inr True"
proof -
  have "List.find (\<lambda>j. test j = Inr True) is \<noteq> None" using assms(2,3) by (auto simp: find_None_iff)
  then obtain k where "List.find (\<lambda>j. test j = Inr True) is = Some k" by blast
  with search_chain [OF assms(1)] find_Some_iff [of "\<lambda>j. test j = Inr True" "is" k] show ?thesis by auto
qed

lemma search_none: "chain i is \<Longrightarrow> search i = Some (Inr None) \<longleftrightarrow> (\<forall>j\<in>set is. test j \<noteq> Inr True)"
  by (auto simp: search_chain find_None_iff)

end

end
