(* ===== verification/Elf_Hook.thy ===== *)
theory Elf_Hook
  imports Elf_Reloc Symbol_Search
begin

text \<open>
  Hooking the import table of a loaded library (\<open>xHook/xh_elf.c\<close>, 64-bit ARM build): checking the ELF
  header, reading the dynamic section, looking symbols up in the ELF and GNU hash tables, and
  replacing the function pointers of the relocations of a symbol. Everything is read from the
  address space of the process; a load or store that the page does not allow is a fault, and what
  was written before it stays written.
\<close>

section \<open>The ELF header\<close>

text \<open>\<open>memcmp(ehdr->e_ident, ELFMAG, SELFMAG)\<close> reads the four bytes until one differs.\<close>

fun bytes_equal :: "process \<Rightarrow> u64 \<Rightarrow> u8 list \<Rightarrow> bool res" where
  "bytes_equal p a [] = Inr True"
| "bytes_equal p a (b # bs) = res_bind (load8 p a) (\<lambda>c. if c = b then bytes_equal p (a + 1) bs else Inr False)"

definition xh_elf_check_elfheader :: "process \<Rightarrow> u64 \<Rightarrow> int res" where
  "xh_elf_check_elfheader p base_addr =
     res_bind (bytes_equal p base_addr [0x7F, 0x45, 0x4C, 0x46]) (\<lambda>magic.
     if \<not> magic then Inr XH_ERRNO_FORMAT else
     res_bind (load8 p (base_addr + 4)) (\<lambda>ei_class.
     if ei_class \<noteq> 2 then Inr XH_ERRNO_FORMAT else
     res_bind (load8 p (base_addr + 5)) (\<lambda>ei_data.
     if ei_data \<noteq> 1 then Inr XH_ERRNO_FORMAT else
     res_bind (load8 p (base_addr + 6)) (\<lambda>ei_version.
     if ei_version \<noteq> 1 then Inr XH_ERRNO_FORMAT else
     res_bind (load16 p (base_addr + 16)) (\<lambda>e_type.
     if e_type \<noteq> 2 \<and> e_type \<noteq> 3 then Inr XH_ERRNO_FORMAT else
     res_bind (load16 p (base_addr + 18)) (\<lambda>e_machine.
     if e_machine \<noteq> 183 then Inr XH_ERRNO_FORMAT else
     res_bind (load32 p (base_addr + 20)) (\<lambda>e_version.
     if e_version \<noteq> 1 then Inr XH_ERRNO_FORMAT else Inr 0)))))))"

section \<open>Hash functions\<close>

fun elf_hash_loop :: "u32 \<Rightarrow> u8 list \<Rightarrow> u32" where
  "elf_hash_loop h [] = h"
| "elf_hash_loop h (c # cs) =
     (let h1 = push_bit 4 h + ucast c; g = h1 AND 0xF0000000; h2 = h1 XOR g
      in elf_hash_loop (h2 XOR drop_bit 24 g) cs)"

definition xh_elf_hash :: "u8 list \<Rightarrow> u32" where
  "xh_elf_hash name = elf_hash_loop 0 name"

fun gnu_hash_loop :: "u32 \<Rightarrow> u8 list \<Rightarrow> u32" where
  "gnu_hash_loop h [] = h"
| "gnu_hash_loop h (c # cs) = gnu_hash_loop (h + (push_bit 5 h + ucast c)) cs"

definition xh_elf_gnu_hash :: "u8 list \<Rightarrow> u32" where
  "xh_elf_gnu_hash name = gnu_hash_loop 5381 name"

section \<open>The state of a hooked library\<close>

record xh_elf_t =
  pathname :: "string option"
  base_addr :: u64
  bias_addr :: u64
  ehdr :: u64
  phdr :: u64
  dyn :: u64
  dyn_sz :: u32
  strtab :: u64
  symtab :: u64
  relplt :: u64
  relplt_sz :: u32
  reldyn :: u64
  reldyn_sz :: u32
  relandroid :: u64
  relandroid_sz :: u32
  bucket :: u64
  bucket_cnt :: u32
  hchain :: u64
  chain_cnt :: u32
  symoffset :: u32
  bloom :: u64
  bloom_sz :: u32
  bloom_shift :: u32
  is_use_rela :: bool
  is_use_gnu_hash :: bool

definition zero_elf :: xh_elf_t where
  "zero_elf = \<lparr>pathname = None, base_addr = 0, bias_addr = 0, ehdr = 0, phdr = 0, dyn = 0, dyn_sz = 0, strtab = 0,
     symtab = 0, relplt = 0, relplt_sz = 0, reldyn = 0, reldyn_sz = 0, relandroid = 0, relandroid_sz = 0,
     bucket = 0, bucket_cnt = 0, hchain = 0, chain_cnt = 0, symoffset = 0, bloom = 0, bloom_sz = 0, bloom_shift = 0,
     is_use_rela = False, is_use_gnu_hash = False\<rparr>"

section \<open>Segments\<close>

text \<open>\<open>Elf64_Phdr\<close> has 56 bytes: \<open>p_type\<close> at 0, \<open>p_offset\<close> at 8, \<open>p_vaddr\<close> at 16, \<open>p_memsz\<close> at 40;
  \<open>e_phnum\<close> is at 56 of the header.\<close>

definition PT_LOAD :: u32 where "PT_LOAD = 1"
definition PT_DYNAMIC :: u32 where "PT_DYNAMIC = 2"

fun segment_by_type :: "process \<Rightarrow> u32 \<Rightarrow> u64 \<Rightarrow> nat \<Rightarrow> u64 option res" where
  "segment_by_type p ty ph 0 = Inr None"
| "segment_by_type p ty ph (Suc n) =
     res_bind (load32 p ph) (\<lambda>p_type. if p_type = ty then Inr (Some ph) else segment_by_type p ty (ph + 56) n)"

fun segment_by_type_offset :: "process \<Rightarrow> u32 \<Rightarrow> u64 \<Rightarrow> u64 \<Rightarrow> nat \<Rightarrow> u64 option res" where
  "segment_by_type_offset p ty off ph 0 = Inr None"
| "segment_by_type_offset p ty off ph (Suc n) =
     res_bind (load32 p ph) (\<lambda>p_type.
       if p_type = ty then res_bind (load64 p (ph + 8)) (\<lambda>p_offset.
         if p_offset = off then Inr (Some ph) else segment_by_type_offset p ty off (ph + 56) n)
       else segment_by_type_offset p ty off (ph + 56) n)"

definition xh_elf_get_first_segment_by_type :: "process \<Rightarrow> xh_elf_t \<Rightarrow> u32 \<Rightarrow> u64 option res" where
  "xh_elf_get_first_segment_by_type p self ty =
     res_bind (load16 p (ehdr self + 56)) (\<lambda>e_phnum. segment_by_type p ty (phdr self) (unat e_phnum))"

definition xh_elf_get_first_segment_by_type_offset :: "process \<Rightarrow> xh_elf_t \<Rightarrow> u32 \<Rightarrow> u64 \<Rightarrow> u64 option res" where
  "xh_elf_get_first_segment_by_type_offset p self ty off =
     res_bind (load16 p (ehdr self + 56)) (\<lambda>e_phnum. segment_by_type_offset p ty off (phdr self) (unat e_phnum))"

section \<open>Symbol lookup\<close>

text \<open>\<open>strcmp\<close> with the string at an address, which is read up to the first difference.\<close>

fun strcmp_at :: "process \<Rightarrow> u8 list \<Rightarrow> u64 \<Rightarrow> bool res" where
  "strcmp_at p [] a = res_bind (load8 p a) (\<lambda>c. Inr (c = 0))"
| "strcmp_at p (b # bs) a = res_bind (load8 p a) (\<lambda>c. if c = b then strcmp_at p bs (a + 1) else Inr False)"

text \<open>\<open>Elf64_Sym\<close> has 24 bytes with \<open>st_name\<close> first.\<close>

definition sym_name :: "process \<Rightarrow> xh_elf_t \<Rightarrow> u32 \<Rightarrow> u64 res" where
  "sym_name p self i = res_bind (load32 p (symtab self + ucast i * 24)) (\<lambda>st_name. Inr (strtab self + ucast st_name))"

definition word_at :: "process \<Rightarrow> u64 \<Rightarrow> u32 \<Rightarrow> u32 res" where
  "word_at p tab i = load32 p (tab + ucast i * 4)"

text \<open>The chain of a bucket may run in a circle; then the loop does not end, and the value is \<open>None\<close>. The
  result is the index of the symbol, or \<open>None\<close> for \<open>XH_ERRNO_NOTFND\<close>.\<close>

partial_function (option) hash_chain :: "process \<Rightarrow> xh_elf_t \<Rightarrow> u8 list \<Rightarrow> u32 \<Rightarrow> u32 option res option" where
  "hash_chain p self symbol i =
     (if i = 0 then Some (Inr None)
      else case res_bind (sym_name p self i) (strcmp_at p symbol) of
        Inl e \<Rightarrow> Some (Inl e)
      | Inr eq \<Rightarrow>
          if eq then Some (Inr (Some i))
          else (case word_at p (hchain self) i of Inl e \<Rightarrow> Some (Inl e) | Inr j \<Rightarrow> hash_chain p self symbol j))"

definition xh_elf_hash_lookup :: "process \<Rightarrow> xh_elf_t \<Rightarrow> u8 list \<Rightarrow> u32 option res option" where
  "xh_elf_hash_lookup p self symbol =
     (if bucket_cnt self = 0 then Some (Inl Div_Zero)
      else case word_at p (bucket self) (xh_elf_hash symbol mod bucket_cnt self) of
        Inl e \<Rightarrow> Some (Inl e) | Inr i \<Rightarrow> hash_chain p self symbol i)"

partial_function (option) gnu_chain :: "process \<Rightarrow> xh_elf_t \<Rightarrow> u8 list \<Rightarrow> u32 \<Rightarrow> u32 \<Rightarrow> u32 option res option" where
  "gnu_chain p self symbol hash i =
     (case res_bind (sym_name p self i) (\<lambda>symname. res_bind (word_at p (hchain self) (i - symoffset self)) (\<lambda>symhash.
        if hash OR 1 = symhash OR 1 then res_bind (strcmp_at p symbol symname) (\<lambda>eq. Inr (symhash, eq))
        else Inr (symhash, False))) of
        Inl e \<Rightarrow> Some (Inl e)
      | Inr (symhash, eq) \<Rightarrow>
          if eq then Some (Inr (Some i))
          else if symhash AND 1 \<noteq> 0 then Some (Inr None)
          else gnu_chain p self symbol hash (i + 1))"

text \<open>The Bloom filter: both bits of the hash must be set in its word. A zero size of the filter or of the
  buckets is a division by zero.\<close>

definition xh_elf_gnu_hash_lookup_def :: "process \<Rightarrow> xh_elf_t \<Rightarrow> u8 list \<Rightarrow> u32 option res option" where
  "xh_elf_gnu_hash_lookup_def p self symbol =
     (let hash = xh_elf_gnu_hash symbol in
      if bloom_sz self = 0 then Some (Inl Div_Zero)
      else if 32 \<le> bloom_shift self then Some (Inl Bad_Shift)
      else case load64 p (bloom self + ucast ((hash div 64) mod bloom_sz self) * 8) of
        Inl e \<Rightarrow> Some (Inl e)
      | Inr word \<Rightarrow>
          let bmask = push_bit (unat (hash mod 64)) 1 OR
                push_bit (unat (drop_bit (unat (bloom_shift self)) hash mod 64)) (1 :: u64) in
          if word AND bmask \<noteq> bmask then Some (Inr None)
          else if bucket_cnt self = 0 then Some (Inl Div_Zero)
          else (case word_at p (bucket self) (hash mod bucket_cnt self) of
             Inl e \<Rightarrow> Some (Inl e)
           | Inr i \<Rightarrow> if i < symoffset self then Some (Inr None) else gnu_chain p self symbol hash i))"

fun undef_loop :: "process \<Rightarrow> xh_elf_t \<Rightarrow> u8 list \<Rightarrow> u32 \<Rightarrow> nat \<Rightarrow> u32 option res" where
  "undef_loop p self symbol i 0 = Inr None"
| "undef_loop p self symbol i (Suc n) =
     res_bind (res_bind (sym_name p self i) (strcmp_at p symbol)) (\<lambda>eq.
       if eq then Inr (Some i) else undef_loop p self symbol (i + 1) n)"

definition xh_elf_gnu_hash_lookup_undef :: "process \<Rightarrow> xh_elf_t \<Rightarrow> u8 list \<Rightarrow> u32 option res" where
  "xh_elf_gnu_hash_lookup_undef p self symbol = undef_loop p self symbol 0 (unat (symoffset self))"

definition xh_elf_gnu_hash_lookup :: "process \<Rightarrow> xh_elf_t \<Rightarrow> u8 list \<Rightarrow> u32 option res option" where
  "xh_elf_gnu_hash_lookup p self symbol =
     (case xh_elf_gnu_hash_lookup_def p self symbol of
        Some (Inr None) \<Rightarrow> Some (xh_elf_gnu_hash_lookup_undef p self symbol)
      | r \<Rightarrow> r)"

definition xh_elf_find_symidx_by_name :: "process \<Rightarrow> xh_elf_t \<Rightarrow> u8 list \<Rightarrow> u32 option res option" where
  "xh_elf_find_symidx_by_name p self symbol =
     (if is_use_gnu_hash self then xh_elf_gnu_hash_lookup p self symbol else xh_elf_hash_lookup p self symbol)"

section \<open>Replacing a function pointer\<close>

text \<open>
  The slot at \<open>addr\<close> is read, made writable if need be, written and given back its protection; the
  pointer that \<open>old_func\<close> points to, when there is one, gets the old value. Results are an error number
  or a fault, with the address space as it is then. A failure to restore the protection is only
  logged. Flushing the instruction cache has no effect on the model.
\<close>

definition xh_elf_replace_function :: "xh_os \<Rightarrow> xh_elf_t \<Rightarrow> u64 \<Rightarrow> u64 \<Rightarrow> u64 \<Rightarrow> process \<Rightarrow> int res \<times> process" where
  "xh_elf_replace_function os self addr new_func old_func p =
     (case load64 p addr of
        Inl e \<Rightarrow> (Inl e, p)
      | Inr cur \<Rightarrow>
          if cur = new_func then (Inr 0, p)
          else let (r, old_prot) = xh_util_get_addr_protect os p addr (pathname self);
                   need_prot = PROT_READ OR PROT_WRITE in
          if r \<noteq> 0 then (Inr r, p)
          else let (r, p1) = (if old_prot \<noteq> need_prot then xh_util_set_addr_protect os addr need_prot p else (0, p)) in
          if r \<noteq> 0 then (Inr r, p1)
          else case load64 p1 addr of
            Inl e \<Rightarrow> (Inl e, p1)
          | Inr old_addr \<Rightarrow>
              (case (if old_func \<noteq> 0 then store64 old_func old_addr p1 else Inr p1) of
                 Inl e \<Rightarrow> (Inl e, p1)
               | Inr p2 \<Rightarrow>
                   (case store64 addr new_func p2 of
                      Inl e \<Rightarrow> (Inl e, p2)
                    | Inr p3 \<Rightarrow>
                        (Inr 0, if old_prot \<noteq> need_prot then snd (xh_util_set_addr_protect os addr old_prot p3) else p3))))"

section \<open>Initialisation\<close>

definition xh_elf_check :: "xh_elf_t \<Rightarrow> int" where
  "xh_elf_check self =
     (if base_addr self = 0 then 1
      else if bias_addr self = 0 then 1
      else if ehdr self = 0 then 1
      else if phdr self = 0 then 1
      else if strtab self = 0 then 1
      else if symtab self = 0 then 1
      else if bucket self = 0 then 1
      else if hchain self = 0 then 1
      else if is_use_gnu_hash self \<and> bloom self = 0 then 1
      else 0)"

definition DT_NULL :: u64 where "DT_NULL = 0"
definition DT_PLTRELSZ :: u64 where "DT_PLTRELSZ = 2"
definition DT_HASH :: u64 where "DT_HASH = 4"
definition DT_STRTAB :: u64 where "DT_STRTAB = 5"
definition DT_SYMTAB :: u64 where "DT_SYMTAB = 6"
definition DT_RELA :: u64 where "DT_RELA = 7"
definition DT_RELASZ :: u64 where "DT_RELASZ = 8"
definition DT_REL :: u64 where "DT_REL = 17"
definition DT_RELSZ :: u64 where "DT_RELSZ = 18"
definition DT_PLTREL :: u64 where "DT_PLTREL = 20"
definition DT_JMPREL :: u64 where "DT_JMPREL = 23"
definition DT_GNU_HASH :: u64 where "DT_GNU_HASH = 0x6FFFFEF5"
definition DT_ANDROID_REL :: u64 where "DT_ANDROID_REL = 0x6000000F"
definition DT_ANDROID_RELSZ :: u64 where "DT_ANDROID_RELSZ = 0x60000010"
definition DT_ANDROID_RELA :: u64 where "DT_ANDROID_RELA = 0x60000011"
definition DT_ANDROID_RELASZ :: u64 where "DT_ANDROID_RELASZ = 0x60000012"

lemmas dt_defs = DT_NULL_def DT_PLTRELSZ_def DT_HASH_def DT_STRTAB_def DT_SYMTAB_def DT_RELA_def DT_RELASZ_def
  DT_REL_def DT_RELSZ_def DT_PLTREL_def DT_JMPREL_def DT_GNU_HASH_def DT_ANDROID_REL_def DT_ANDROID_RELSZ_def
  DT_ANDROID_RELA_def DT_ANDROID_RELASZ_def

text \<open>An address of the dynamic section is kept even when it is refused for lying below the base.\<close>

definition set_ptr :: "(u64 \<Rightarrow> xh_elf_t \<Rightarrow> xh_elf_t) \<Rightarrow> u64 \<Rightarrow> xh_elf_t \<Rightarrow> int res \<times> xh_elf_t" where
  "set_ptr upd d_ptr self =
     (let a = bias_addr self + d_ptr; self' = upd a self
      in if a < base_addr self then (Inr XH_ERRNO_FORMAT, self') else (Inr 0, self'))"

definition read_hash :: "process \<Rightarrow> u64 \<Rightarrow> xh_elf_t \<Rightarrow> int res \<times> xh_elf_t" where
  "read_hash p raw self =
     (case res_bind (load32 p raw) (\<lambda>r0. res_bind (load32 p (raw + 4)) (\<lambda>r1. Inr (r0, r1))) of
        Inl e \<Rightarrow> (Inl e, self)
      | Inr (r0, r1) \<Rightarrow>
          (Inr 0, self\<lparr>bucket_cnt := r0, chain_cnt := r1, bucket := raw + 8, hchain := raw + 8 + ucast r0 * 4\<rparr>))"

definition read_gnu_hash :: "process \<Rightarrow> u64 \<Rightarrow> xh_elf_t \<Rightarrow> int res \<times> xh_elf_t" where
  "read_gnu_hash p raw self =
     (case res_bind (load32 p raw) (\<lambda>r0. res_bind (load32 p (raw + 4)) (\<lambda>r1. res_bind (load32 p (raw + 8)) (\<lambda>r2.
        res_bind (load32 p (raw + 12)) (\<lambda>r3. Inr (r0, r1, r2, r3))))) of
        Inl e \<Rightarrow> (Inl e, self)
      | Inr (r0, r1, r2, r3) \<Rightarrow>
          (Inr 0, self\<lparr>bucket_cnt := r0, symoffset := r1, bloom_sz := r2, bloom_shift := r3, bloom := raw + 16,
             bucket := raw + 16 + ucast r2 * 8, hchain := raw + 16 + ucast r2 * 8 + ucast r0 * 4,
             is_use_gnu_hash := True\<rparr>))"

text \<open>One entry of the dynamic section, other than its end. The value is read only where it is used.\<close>

definition uses_value :: "u64 \<Rightarrow> xh_elf_t \<Rightarrow> bool" where
  "uses_value d_tag self \<longleftrightarrow>
     d_tag \<in> {DT_STRTAB, DT_SYMTAB, DT_PLTREL, DT_JMPREL, DT_PLTRELSZ, DT_REL, DT_RELA, DT_RELSZ, DT_RELASZ,
       DT_ANDROID_REL, DT_ANDROID_RELA, DT_ANDROID_RELSZ, DT_ANDROID_RELASZ, DT_GNU_HASH} \<or>
     d_tag = DT_HASH \<and> \<not> is_use_gnu_hash self"

definition dyn_entry :: "process \<Rightarrow> u64 \<Rightarrow> u64 \<Rightarrow> xh_elf_t \<Rightarrow> int res \<times> xh_elf_t" where
  "dyn_entry p d_tag d_val self =
     (if d_tag = DT_STRTAB then set_ptr (\<lambda>a s. s\<lparr>strtab := a\<rparr>) d_val self
      else if d_tag = DT_SYMTAB then set_ptr (\<lambda>a s. s\<lparr>symtab := a\<rparr>) d_val self
      else if d_tag = DT_PLTREL then (Inr 0, self\<lparr>is_use_rela := (d_val = DT_RELA)\<rparr>)
      else if d_tag = DT_JMPREL then set_ptr (\<lambda>a s. s\<lparr>relplt := a\<rparr>) d_val self
      else if d_tag = DT_PLTRELSZ then (Inr 0, self\<lparr>relplt_sz := ucast d_val\<rparr>)
      else if d_tag = DT_REL \<or> d_tag = DT_RELA then set_ptr (\<lambda>a s. s\<lparr>reldyn := a\<rparr>) d_val self
      else if d_tag = DT_RELSZ \<or> d_tag = DT_RELASZ then (Inr 0, self\<lparr>reldyn_sz := ucast d_val\<rparr>)
      else if d_tag = DT_ANDROID_REL \<or> d_tag = DT_ANDROID_RELA then set_ptr (\<lambda>a s. s\<lparr>relandroid := a\<rparr>) d_val self
      else if d_tag = DT_ANDROID_RELSZ \<or> d_tag = DT_ANDROID_RELASZ then (Inr 0, self\<lparr>relandroid_sz := ucast d_val\<rparr>)
      else if d_tag = DT_HASH then
        (let raw = bias_addr self + d_val in
         if raw < base_addr self then (Inr XH_ERRNO_FORMAT, self) else read_hash p raw self)
      else if d_tag = DT_GNU_HASH then
        (let raw = bias_addr self + d_val in
         if raw < base_addr self then (Inr XH_ERRNO_FORMAT, self) else read_gnu_hash p raw self)
      else (Inr 0, self))"

fun dyn_loop :: "process \<Rightarrow> u64 \<Rightarrow> nat \<Rightarrow> xh_elf_t \<Rightarrow> int res \<times> xh_elf_t" where
  "dyn_loop p d 0 self = (Inr 0, self)"
| "dyn_loop p d (Suc n) self =
     (case load64 p d of
        Inl e \<Rightarrow> (Inl e, self)
      | Inr d_tag \<Rightarrow>
          if d_tag = DT_NULL then (Inr 0, self)
          else if \<not> uses_value d_tag self then dyn_loop p (d + 16) n self
          else (case load64 p (d + 8) of
            Inl e \<Rightarrow> (Inl e, self)
          | Inr d_val \<Rightarrow>
              let (r, self') = dyn_entry p d_tag d_val self
              in if r \<noteq> Inr 0 then (r, self') else dyn_loop p (d + 16) n self'))"

definition check_android :: "process \<Rightarrow> xh_elf_t \<Rightarrow> int res \<times> xh_elf_t" where
  "check_android p self =
     (if relandroid self = 0 then (Inr 0, self)
      else if relandroid_sz self < 4 then (Inr XH_ERRNO_FORMAT, self)
      else case bytes_equal p (relandroid self) [0x41, 0x50, 0x53, 0x32] of
        Inl e \<Rightarrow> (Inl e, self)
      | Inr ok \<Rightarrow>
          if ok then (Inr 0, self\<lparr>relandroid := relandroid self + 4, relandroid_sz := relandroid_sz self - 4\<rparr>)
          else (Inr XH_ERRNO_FORMAT, self))"

definition init_bias :: "process \<Rightarrow> xh_elf_t \<Rightarrow> int res \<times> xh_elf_t" where
  "init_bias p self =
     (case xh_elf_get_first_segment_by_type_offset p self PT_LOAD 0 of
        Inl e \<Rightarrow> (Inl e, self)
      | Inr None \<Rightarrow> (Inr XH_ERRNO_FORMAT, self)
      | Inr (Some phdr0) \<Rightarrow>
          (case load64 p (phdr0 + 16) of
             Inl e \<Rightarrow> (Inl e, self)
           | Inr p_vaddr \<Rightarrow>
               if base_addr self < p_vaddr then (Inr XH_ERRNO_FORMAT, self)
               else (Inr 0, self\<lparr>bias_addr := base_addr self - p_vaddr\<rparr>)))"

definition init_dyn :: "process \<Rightarrow> xh_elf_t \<Rightarrow> int res \<times> xh_elf_t" where
  "init_dyn p self =
     (case xh_elf_get_first_segment_by_type p self PT_DYNAMIC of
        Inl e \<Rightarrow> (Inl e, self)
      | Inr None \<Rightarrow> (Inr XH_ERRNO_FORMAT, self)
      | Inr (Some dhdr) \<Rightarrow>
          (case res_bind (load64 p (dhdr + 16)) (\<lambda>v. res_bind (load64 p (dhdr + 40)) (\<lambda>m. Inr (v, m))) of
             Inl e \<Rightarrow> (Inl e, self)
           | Inr (p_vaddr, p_memsz) \<Rightarrow>
               let self' = self\<lparr>dyn := bias_addr self + p_vaddr, dyn_sz := ucast p_memsz\<rparr>
               in dyn_loop p (dyn self') (unat (dyn_sz self' div 16)) self'))"

definition elf_then :: "int res \<times> xh_elf_t \<Rightarrow> (xh_elf_t \<Rightarrow> int res \<times> xh_elf_t) \<Rightarrow> int res \<times> xh_elf_t" where
  "elf_then x k = (if fst x = Inr 0 then k (snd x) else x)"

definition xh_elf_init :: "process \<Rightarrow> xh_elf_t \<Rightarrow> u64 \<Rightarrow> string option \<Rightarrow> int res \<times> xh_elf_t" where
  "xh_elf_init p self0 base path =
     (if base = 0 \<or> path = None then (Inr XH_ERRNO_INVAL, self0)
      else let self = zero_elf\<lparr>pathname := path, base_addr := base, ehdr := base\<rparr> in
        case load64 p (base + 32) of
          Inl e \<Rightarrow> (Inl e, self)
        | Inr e_phoff \<Rightarrow>
            elf_then (init_bias p (self\<lparr>phdr := base + e_phoff\<rparr>)) (\<lambda>self.
            elf_then (init_dyn p self) (\<lambda>self.
            elf_then (check_android p self) (\<lambda>self.
            (Inr (if xh_elf_check self \<noteq> 0 then XH_ERRNO_FORMAT else 0), self)))))"

section \<open>Hooking a symbol\<close>

definition R_SYM :: "u64 \<Rightarrow> u64" where "R_SYM info = drop_bit 32 info"
definition R_TYPE :: "u64 \<Rightarrow> u64" where "R_TYPE info = info AND 0xFFFFFFFF"

definition XH_ELF_R_GENERIC_JUMP_SLOT :: u64 where "XH_ELF_R_GENERIC_JUMP_SLOT = 1026"
definition XH_ELF_R_GENERIC_GLOB_DAT :: u64 where "XH_ELF_R_GENERIC_GLOB_DAT = 1025"
definition XH_ELF_R_GENERIC_ABS :: u64 where "XH_ELF_R_GENERIC_ABS = 257"

definition rel_matches :: "bool \<Rightarrow> u32 \<Rightarrow> u64 \<Rightarrow> bool" where
  "rel_matches is_plt symidx ri \<longleftrightarrow>
     R_SYM ri = ucast symidx \<and>
     (if is_plt then R_TYPE ri = XH_ELF_R_GENERIC_JUMP_SLOT
      else R_TYPE ri = XH_ELF_R_GENERIC_GLOB_DAT \<or> R_TYPE ri = XH_ELF_R_GENERIC_ABS)"

text \<open>A relocation given by its two fields; the flag is \<open>found\<close>.\<close>

definition replace_at :: "xh_os \<Rightarrow> xh_elf_t \<Rightarrow> bool \<Rightarrow> u64 \<Rightarrow> u64 \<Rightarrow> u32 \<Rightarrow> u64 \<Rightarrow> u64 \<Rightarrow> process \<Rightarrow> (int \<times> bool) res \<times> process" where
  "replace_at os self is_plt new_func old_func symidx r_off r_inf p =
     (if \<not> rel_matches is_plt symidx r_inf then (Inr (0, False), p)
      else let addr = bias_addr self + r_off in
        if addr < base_addr self then (Inr (XH_ERRNO_FORMAT, True), p)
        else let (r, p') = xh_elf_replace_function os self addr new_func old_func p
          in (case r of Inl e \<Rightarrow> Inl e | Inr code \<Rightarrow> Inr (code, True), p'))"

text \<open>An entry of a plain table, \<open>r_offset\<close> at 0 and \<open>r_info\<close> at 8 in both formats.\<close>

definition xh_elf_find_and_replace_func ::
  "xh_os \<Rightarrow> xh_elf_t \<Rightarrow> bool \<Rightarrow> u64 \<Rightarrow> u64 \<Rightarrow> u32 \<Rightarrow> u64 \<Rightarrow> process \<Rightarrow> (int \<times> bool) res \<times> process" where
  "xh_elf_find_and_replace_func os self is_plt new_func old_func symidx rel p =
     (case res_bind (load64 p (rel + 8)) (\<lambda>i. res_bind (load64 p rel) (\<lambda>off. Inr (i, off))) of
        Inl e \<Rightarrow> (Inl e, p)
      | Inr (r_inf, r_off) \<Rightarrow> replace_at os self is_plt new_func old_func symidx r_off r_inf p)"

definition no_stop :: "(int \<times> bool) res \<times> process \<Rightarrow> (int \<times> bool) res \<times> process" where
  "no_stop x = (case x of (Inl e, p) \<Rightarrow> (Inl e, p) | (Inr (code, found), p) \<Rightarrow> (Inr (code, False), p))"

definition code_of :: "(int \<times> bool) res \<times> process \<Rightarrow> int res \<times> process" where
  "code_of x = (case x of (Inl e, p) \<Rightarrow> (Inl e, p) | (Inr (code, found), p) \<Rightarrow> (Inr code, p))"

definition hook_then :: "(int res \<times> process) option \<Rightarrow> (process \<Rightarrow> (int res \<times> process) option) \<Rightarrow> (int res \<times> process) option" where
  "hook_then x k = (case x of None \<Rightarrow> None | Some (r, p) \<Rightarrow> if r = Inr 0 then k p else Some (r, p))"

definition hook_plt :: "xh_os \<Rightarrow> xh_elf_t \<Rightarrow> u64 \<Rightarrow> u64 \<Rightarrow> u32 \<Rightarrow> process \<Rightarrow> (int res \<times> process) option" where
  "hook_plt os self new_func old_func symidx p =
     (if relplt self = 0 then Some (Inr 0, p)
      else plain_loop (xh_elf_find_and_replace_func os self True new_func old_func symidx)
             (xh_elf_plain_reloc_iterator_init (relplt self) (relplt_sz self) (is_use_rela self)) p)"

definition hook_dyn :: "xh_os \<Rightarrow> xh_elf_t \<Rightarrow> u64 \<Rightarrow> u64 \<Rightarrow> u32 \<Rightarrow> process \<Rightarrow> (int res \<times> process) option" where
  "hook_dyn os self new_func old_func symidx p =
     (if reldyn self = 0 then Some (Inr 0, p)
      else plain_loop (\<lambda>rel p. no_stop (xh_elf_find_and_replace_func os self False new_func old_func symidx rel p))
             (xh_elf_plain_reloc_iterator_init (reldyn self) (reldyn_sz self) (is_use_rela self)) p)"

text \<open>The error number of the initialisation of the packed iterator is ignored.\<close>

definition hook_android :: "xh_os \<Rightarrow> xh_elf_t \<Rightarrow> u64 \<Rightarrow> u64 \<Rightarrow> u32 \<Rightarrow> process \<Rightarrow> (int res \<times> process) option" where
  "hook_android os self new_func old_func symidx p =
     (if relandroid self = 0 then Some (Inr 0, p)
      else case xh_elf_packed_reloc_iterator_init p (relandroid self) (relandroid_sz self) (is_use_rela self) of
        (Inl e, it) \<Rightarrow> Some (Inl e, p)
      | (Inr code, it) \<Rightarrow>
          Some (packed_loop (\<lambda>rel p. code_of (replace_at os self False new_func old_func symidx (r_offset rel) (r_info rel) p)) it p))"

definition xh_elf_hook :: "xh_os \<Rightarrow> xh_elf_t \<Rightarrow> u8 list option \<Rightarrow> u64 \<Rightarrow> u64 \<Rightarrow> process \<Rightarrow> (int res \<times> process) option" where
  "xh_elf_hook os self symbol new_func old_func p =
     (if pathname self = None then Some (Inr XH_ERRNO_ELFINIT, p)
      else case symbol of
        None \<Rightarrow> Some (Inr XH_ERRNO_INVAL, p)
      | Some sy \<Rightarrow>
          if new_func = 0 then Some (Inr XH_ERRNO_INVAL, p)
          else case xh_elf_find_symidx_by_name p self sy of
            None \<Rightarrow> None
          | Some (Inl e) \<Rightarrow> Some (Inl e, p)
          | Some (Inr None) \<Rightarrow> Some (Inr 0, p)
          | Some (Inr (Some symidx)) \<Rightarrow>
              hook_then (hook_plt os self new_func old_func symidx p) (\<lambda>p.
              hook_then (hook_dyn os self new_func old_func symidx p) (\<lambda>p.
              hook_android os self new_func old_func symidx p)))"

section \<open>Lookup\<close>

definition named :: "process \<Rightarrow> xh_elf_t \<Rightarrow> u8 list \<Rightarrow> u32 \<Rightarrow> bool" where
  "named p self symbol j \<longleftrightarrow> (\<exists>a. sym_name p self j = Inr a \<and> strcmp_at p symbol a = Inr True)"

lemma hash_chain_sound:
  assumes "hash_chain p self symbol i = Some r"
  shows "\<forall>j. r = Inr (Some j) \<longrightarrow> named p self symbol j"
proof (rule hash_chain.raw_induct [OF _ assms])
  fix hc and p :: process and self symbol i and r :: "u32 option res"
  assume IH: "\<And>p self symbol i r. hc p self symbol i = Some r \<Longrightarrow> \<forall>j. r = Inr (Some j) \<longrightarrow> named p self symbol j"
    and eq: "(if i = 0 then Some (Inr None)
      else case res_bind (sym_name p self i) (strcmp_at p symbol) of
        Inl e \<Rightarrow> Some (Inl e)
      | Inr eq \<Rightarrow>
          if eq then Some (Inr (Some i))
          else (case word_at p (hchain self) i of Inl e \<Rightarrow> Some (Inl e) | Inr j \<Rightarrow> hc p self symbol j)) = Some r"
  then show "\<forall>j. r = Inr (Some j) \<longrightarrow> named p self symbol j"
    by (auto simp: named_def res_bind_def split: if_splits sum.splits dest: IH)
qed

lemma gnu_chain_sound:
  assumes "gnu_chain p self symbol hash i = Some r"
  shows "\<forall>j. r = Inr (Some j) \<longrightarrow> named p self symbol j"
proof (rule gnu_chain.raw_induct [OF _ assms])
  fix gc and p :: process and self symbol hash i and r :: "u32 option res"
  assume IH: "\<And>p self symbol hash i r. gc p self symbol hash i = Some r \<Longrightarrow> \<forall>j. r = Inr (Some j) \<longrightarrow> named p self symbol j"
    and eq: "(case res_bind (sym_name p self i) (\<lambda>symname. res_bind (word_at p (hchain self) (i - symoffset self)) (\<lambda>symhash.
        if hash OR 1 = symhash OR 1 then res_bind (strcmp_at p symbol symname) (\<lambda>eq. Inr (symhash, eq))
        else Inr (symhash, False))) of
        Inl e \<Rightarrow> Some (Inl e)
      | Inr (symhash, eq) \<Rightarrow>
          if eq then Some (Inr (Some i))
          else if symhash AND 1 \<noteq> 0 then Some (Inr None)
          else gc p self symbol hash (i + 1)) = Some r"
  then show "\<forall>j. r = Inr (Some j) \<longrightarrow> named p self symbol j"
    by (auto simp: named_def res_bind_def split: if_splits sum.splits dest: IH)
qed

lemma undef_loop_sound: "undef_loop p self symbol i n = Inr (Some j) \<Longrightarrow> named p self symbol j"
  by (induction n arbitrary: i) (auto simp: named_def res_bind_Inr_iff split: if_splits)

lemma find_symidx_sound:
  assumes "xh_elf_find_symidx_by_name p self symbol = Some (Inr (Some j))"
  shows "named p self symbol j"
proof (cases "is_use_gnu_hash self")
  case False
  then show ?thesis using assms hash_chain_sound
    by (fastforce simp: xh_elf_find_symidx_by_name_def xh_elf_hash_lookup_def split: if_splits sum.splits)
next
  case True
  then consider "xh_elf_gnu_hash_lookup_def p self symbol = Some (Inr (Some j))"
    | "xh_elf_gnu_hash_lookup_undef p self symbol = Inr (Some j)"
    using assms by (auto simp: xh_elf_find_symidx_by_name_def xh_elf_gnu_hash_lookup_def
        split: option.splits sum.splits)
  then show ?thesis
  proof cases
    case 1
    then show ?thesis using gnu_chain_sound
      by (fastforce simp: xh_elf_gnu_hash_lookup_def_def Let_def split: if_splits sum.splits)
  next
    case 2
    then show ?thesis by (simp add: xh_elf_gnu_hash_lookup_undef_def undef_loop_sound)
  qed
qed

text \<open>The two searches of the library keep the contract.\<close>

definition next_in_hash :: "process \<Rightarrow> xh_elf_t \<Rightarrow> u32 \<Rightarrow> u32 option res" where
  "next_in_hash p self i = res_bind (word_at p (hchain self) i) (\<lambda>k. Inr (Some k))"

interpretation xh_hash: chain_search "\<lambda>i. i = 0" "\<lambda>i. res_bind (sym_name p self i) (strcmp_at p symbol)" "next_in_hash p self"
    "hash_chain p self symbol" for p self symbol
proof
  show "hash_chain p self symbol i =
      (if i = 0 then Some (Inr None)
       else case res_bind (sym_name p self i) (strcmp_at p symbol) of
         Inl e \<Rightarrow> Some (Inl e)
       | Inr b \<Rightarrow>
           if b then Some (Inr (Some i))
           else (case next_in_hash p self i of
              Inl e \<Rightarrow> Some (Inl e) | Inr None \<Rightarrow> Some (Inr None) | Inr (Some j) \<Rightarrow> hash_chain p self symbol j))" for i
    by (subst hash_chain.simps) (simp add: next_in_hash_def res_bind_def split: sum.splits)
  show "hash_chain p self symbol i = Some (Inr (Some j)) \<Longrightarrow> res_bind (sym_name p self j) (strcmp_at p symbol) = Inr True" for i j
    using hash_chain_sound by (fastforce simp: named_def)
qed

definition gnu_test :: "process \<Rightarrow> xh_elf_t \<Rightarrow> u8 list \<Rightarrow> u32 \<Rightarrow> u32 \<Rightarrow> bool res" where
  "gnu_test p self symbol hash i =
     res_bind (sym_name p self i) (\<lambda>symname. res_bind (word_at p (hchain self) (i - symoffset self)) (\<lambda>symhash.
       if hash OR 1 = symhash OR 1 then strcmp_at p symbol symname else Inr False))"

definition next_in_gnu :: "process \<Rightarrow> xh_elf_t \<Rightarrow> u32 \<Rightarrow> u32 option res" where
  "next_in_gnu p self i =
     res_bind (word_at p (hchain self) (i - symoffset self)) (\<lambda>symhash.
       Inr (if symhash AND 1 \<noteq> 0 then None else Some (i + 1)))"

lemma gnu_chain_hit:
  assumes "gnu_chain p self symbol hash i = Some r"
  shows "\<forall>j. r = Inr (Some j) \<longrightarrow> gnu_test p self symbol hash j = Inr True"
proof (rule gnu_chain.raw_induct [OF _ assms])
  fix gc and p :: process and self symbol hash i and r :: "u32 option res"
  assume IH: "\<And>p self symbol hash i r. gc p self symbol hash i = Some r \<Longrightarrow>
      \<forall>j. r = Inr (Some j) \<longrightarrow> gnu_test p self symbol hash j = Inr True"
    and eq: "(case res_bind (sym_name p self i) (\<lambda>symname. res_bind (word_at p (hchain self) (i - symoffset self)) (\<lambda>symhash.
        if hash OR 1 = symhash OR 1 then res_bind (strcmp_at p symbol symname) (\<lambda>eq. Inr (symhash, eq))
        else Inr (symhash, False))) of
        Inl e \<Rightarrow> Some (Inl e)
      | Inr (symhash, eq) \<Rightarrow>
          if eq then Some (Inr (Some i))
          else if symhash AND 1 \<noteq> 0 then Some (Inr None)
          else gc p self symbol hash (i + 1)) = Some r"
  show "\<forall>j. r = Inr (Some j) \<longrightarrow> gnu_test p self symbol hash j = Inr True"
  proof (cases "gnu_test p self symbol hash i = Inr True")
    case True
    then have "r = Inr (Some i)" using eq
      by (auto simp: gnu_test_def res_bind_Inr_iff split: if_splits)
    with True show ?thesis by simp
  next
    case False
    then have "(\<exists>e. r = Inl e) \<or> r = Inr None \<or> gc p self symbol hash (i + 1) = Some r" using eq
      by (cases "sym_name p self i"; cases "word_at p (hchain self) (i - symoffset self)";
          cases "strcmp_at p symbol (projr (sym_name p self i))") (auto simp: gnu_test_def split: if_splits)
    then show ?thesis using IH by auto
  qed
qed

interpretation xh_gnu: chain_search "\<lambda>_. False" "gnu_test p self symbol hash" "next_in_gnu p self"
    "gnu_chain p self symbol hash" for p self symbol hash
proof
  show "gnu_chain p self symbol hash i =
      (if False then Some (Inr None)
       else case gnu_test p self symbol hash i of
         Inl e \<Rightarrow> Some (Inl e)
       | Inr b \<Rightarrow>
           if b then Some (Inr (Some i))
           else (case next_in_gnu p self i of
              Inl e \<Rightarrow> Some (Inl e) | Inr None \<Rightarrow> Some (Inr None) | Inr (Some j) \<Rightarrow> gnu_chain p self symbol hash j))" for i
    by (cases "sym_name p self i"; cases "word_at p (hchain self) (i - symoffset self)"; cases "strcmp_at p symbol (projr (sym_name p self i))";
        subst gnu_chain.simps) (simp_all add: gnu_test_def next_in_gnu_def)
  show "gnu_chain p self symbol hash i = Some (Inr (Some j)) \<Longrightarrow> gnu_test p self symbol hash j = Inr True" for i j
    using gnu_chain_hit by blast
qed

text \<open>A bucket of the ELF hash table whose chain is the list \<open>is\<close>, and of which every name can be read.\<close>

fun chain_of :: "process \<Rightarrow> xh_elf_t \<Rightarrow> u32 \<Rightarrow> u32 list \<Rightarrow> bool" where
  "chain_of p self i [] \<longleftrightarrow> i = 0"
| "chain_of p self i (j # js) \<longleftrightarrow> i = j \<and> i \<noteq> 0 \<and> (\<exists>k. word_at p (hchain self) i = Inr k \<and> chain_of p self k js)"

definition name_ok :: "process \<Rightarrow> xh_elf_t \<Rightarrow> u8 list \<Rightarrow> u32 \<Rightarrow> bool" where
  "name_ok p self symbol i \<longleftrightarrow> (\<exists>b. res_bind (sym_name p self i) (strcmp_at p symbol) = Inr b)"

lemma named_iff: "named p self symbol i \<longleftrightarrow> res_bind (sym_name p self i) (strcmp_at p symbol) = Inr True"
  by (auto simp: named_def res_bind_Inr_iff)

lemma chain_of_chain:
  "chain_of p self i is \<Longrightarrow> \<forall>j\<in>set is. name_ok p self symbol j \<Longrightarrow> xh_hash.chain p self symbol i is"
  by (induction "is" arbitrary: i) (auto simp: xh_hash.entry_def name_ok_def next_in_hash_def)

lemma hash_chain_finds:
  assumes "chain_of p self i is" and "\<forall>j\<in>set is. name_ok p self symbol j"
  shows "hash_chain p self symbol i = Some (Inr (List.find (named p self symbol) is))"
  using xh_hash.search_chain [OF chain_of_chain [OF assms]] by (simp flip: named_iff)


section \<open>Loads and stores\<close>

lemma load_bytes_iff:
  "load_bytes p a n = Inr bs \<longleftrightarrow>
    length bs = n \<and> (\<forall>i<n. readable p (a + word_of_nat i) \<and> cells p (a + word_of_nat i) = Some (bs ! i))"
proof (induction n arbitrary: a bs)
  case (Suc n)
  have all: "(\<forall>i<Suc n. Q i) \<longleftrightarrow> Q 0 \<and> (\<forall>i<n. Q (Suc i))" for Q by (auto simp: less_Suc_eq_0_disj)
  have "load_bytes p a (Suc n) = Inr bs \<longleftrightarrow>
    (\<exists>b cs. bs = b # cs \<and> readable p a \<and> cells p a = Some b \<and> load_bytes p (a + 1) n = Inr cs)"
    by (auto simp: res_bind_Inr_iff load8_def readable_def)
  also have "\<dots> \<longleftrightarrow> length bs = Suc n \<and> readable p a \<and> cells p a = Some (bs ! 0) \<and>
    (\<forall>i<n. readable p (a + 1 + word_of_nat i) \<and> cells p (a + 1 + word_of_nat i) = Some (bs ! Suc i))"
    by (auto simp: Suc.IH length_Suc_conv)
  finally show ?case unfolding all by (simp add: add.assoc)
qed auto

lemma load64_iff:
  "load64 p a = Inr w \<longleftrightarrow> (\<forall>i<8. readable p (a + word_of_nat i) \<and> cells p (a + word_of_nat i) = Some (le64 w ! i))"
proof
  assume "load64 p a = Inr w"
  then obtain bs where bs: "load_bytes p a 8 = Inr bs" "le_word bs = w" by (auto simp: load64_def res_bind_Inr_iff)
  then have len: "length bs = 8" by (simp add: load_bytes_iff)
  have "le64 (le_word bs) ! i = bs ! i" if "i < 8" for i
  proof (rule bit_word_eqI)
    fix n assume n: "n < LENGTH(8)"
    then have "(8 * i + n) div 8 = i" "(8 * i + n) mod 8 = n" "8 * i + n < 64" using that by simp_all
    then show "bit (le64 (le_word bs) ! i) n = bit (bs ! i) n"
      using that n len by (simp add: le64_def bit_simps bit_le_word)
  qed
  then show "\<forall>i<8. readable p (a + word_of_nat i) \<and> cells p (a + word_of_nat i) = Some (le64 w ! i)"
    using bs len by (auto simp: load_bytes_iff)
next
  assume "\<forall>i<8. readable p (a + word_of_nat i) \<and> cells p (a + word_of_nat i) = Some (le64 w ! i)"
  then have "load_bytes p a 8 = Inr (le64 w)" by (simp add: load_bytes_iff)
  then show "load64 p a = Inr w" by (simp add: load64_def)
qed

lemma cells_after_store:
  fixes a :: u64
  shows
  "x \<notin> region a 8 \<Longrightarrow> write_bytes a (map Some (le64 w)) c x = c x"
  "i < 8 \<Longrightarrow> write_bytes a (map Some (le64 w)) c (a + word_of_nat i) = Some (le64 w ! i)"
  using write_bytes_other [of x a "map Some (le64 w)" c] write_bytes_at [of i "map Some (le64 w)" a c]
  by (simp_all add: nth_map)

lemma stored_mapped: "c (x :: u64) \<noteq> None \<Longrightarrow> write_bytes a (map Some (le64 w)) c x \<noteq> None"
proof (cases "x \<in> region a 8")
  case True
  then obtain i where "i < 8" "x = a + word_of_nat i" by (rule region_memE)
  then show ?thesis using cells_after_store(2) [of i a w c] by simp
qed (simp add: cells_after_store(1))

section \<open>Pages\<close>

definition page_aligned :: "u64 \<Rightarrow> bool" where
  "page_aligned pg \<longleftrightarrow> take_bit 12 pg = 0"

text \<open>\<open>mprotect\<close> as documented: it sets the protection of the pages of the range and nothing else.\<close>

definition honest_mprotect :: "xh_os \<Rightarrow> bool" where
  "honest_mprotect os \<longleftrightarrow> (\<forall>ps a n pr. os_mprotect os ps a n pr =
     (None, \<lambda>pg. if page_aligned pg \<and> pg - a < n then pr else ps pg))"

lemma page_start_bits: "bit (PAGE_START a) n \<longleftrightarrow> bit a n \<and> 12 \<le> n"
  by (auto simp: PAGE_START_def bit_simps dest: bit_imp_le_length)

lemma page_aligned_start [simp]: "page_aligned (PAGE_START a)"
  unfolding page_aligned_def by (rule bit_word_eqI) (auto simp: bit_take_bit_iff page_start_bits)

lemma slot_page:
  assumes "take_bit 3 addr = (0 :: u64)" and "i < 8"
  shows "PAGE_START (addr + word_of_nat i) = PAGE_START addr"
proof -
  have lo: "\<not> bit addr n" if "n < 3" for n using assms(1) that by (metis bit_0_eq bit_take_bit_iff bot_apply bot_bool_def)
  have "take_bit 3 i = i" using assms(2) by (simp add: take_bit_nat_eq_self)
  then have "take_bit 3 (word_of_nat i :: u64) = word_of_nat i" by (simp flip: of_nat_take_bit)
  then have hi: "n < 3" if "bit (word_of_nat i :: u64) n" for n
    using that by (metis bit_take_bit_iff)
  have "addr AND word_of_nat i = 0" by (rule bit_word_eqI) (auto simp: bit_and_iff dest: lo hi)
  then have "addr + word_of_nat i = addr OR word_of_nat i" by (rule disjunctive_add_eq_or)
  then show ?thesis by (intro bit_word_eqI) (auto simp: page_start_bits bit_or_iff dest: hi)
qed

lemma page_cover:
  assumes "take_bit 3 addr = (0 :: u64)"
  shows "PAGE_COVER addr = 4096"
  using slot_page [OF assms, of 7] by (simp add: PAGE_COVER_def PAGE_END_def PAGE_SIZE_def algebra_simps)

lemma only_page:
  assumes "page_aligned pg" and "page_aligned a"
  shows "pg - a < (4096 :: u64) \<longleftrightarrow> pg = a"
proof
  have al: "4096 dvd uint x" if "page_aligned x" for x :: u64
  proof -
    have "uint (take_bit 12 x) = 0" using that by (simp add: page_aligned_def)
    then have "take_bit 12 (uint x) = 0" by (simp only: unsigned_take_bit_eq)
    then have "uint x mod 2 ^ 12 = 0" by (simp only: take_bit_eq_mod)
    then show ?thesis by auto
  qed
  assume "pg - a < 4096"
  then have lt: "uint (pg - a) < 4096" by (simp add: word_less_def)
  have "uint (pg - a) = (uint pg - uint a) mod 2 ^ 64" by (simp add: uint_word_ariths)
  moreover have "(4096 :: int) dvd (uint pg - uint a) mod 2 ^ 64"
    using al [OF assms(1)] al [OF assms(2)] by (intro dvd_mod dvd_diff) auto
  ultimately have "4096 dvd uint (pg - a)" by simp
  then have "uint (pg - a) mod 4096 = 0" by (rule dvd_imp_mod_0)
  moreover have "uint (pg - a) mod 4096 = uint (pg - a)" using lt by (intro mod_pos_pos_trivial) simp_all
  ultimately have "uint (pg - a) = 0" by simp
  then have "pg - a = 0" by (simp add: unsigned_eq_0_iff)
  then show "pg = a" by simp
qed simp

lemma set_protect_honest:
  assumes "honest_mprotect os" and "take_bit 3 addr = 0"
  shows "xh_util_set_addr_protect os addr pr p = (0, p\<lparr>prots := (prots p)(PAGE_START addr := pr)\<rparr>)"
proof -
  have "(\<lambda>pg. if page_aligned pg \<and> pg - PAGE_START addr < 4096 then pr else prots p pg) = (prots p)(PAGE_START addr := pr)"
    by (rule ext) (auto simp: only_page)
  then show ?thesis
    using assms by (simp add: xh_util_set_addr_protect_def honest_mprotect_def page_cover)
qed

section \<open>Replacing a slot\<close>

text \<open>The state after a successful replacement.\<close>

definition replaced :: "u64 \<Rightarrow> u64 \<Rightarrow> u64 \<Rightarrow> u64 \<Rightarrow> process \<Rightarrow> process" where
  "replaced addr new_func old_func old_addr p = p\<lparr>cells := write_bytes addr (map Some (le64 new_func))
     (if old_func = 0 then cells p else write_bytes old_func (map Some (le64 old_addr)) (cells p))\<rparr>"

lemma rw_bits: "(PROT_READ OR PROT_WRITE) AND PROT_READ \<noteq> 0" "(PROT_READ OR PROT_WRITE) AND PROT_WRITE \<noteq> 0"
  by (simp_all add: PROT_READ_def PROT_WRITE_def)

text \<open>What a replacement needs: an aligned slot whose protection the maps file tells, and, if asked for,
  a writable cell for the old pointer.\<close>

definition slot_ok :: "xh_os \<Rightarrow> xh_elf_t \<Rightarrow> u64 \<Rightarrow> u64 \<Rightarrow> process \<Rightarrow> bool" where
  "slot_ok os self addr old_func p \<longleftrightarrow> take_bit 3 addr = 0 \<and>
     xh_util_get_addr_protect os p addr (pathname self) = (0, prots p (PAGE_START addr)) \<and>
     (old_func = 0 \<or> (\<forall>i<8. writable p (old_func + word_of_nat i)))"

lemma replace_function_step:
  assumes "honest_mprotect os" and "slot_ok os self addr old_func p" and "load64 p addr = Inr cur" and "cur \<noteq> new_func"
  shows "xh_elf_replace_function os self addr new_func old_func p = (Inr 0, replaced addr new_func old_func cur p)"
proof -
  define need where "need = PROT_READ OR PROT_WRITE"
  define old where "old = prots p (PAGE_START addr)"
  have al: "take_bit 3 addr = 0" and gp: "xh_util_get_addr_protect os p addr (pathname self) = (0, old)"
    and wo: "old_func \<noteq> 0 \<Longrightarrow> i < 8 \<Longrightarrow> writable p (old_func + word_of_nat i)" for i
    using assms(2) by (auto simp: slot_ok_def old_def)
  define p1 where "p1 = p\<lparr>prots := (prots p)(PAGE_START addr := need)\<rparr>"
  have p1: "(if old \<noteq> need then xh_util_set_addr_protect os addr need p else (0, p)) = (0, p1)"
    using set_protect_honest [OF assms(1) al] by (auto simp: p1_def old_def)
  have c: "i < 8 \<Longrightarrow> cells p (addr + word_of_nat i) = Some (le64 cur ! i)" for i
    using assms(3) by (simp add: load64_iff)
  have l1: "load64 p1 addr = Inr cur"
    using c slot_page [OF al] rw_bits unfolding load64_iff by (simp add: readable_def p1_def need_def)
  have w1: "writable p1 x" if "writable p x" for x
    using that rw_bits by (auto simp: writable_def p1_def need_def)
  define p2 where "p2 = (if old_func = 0 then p1 else p1\<lparr>cells := write_bytes old_func (map Some (le64 cur)) (cells p1)\<rparr>)"
  have s2: "(if old_func \<noteq> 0 then store64 old_func cur p1 else Inr p1) = Inr p2"
    using wo w1 by (auto simp: store64_def p2_def)
  have m2: "cells p2 x \<noteq> None" if "cells p x \<noteq> None" for x
    using that stored_mapped [of "cells p"] by (auto simp: p2_def p1_def)
  have "writable p2 (addr + word_of_nat i)" if "i < 8" for i
    using m2 [of "addr + word_of_nat i"] c [OF that] slot_page [OF al that] rw_bits
    by (simp add: writable_def) (simp add: p2_def p1_def need_def)
  then have s3: "store64 addr new_func p2 = Inr (p2\<lparr>cells := write_bytes addr (map Some (le64 new_func)) (cells p2)\<rparr>)"
    by (simp add: store64_def)
  have "xh_elf_replace_function os self addr new_func old_func p =
    (Inr 0, if old \<noteq> need then snd (xh_util_set_addr_protect os addr old
       (p2\<lparr>cells := write_bytes addr (map Some (le64 new_func)) (cells p2)\<rparr>))
     else p2\<lparr>cells := write_bytes addr (map Some (le64 new_func)) (cells p2)\<rparr>)"
    unfolding xh_elf_replace_function_def Let_def
    by (simp only: assms(3) sum.case assms(4) if_False gp prod.case need_def [symmetric] p1 l1 s2 s3
        simp_thms refl if_True)
  also have "\<dots> = (Inr 0, replaced addr new_func old_func cur p)"
    using set_protect_honest [OF assms(1) al]
    by (auto simp: replaced_def p2_def p1_def old_def fun_upd_idem)
  finally show ?thesis .
qed


section \<open>Tables of relocations\<close>

text \<open>The entry \<open>i\<close> of the plain table at \<open>tab\<close>, and its two fields.\<close>

definition entry_addr :: "xh_elf_t \<Rightarrow> u64 \<Rightarrow> nat \<Rightarrow> u64" where
  "entry_addr self tab i = tab + word_of_nat i * rel_size (is_use_rela self)"

definition entry_is :: "process \<Rightarrow> xh_elf_t \<Rightarrow> u64 \<Rightarrow> nat \<Rightarrow> u64 \<Rightarrow> u64 \<Rightarrow> bool" where
  "entry_is p self tab i off ri \<longleftrightarrow>
     load64 p (entry_addr self tab i) = Inr off \<and> load64 p (entry_addr self tab i + 8) = Inr ri"

lemma find_and_replace_entry:
  "entry_is p self tab i off ri \<Longrightarrow>
    xh_elf_find_and_replace_func os self is_plt new_func old_func symidx (entry_addr self tab i) p =
    replace_at os self is_plt new_func old_func symidx off ri p"
  by (simp add: entry_is_def xh_elf_find_and_replace_func_def)

lemma run_entries_skip:
  assumes "\<forall>a\<in>set as. f a p = (Inr (0, False), p)"
  shows "run_entries f (as @ bs) p = run_entries f bs p"
  using assms by (induction as) auto

lemma table_entries:
  assumes "unat sz = n * unat (rel_size (is_use_rela self))" and "unat tab + unat (sz :: u32) < 2 ^ 64"
  shows "plain_loop f (xh_elf_plain_reloc_iterator_init tab sz (is_use_rela self)) p =
    Some (run_entries f (map (\<lambda>i. entry_addr self tab (Suc i)) [0..<n]) p)"
proof -
  have "unat sz < 2 ^ 64" using assms(2) by simp
  then have "unat (ucast sz :: u64) = unat sz" by (simp add: unsigned_ucast_eq take_bit_nat_eq_self)
  then have "unat tab + n * unat (rel_size (is_use_rela self)) = unat (tab + ucast sz)"
    using assms by (simp add: unat_word_ariths)
  from plain_loop_runs [OF this] show ?thesis
    by (simp add: xh_elf_plain_reloc_iterator_init_def entries_eq entry_addr_def)
qed

lemma plt_entries:
  assumes "relplt self \<noteq> 0" and "unat (relplt_sz self) = n * unat (rel_size (is_use_rela self))"
    and "unat (relplt self) + unat (relplt_sz self) < 2 ^ 64"
  shows "hook_plt os self new_func old_func symidx p =
    Some (run_entries (xh_elf_find_and_replace_func os self True new_func old_func symidx)
      (map (\<lambda>i. entry_addr self (relplt self) (Suc i)) [0..<n]) p)"
  using table_entries [OF assms(2,3)] assms(1) by (simp add: hook_plt_def)

text \<open>The loop passes over the entries 1 to \<open>k\<close> of another symbol.\<close>

definition others :: "process \<Rightarrow> xh_elf_t \<Rightarrow> u32 \<Rightarrow> nat \<Rightarrow> bool" where
  "others p self symidx k \<longleftrightarrow> (\<forall>i. 1 \<le> i \<and> i \<le> k \<longrightarrow>
     (\<exists>off ri. entry_is p self (relplt self) i off ri \<and> \<not> rel_matches True symidx ri))"

lemma others_skip:
  assumes "others p self symidx k"
  shows "run_entries (xh_elf_find_and_replace_func os self True new_func old_func symidx)
      (map (\<lambda>i. entry_addr self (relplt self) (Suc i)) [0..<k] @ bs) p =
    run_entries (xh_elf_find_and_replace_func os self True new_func old_func symidx) bs p"
proof (rule run_entries_skip, rule ballI)
  fix a assume "a \<in> set (map (\<lambda>i. entry_addr self (relplt self) (Suc i)) [0..<k])"
  then obtain i where i: "i < k" "a = entry_addr self (relplt self) (Suc i)" by auto
  then obtain off ri where "entry_is p self (relplt self) (Suc i) off ri" "\<not> rel_matches True symidx ri"
    using assms [unfolded others_def, rule_format, of "Suc i"] by auto
  then show "xh_elf_find_and_replace_func os self True new_func old_func symidx a p = (Inr (0, False), p)"
    by (simp add: i(2) find_and_replace_entry replace_at_def)
qed

lemma plt_hooked:
  assumes "relplt self \<noteq> 0" and "unat (relplt_sz self) = n * unat (rel_size (is_use_rela self))"
    and "unat (relplt self) + unat (relplt_sz self) < 2 ^ 64"
    and "others p self symidx k" and "k < n" and "entry_is p self (relplt self) (Suc k) off ri" and "rel_matches True symidx ri"
    and "base_addr self \<le> bias_addr self + off"
    and "xh_elf_replace_function os self (bias_addr self + off) new_func old_func p = (Inr 0, p')"
  shows "hook_plt os self new_func old_func symidx p = Some (Inr 0, p')"
proof -
  have "[0..<n] = [0..<k] @ k # [Suc k..<n]"
    using assms(5) by (metis le0 le_add_same_cancel1 less_imp_le_nat upt_add_eq_append upt_conv_Cons
        add_diff_inverse_nat not_less)
  then have "map (\<lambda>i. entry_addr self (relplt self) (Suc i)) [0..<n] =
    map (\<lambda>i. entry_addr self (relplt self) (Suc i)) [0..<k] @
      entry_addr self (relplt self) (Suc k) # map (\<lambda>i. entry_addr self (relplt self) (Suc i)) [Suc k..<n]" by simp
  then have "hook_plt os self new_func old_func symidx p =
    Some (run_entries (xh_elf_find_and_replace_func os self True new_func old_func symidx)
      (entry_addr self (relplt self) (Suc k) # map (\<lambda>i. entry_addr self (relplt self) (Suc i)) [Suc k..<n]) p)"
    using plt_entries [OF assms(1-3)] others_skip [OF assms(4)] by simp
  moreover have "xh_elf_find_and_replace_func os self True new_func old_func symidx (entry_addr self (relplt self) (Suc k)) p =
      (Inr (0, True), p')"
    using assms(7-9) by (simp add: find_and_replace_entry [OF assms(6)] replace_at_def leD)
  ultimately show ?thesis by simp
qed

text \<open>The other two tables, as they are before the hook, have no relocation for the symbol: a table is absent, or
  it lies apart from the bytes \<open>W\<close>, can be read, and none of the entries that are visited is of a matching type and for the symbol.
  Of the plain table the entries 1 to \<open>n\<close> are visited, one behind its end.\<close>

definition dyn_others :: "process \<Rightarrow> xh_elf_t \<Rightarrow> u32 \<Rightarrow> u64 set \<Rightarrow> bool" where
  "dyn_others p self symidx W \<longleftrightarrow> reldyn self = 0 \<or>
     (\<exists>n. unat (reldyn_sz self) = n * unat (rel_size (is_use_rela self)) \<and>
        unat (reldyn self) + unat (reldyn_sz self) < 2 ^ 64 \<and>
        (\<forall>i. 1 \<le> i \<and> i \<le> n \<longrightarrow> region (entry_addr self (reldyn self) i) 16 \<inter> W = {} \<and>
          (\<exists>off ri. entry_is p self (reldyn self) i off ri \<and> \<not> rel_matches False symidx ri)))"

definition android_others :: "process \<Rightarrow> xh_elf_t \<Rightarrow> u32 \<Rightarrow> u64 set \<Rightarrow> bool" where
  "android_others p self symidx W \<longleftrightarrow> relandroid self = 0 \<or> is_use_rela self \<and>
     (\<exists>off gs. let bs = enc (enc_table off gs) in
        holds p (relandroid self) bs \<and> region (relandroid self) (length bs) \<inter> W = {} \<and>
        unat (relandroid self) + length bs < 2 ^ 64 \<and> unat (relandroid_sz self) = length bs \<and>
        groups_ok off gs \<and> length (concat (map snd gs)) < 2 ^ 64 \<and>
        (\<forall>r\<in>set (concat (map snd gs)). \<not> rel_matches False symidx (r_info r)))"

text \<open>Only the bytes \<open>W\<close> differ, and what could be read still can.\<close>

definition differs_in :: "u64 set \<Rightarrow> process \<Rightarrow> process \<Rightarrow> bool" where
  "differs_in W p p' \<longleftrightarrow> (\<forall>x. readable p x \<longrightarrow> readable p' x) \<and> (\<forall>x. x \<notin> W \<longrightarrow> cells p' x = cells p x)"

lemma load64_differs:
  assumes "differs_in W p p'" and "\<forall>i<8. a + word_of_nat i \<notin> W" and "load64 p a = Inr w"
  shows "load64 p' a = Inr w"
  using assms unfolding load64_iff differs_in_def by auto

lemma entry_differs:
  assumes "differs_in W p p'" and "region (entry_addr self tab i) 16 \<inter> W = {}" and "entry_is p self tab i off ri"
  shows "entry_is p' self tab i off ri"
proof -
  have out: "entry_addr self tab i + word_of_nat k \<notin> W" if "k < 16" for k
    using assms(2) region_memI [OF that, of "entry_addr self tab i"] by blast
  have "entry_addr self tab i + 8 + word_of_nat k \<notin> W" if "k < 8" for k
    using out [of "8 + k"] that by (simp add: algebra_simps)
  then show ?thesis using assms(3) out load64_differs [OF assms(1)] by (simp add: entry_is_def)
qed

lemma holds_differs:
  assumes "differs_in W p p'" and "holds p a bs" and "\<forall>k<length bs. a + word_of_nat k \<notin> W"
  shows "holds p' a bs"
  using assms(2,3)
proof (induction bs arbitrary: a)
  case (Cons b bs)
  have "a \<notin> W" using Cons.prems(2) by force
  then have "load8 p' a = Inr b" using Cons.prems(1) assms(1) by (auto simp: load8_def differs_in_def split: if_splits option.splits)
  moreover have "a + 1 + word_of_nat k \<notin> W" if "k < length bs" for k
    using Cons.prems(2) [rule_format, of "Suc k"] that by (simp add: algebra_simps)
  ultimately show ?case using Cons by simp
qed simp

lemma dyn_unmatched:
  assumes "dyn_others p self symidx W" and "differs_in W p p'"
  shows "hook_dyn os self new_func old_func symidx p' = Some (Inr 0, p')"
proof (cases "reldyn self = 0")
  case True
  then show ?thesis by (simp add: hook_dyn_def)
next
  case False
  with assms(1) obtain n where n: "unat (reldyn_sz self) = n * unat (rel_size (is_use_rela self))"
    "unat (reldyn self) + unat (reldyn_sz self) < 2 ^ 64"
    and e: "\<forall>i. 1 \<le> i \<and> i \<le> n \<longrightarrow> region (entry_addr self (reldyn self) i) 16 \<inter> W = {} \<and>
      (\<exists>off ri. entry_is p self (reldyn self) i off ri \<and> \<not> rel_matches False symidx ri)"
    unfolding dyn_others_def by blast
  let ?f = "\<lambda>rel p. no_stop (xh_elf_find_and_replace_func os self False new_func old_func symidx rel p)"
  have "?f (entry_addr self (reldyn self) (Suc i)) p' = (Inr (0, False), p')" if "i < n" for i
  proof -
    have "1 \<le> Suc i \<and> Suc i \<le> n" using that by simp
    with e obtain off ri where "entry_is p self (reldyn self) (Suc i) off ri" and m: "\<not> rel_matches False symidx ri"
      and "region (entry_addr self (reldyn self) (Suc i)) 16 \<inter> W = {}" by blast
    then have "entry_is p' self (reldyn self) (Suc i) off ri" using entry_differs [OF assms(2)] by blast
    then show ?thesis using m by (simp add: find_and_replace_entry replace_at_def no_stop_def)
  qed
  then have "run_entries ?f (map (\<lambda>i. entry_addr self (reldyn self) (Suc i)) [0..<n] @ []) p' = (Inr 0, p')"
    by (subst run_entries_skip) auto
  then show ?thesis using table_entries [OF n, of ?f p'] False by (simp add: hook_dyn_def)
qed

lemma run_relocs_skip: "\<forall>r\<in>set rs. f r p = (Inr 0, p) \<Longrightarrow> run_relocs f rs p = (Inr 0, p)"
  by (induction rs) auto

lemma android_unmatched:
  assumes "android_others p self symidx W" and "differs_in W p p'"
  shows "hook_android os self new_func old_func symidx p' = Some (Inr 0, p')"
proof (cases "relandroid self = 0")
  case True
  then show ?thesis by (simp add: hook_android_def)
next
  case False
  with assms(1) obtain off gs where rela: "is_use_rela self"
    and h: "holds p (relandroid self) (enc (enc_table off gs))" "region (relandroid self) (length (enc (enc_table off gs))) \<inter> W = {}"
    and t: "unat (relandroid self) + length (enc (enc_table off gs)) < 2 ^ 64"
      "unat (relandroid_sz self) = length (enc (enc_table off gs))" "groups_ok off gs" "length (concat (map snd gs)) < 2 ^ 64"
    and m: "\<forall>r\<in>set (concat (map snd gs)). \<not> rel_matches False symidx (r_info r)"
    unfolding android_others_def Let_def by blast
  let ?f = "\<lambda>rel p. code_of (replace_at os self False new_func old_func symidx (r_offset rel) (r_info rel) p)"
  have "\<forall>k<length (enc (enc_table off gs)). relandroid self + word_of_nat k \<notin> W" using h(2) region_memI by blast
  from holds_differs [OF assms(2) h(1) this] have h': "holds p' (relandroid self) (enc (enc_table off gs))" .
  have f: "?f r p' = (Inr 0, p')" if "r \<in> set (concat (map snd gs))" for r
  proof -
    have "\<not> rel_matches False symidx (r_info r)" using m that by blast
    then show ?thesis by (simp add: replace_at_def code_of_def)
  qed
  obtain it where "xh_elf_packed_reloc_iterator_init p' (relandroid self) (relandroid_sz self) True = (Inr 0, it)"
    "packed_loop ?f it p' = run_relocs ?f (concat (map snd gs)) p'"
    using packed_table_runs [where I = "\<lambda>q. q = p'" and p = p' and f = ?f and rel = "relandroid self" and rel_sz = "relandroid_sz self"
        and off = off and gs = gs] h' t f by auto
  then show ?thesis using run_relocs_skip [of "concat (map snd gs)" ?f p'] f rela False by (simp add: hook_android_def)
qed

lemma hook_plt_found:
  assumes "pathname self \<noteq> None" and "new_func \<noteq> 0" and "xh_elf_find_symidx_by_name p self symbol = Some (Inr (Some symidx))"
    and "hook_plt os self new_func old_func symidx p = Some (Inr 0, p')" and "differs_in W p p'"
    and "dyn_others p self symidx W" and "android_others p self symidx W"
  shows "xh_elf_hook os self (Some symbol) new_func old_func p = Some (Inr 0, p')"
  using assms(1-4) dyn_unmatched [OF assms(6,5)] android_unmatched [OF assms(7,5)]
  by (auto simp: xh_elf_hook_def hook_then_def)

lemma hook_plt_only:
  assumes "pathname self \<noteq> None" and "new_func \<noteq> 0" and "xh_elf_find_symidx_by_name p self symbol = Some (Inr (Some symidx))"
    and "reldyn self = 0" and "relandroid self = 0" and "hook_plt os self new_func old_func symidx p = Some (Inr 0, p')"
  shows "xh_elf_hook os self (Some symbol) new_func old_func p = Some (Inr 0, p')"
  using assms by (auto simp: xh_elf_hook_def hook_then_def hook_dyn_def hook_android_def)

section \<open>Initialisation\<close>

text \<open>What the dynamic section may have left behind: every table lies at or above the base.\<close>

definition above :: "u64 \<Rightarrow> u64 \<Rightarrow> bool" where
  "above base a \<longleftrightarrow> a = 0 \<or> base \<le> a"

text \<open>The hash table is described as its header says: a header at or above the base, with the numbers of the state, and the
  parts of the table at the places that follow from them.\<close>

definition hash_read :: "process \<Rightarrow> u64 \<Rightarrow> xh_elf_t \<Rightarrow> bool" where
  "hash_read p base self \<longleftrightarrow> (\<exists>raw. base \<le> raw \<and> load32 p raw = Inr (bucket_cnt self) \<and>
     (if is_use_gnu_hash self
      then load32 p (raw + 4) = Inr (symoffset self) \<and> load32 p (raw + 8) = Inr (bloom_sz self) \<and>
        load32 p (raw + 12) = Inr (bloom_shift self) \<and> bloom self = raw + 16 \<and>
        bucket self = bloom self + ucast (bloom_sz self) * 8 \<and> hchain self = bucket self + ucast (bucket_cnt self) * 4
      else load32 p (raw + 4) = Inr (chain_cnt self) \<and> bucket self = raw + 8 \<and>
        hchain self = bucket self + ucast (bucket_cnt self) * 4))"

definition elf_inv :: "process \<Rightarrow> u64 \<Rightarrow> string option \<Rightarrow> xh_elf_t \<Rightarrow> bool" where
  "elf_inv p base path self \<longleftrightarrow> (bucket self = 0 \<and> \<not> is_use_gnu_hash self \<or> hash_read p base self) \<and> base_addr self = base \<and> ehdr self = base \<and> pathname self = path \<and> bias_addr self \<le> base \<and>
     above base (strtab self) \<and> above base (symtab self) \<and> above base (relplt self) \<and> above base (reldyn self) \<and>
     above base (relandroid self)"

definition keeps_inv :: "process \<Rightarrow> u64 \<Rightarrow> string option \<Rightarrow> int res \<times> xh_elf_t \<Rightarrow> bool" where
  "keeps_inv p base path x \<longleftrightarrow> (fst x = Inr 0 \<longrightarrow> elf_inv p base path (snd x))"

named_theorems keeps_intros

lemma keeps_if [keeps_intros]:
  "(c \<Longrightarrow> keeps_inv p base path x) \<Longrightarrow> (\<not> c \<Longrightarrow> keeps_inv p base path y) \<Longrightarrow> keeps_inv p base path (if c then x else y)"
  by simp

lemma keeps_error [keeps_intros]: "keeps_inv p base path (Inr XH_ERRNO_FORMAT, self)" "keeps_inv p base path (Inl e, self)"
  by (simp_all add: keeps_inv_def xh_errno_defs)

text \<open>Everything but the hash table can change without touching what is known of it.\<close>

lemma hash_read_upd [simp]:
  "hash_read p base (self\<lparr>strtab := a\<rparr>) = hash_read p base self" "hash_read p base (self\<lparr>symtab := a\<rparr>) = hash_read p base self"
  "hash_read p base (self\<lparr>relplt := a\<rparr>) = hash_read p base self" "hash_read p base (self\<lparr>reldyn := a\<rparr>) = hash_read p base self"
  "hash_read p base (self\<lparr>relandroid := a\<rparr>) = hash_read p base self" "hash_read p base (self\<lparr>is_use_rela := b\<rparr>) = hash_read p base self"
  "hash_read p base (self\<lparr>relplt_sz := x\<rparr>) = hash_read p base self" "hash_read p base (self\<lparr>reldyn_sz := x\<rparr>) = hash_read p base self"
  "hash_read p base (self\<lparr>relandroid_sz := x\<rparr>) = hash_read p base self"
  "hash_read p base (self\<lparr>dyn := a, dyn_sz := x\<rparr>) = hash_read p base self"
  by (simp_all add: hash_read_def)

lemma elf_inv_upd:
  assumes "elf_inv p base path self"
  shows "above base a \<Longrightarrow> elf_inv p base path (self\<lparr>strtab := a\<rparr>)" "above base a \<Longrightarrow> elf_inv p base path (self\<lparr>symtab := a\<rparr>)"
    "above base a \<Longrightarrow> elf_inv p base path (self\<lparr>relplt := a\<rparr>)" "above base a \<Longrightarrow> elf_inv p base path (self\<lparr>reldyn := a\<rparr>)"
    "above base a \<Longrightarrow> elf_inv p base path (self\<lparr>relandroid := a\<rparr>)"
    "elf_inv p base path (self\<lparr>is_use_rela := b\<rparr>)" "elf_inv p base path (self\<lparr>relplt_sz := x\<rparr>)"
    "elf_inv p base path (self\<lparr>reldyn_sz := x\<rparr>)" "elf_inv p base path (self\<lparr>relandroid_sz := x\<rparr>)"
    "elf_inv p base path (self\<lparr>dyn := a, dyn_sz := x\<rparr>)"
  using assms by (simp_all add: elf_inv_def)

lemma keeps_ptr [keeps_intros]:
  assumes "elf_inv p base path self"
  shows "keeps_inv p base path (set_ptr (\<lambda>a s. s\<lparr>strtab := a\<rparr>) v self)"
    "keeps_inv p base path (set_ptr (\<lambda>a s. s\<lparr>symtab := a\<rparr>) v self)"
    "keeps_inv p base path (set_ptr (\<lambda>a s. s\<lparr>relplt := a\<rparr>) v self)"
    "keeps_inv p base path (set_ptr (\<lambda>a s. s\<lparr>reldyn := a\<rparr>) v self)"
    "keeps_inv p base path (set_ptr (\<lambda>a s. s\<lparr>relandroid := a\<rparr>) v self)"
proof -
  have "base_addr self = base" using assms by (simp add: elf_inv_def)
  then show "keeps_inv p base path (set_ptr (\<lambda>a s. s\<lparr>strtab := a\<rparr>) v self)"
    "keeps_inv p base path (set_ptr (\<lambda>a s. s\<lparr>symtab := a\<rparr>) v self)"
    "keeps_inv p base path (set_ptr (\<lambda>a s. s\<lparr>relplt := a\<rparr>) v self)"
    "keeps_inv p base path (set_ptr (\<lambda>a s. s\<lparr>reldyn := a\<rparr>) v self)"
    "keeps_inv p base path (set_ptr (\<lambda>a s. s\<lparr>relandroid := a\<rparr>) v self)"
    using elf_inv_upd [OF assms] by (simp_all add: keeps_inv_def set_ptr_def Let_def above_def xh_errno_defs not_less)
qed

lemma keeps_hash [keeps_intros]:
  assumes "elf_inv p base path self" and "base \<le> raw"
  shows "\<not> is_use_gnu_hash self \<Longrightarrow> keeps_inv p base path (read_hash p raw self)" "keeps_inv p base path (read_gnu_hash p raw self)"
  using assms by (auto simp: keeps_inv_def read_hash_def read_gnu_hash_def elf_inv_def hash_read_def res_bind_Inr_iff split: sum.splits)

lemma keeps_upd [keeps_intros]:
  assumes "elf_inv p base path self"
  shows "keeps_inv p base path (Inr 0, self)" "keeps_inv p base path (Inr 0, self\<lparr>is_use_rela := b\<rparr>)"
    "keeps_inv p base path (Inr 0, self\<lparr>relplt_sz := x\<rparr>)" "keeps_inv p base path (Inr 0, self\<lparr>reldyn_sz := x\<rparr>)"
    "keeps_inv p base path (Inr 0, self\<lparr>relandroid_sz := x\<rparr>)"
  using assms elf_inv_upd [OF assms] by (simp_all add: keeps_inv_def)

lemma dyn_entry_inv:
  assumes "elf_inv p base path self" and "uses_value t self"
  shows "keeps_inv p base path (dyn_entry p t v self)"
proof -
  have "base_addr self = base" using assms(1) by (simp add: elf_inv_def)
  moreover have "t = DT_HASH \<Longrightarrow> \<not> is_use_gnu_hash self" using assms(2) by (auto simp: uses_value_def dt_defs)
  ultimately show ?thesis
    unfolding dyn_entry_def Let_def by (intro keeps_intros assms(1)) (simp_all add: not_less)
qed

lemma dyn_loop_inv: "elf_inv p base path self \<Longrightarrow> keeps_inv p base path (dyn_loop p d n self)"
proof (induction n arbitrary: d self)
  case 0
  then show ?case by (simp add: keeps_upd)
next
  case (Suc n)
  have "elf_inv p base path self'" if "dyn_entry p t v self = (Inr 0, self')" "uses_value t self" for t v self'
    using dyn_entry_inv [OF Suc.prems, of t v] that by (simp add: keeps_inv_def)
  then show ?case using Suc.IH Suc.prems keeps_upd(1) [OF Suc.prems]
    by (auto simp: keeps_error Let_def split: sum.split prod.split) (simp add: keeps_inv_def)
qed

lemma init_dyn_inv:
  assumes "elf_inv p base path self"
  shows "keeps_inv p base path (init_dyn p self)"
  using elf_inv_upd(10) [OF assms]
  by (auto simp: init_dyn_def Let_def keeps_error dyn_loop_inv split: sum.split option.split)


section \<open>A sample address space\<close>

text \<open>Mapped everywhere, zero but for some 64-bit words at aligned addresses; the pages are readable and writable.\<close>

definition word_map :: "(u64 \<times> u64) list \<Rightarrow> u64 \<Rightarrow> u64" where
  "word_map ws a = (case map_of ws a of None \<Rightarrow> 0 | Some w \<Rightarrow> w)"

definition sparse :: "(u64 \<times> u64) list \<Rightarrow> process" where
  "sparse ws = \<lparr>cells = \<lambda>x. Some (ucast (drop_bit (8 * unat (x AND 7)) (word_map ws (x AND NOT 7)))),
     prots = \<lambda>_. PROT_READ OR PROT_WRITE\<rparr>"

lemma readable_sparse [simp]: "readable (sparse ws) a" and writable_sparse [simp]: "writable (sparse ws) a"
  using rw_bits by (simp_all add: readable_def writable_def sparse_def)

lemma load8_sparse: "load8 (sparse ws) a = Inr (ucast (drop_bit (8 * unat (a AND 7)) (word_map ws (a AND NOT 7))))"
  by (simp add: load8_def) (simp add: sparse_def)

lemma aligned_parts:
  assumes "take_bit 3 a = (0 :: u64)" and "i < 8"
  shows "(a + word_of_nat i) AND 7 = word_of_nat i" "(a + word_of_nat i) AND NOT 7 = a"
proof -
  have m: "(7 :: u64) = mask 3" by (simp add: mask_eq_exp_minus_1)
  have lo: "\<not> bit a n" if "n < 3" for n using assms(1) that by (metis bit_0_eq bit_take_bit_iff bot_apply bot_bool_def)
  have lo': "3 \<le> n" if "bit a n" for n using lo that not_less by blast
  have "take_bit 3 i = i" using assms(2) by (simp add: take_bit_nat_eq_self)
  then have "take_bit 3 (word_of_nat i :: u64) = word_of_nat i" by (simp flip: of_nat_take_bit)
  then have hi: "n < 3" if "bit (word_of_nat i :: u64) n" for n using that by (metis bit_take_bit_iff)
  have "a AND word_of_nat i = 0" by (rule bit_word_eqI) (auto simp: bit_and_iff dest: lo hi)
  then have o: "a + word_of_nat i = a OR word_of_nat i" by (rule disjunctive_add_eq_or)
  show "(a + word_of_nat i) AND 7 = word_of_nat i"
    unfolding o m by (rule bit_word_eqI) (auto simp: bit_and_iff bit_or_iff bit_mask_iff dest: lo hi)
  show "(a + word_of_nat i) AND NOT 7 = a"
    unfolding o m by (rule bit_word_eqI) (auto simp: bit_and_iff bit_or_iff bit_not_iff bit_mask_iff not_less dest: hi lo' )
qed

lemma load64_sparse:
  assumes "take_bit 3 a = 0"
  shows "load64 (sparse ws) a = Inr (word_map ws a)"
proof -
  have "cells (sparse ws) (a + word_of_nat i) = Some (le64 (word_map ws a) ! i)" if "i < 8" for i
  proof -
    have "unat (word_of_nat i :: u64) = i" using that by (simp add: unat_of_nat)
    then show ?thesis using aligned_parts [OF assms that] that by (simp add: sparse_def le64_def)
  qed
  then show ?thesis by (simp add: load64_iff)
qed

lemma load_bytes_sparse:
  assumes "take_bit 3 a = 0" and "k + n \<le> 8"
  shows "load_bytes (sparse ws) (a + word_of_nat k) n = Inr (map (\<lambda>i. ucast (drop_bit (8 * (k + i)) (word_map ws a))) [0..<n])"
proof -
  have "cells (sparse ws) (a + word_of_nat k + word_of_nat i) = Some (ucast (drop_bit (8 * (k + i)) (word_map ws a)))" if "i < n" for i
  proof -
    have "unat (word_of_nat (k + i) :: u64) = k + i"
      using that assms(2) by (simp add: unat_of_nat del: of_nat_add)
    then show ?thesis using aligned_parts [OF assms(1), of "k + i"] that assms(2) by (simp add: sparse_def add.assoc)
  qed
  then show ?thesis by (simp add: load_bytes_iff)
qed

lemma part_word:
  assumes "LENGTH('a::len) \<le> 8 * n"
  shows "(le_word (map (\<lambda>i. ucast (drop_bit (8 * (k + i)) (w :: u64))) [0..<n]) :: 'a word) = ucast (drop_bit (8 * k) w)"
proof (rule bit_word_eqI)
  fix j assume j: "j < LENGTH('a)"
  then have "j div 8 < n" using assms by (simp add: less_mult_imp_div_less mult.commute)
  moreover have "8 * (k + j div 8) + j mod 8 = 8 * k + j" by (simp add: algebra_simps)
  ultimately show "bit (le_word (map (\<lambda>i. ucast (drop_bit (8 * (k + i)) w)) [0..<n]) :: 'a word) j =
      bit (ucast (drop_bit (8 * k) w) :: 'a word) j"
    using j mod_less_divisor [of "LENGTH(8)" j] by (auto simp: bit_le_word bit_simps add.commute)
qed

lemma load32_sparse:
  "take_bit 3 a = 0 \<Longrightarrow> load32 (sparse ws) a = Inr (ucast (word_map ws a))"
  "take_bit 3 (a - 4) = 0 \<Longrightarrow> load32 (sparse ws) a = Inr (ucast (drop_bit 32 (word_map ws (a - 4))))"
  using load_bytes_sparse [of a 0 4 ws] load_bytes_sparse [of "a - 4" 4 4 ws]
  by (simp_all add: load32_def part_word [where k = 0, simplified] part_word [where k = 4, simplified])

lemma load16_sparse:
  "take_bit 3 a = 0 \<Longrightarrow> load16 (sparse ws) a = Inr (ucast (word_map ws a))"
  "take_bit 3 (a - 2) = 0 \<Longrightarrow> load16 (sparse ws) a = Inr (ucast (drop_bit 16 (word_map ws (a - 2))))"
  using load_bytes_sparse [of a 0 2 ws] load_bytes_sparse [of "a - 2" 2 2 ws]
  by (simp_all add: load16_def part_word [where k = 0, simplified] part_word [where k = 2, simplified])

lemmas sparse_loads = load8_sparse load16_sparse load32_sparse load64_sparse


section \<open>A sample library\<close>

text \<open>
  A small shared library at \<open>0x10000\<close>: two program headers, a dynamic section with string table, symbol
  table, two PLT relocations (for symbols 2 and 1) and an ELF hash table; symbol 1 is \<open>malloc\<close>, and its
  slot at \<open>0x10708\<close> holds \<open>0xAAAA0000\<close>. The words at \<open>0x10818\<close> and \<open>0x10900\<close> are tables of relocations that
  its dynamic section does not mention.
\<close>

definition sample_words :: "(u64 \<times> u64) list" where
  "sample_words =
     [(0x10000, 0x00010102464C457F), (0x10010, 0x0000000100B70003), (0x10020, 0x40), (0x10038, 2),
      (0x10040, 1), (0x10078, 2), (0x10088, 0x200), (0x100A0, 0x70),
      (0x10200, 5), (0x10208, 0x300), (0x10210, 6), (0x10218, 0x400), (0x10220, 20), (0x10228, 7),
      (0x10230, 23), (0x10238, 0x500), (0x10240, 2), (0x10248, 48), (0x10250, 4), (0x10258, 0x600),
      (0x10308, 0x0000636F6C6C616D), (0x10418, 8),
      (0x10500, 0x700), (0x10508, 0x0000000200000402), (0x10518, 0x708), (0x10520, 0x0000000100000402),
      (0x10600, 0x0000000300000001), (0x10608, 1), (0x10708, 0xAAAA0000),
      (0x10818, 0x7F8), (0x10820, 0x0000000200000401), (0x10900, 0x8100D000010E8001), (0x10908, 0x20808088)]"

definition sample_lib :: process where
  "sample_lib = sparse sample_words"

definition sample_malloc :: "u8 list" where
  "sample_malloc = [0x6D, 0x61, 0x6C, 0x6C, 0x6F, 0x63]"

definition sample_elf :: xh_elf_t where
  "sample_elf = zero_elf\<lparr>pathname := Some ''/l.so'', base_addr := 0x10000, bias_addr := 0x10000, ehdr := 0x10000,
     phdr := 0x10040, dyn := 0x10200, dyn_sz := 0x70, strtab := 0x10300, symtab := 0x10400, relplt := 0x10500,
     relplt_sz := 48, bucket := 0x10608, bucket_cnt := 1, hchain := 0x1060C, chain_cnt := 3, is_use_rela := True\<rparr>"

lemma segment_numeral:
  "segment_by_type p ty ph (numeral k) = segment_by_type p ty ph (Suc (pred_numeral k))"
  "segment_by_type_offset p ty off ph (numeral k) = segment_by_type_offset p ty off ph (Suc (pred_numeral k))"
  by (simp_all add: numeral_eq_Suc)

lemmas sample_loads = sparse_loads [where ws = sample_words, folded sample_lib_def]

lemma sample_header: "xh_elf_check_elfheader sample_lib 0x10000 = Inr 0"
  by (simp add: xh_elf_check_elfheader_def sample_loads word_map_def sample_words_def)

lemma sample_init_bias: "init_bias sample_lib (zero_elf\<lparr>pathname := path, base_addr := 0x10000, ehdr := 0x10000, phdr := 0x10040\<rparr>) =
    (Inr 0, zero_elf\<lparr>pathname := path, base_addr := 0x10000, ehdr := 0x10000, phdr := 0x10040, bias_addr := 0x10000\<rparr>)"
  by (simp add: init_bias_def xh_elf_get_first_segment_by_type_offset_def segment_numeral sample_loads word_map_def sample_words_def
      PT_LOAD_def)

definition sample_elf0 :: xh_elf_t where
  "sample_elf0 = zero_elf\<lparr>pathname := Some ''/l.so'', base_addr := 0x10000, ehdr := 0x10000, phdr := 0x10040,
     bias_addr := 0x10000\<rparr>"

lemma sample_dyn:
  "load64 sample_lib 0x10200 = Inr 5" "load64 sample_lib 0x10208 = Inr 0x300" "load64 sample_lib 0x10210 = Inr 6"
  "load64 sample_lib 0x10218 = Inr 0x400" "load64 sample_lib 0x10220 = Inr 20" "load64 sample_lib 0x10228 = Inr 7"
  "load64 sample_lib 0x10230 = Inr 23" "load64 sample_lib 0x10238 = Inr 0x500" "load64 sample_lib 0x10240 = Inr 2"
  "load64 sample_lib 0x10248 = Inr 48" "load64 sample_lib 0x10250 = Inr 4" "load64 sample_lib 0x10258 = Inr 0x600"
  "load64 sample_lib 0x10260 = Inr 0" "load32 sample_lib 0x10600 = Inr 1" "load32 sample_lib 0x10604 = Inr 3"
  "load64 sample_lib 0x10020 = Inr 0x40" "load64 sample_lib 0x10088 = Inr 0x200" "load64 sample_lib 0x100A0 = Inr 0x70"
  by (simp_all add: sample_loads word_map_def sample_words_def)

lemma sample_segment: "xh_elf_get_first_segment_by_type sample_lib sample_elf0 PT_DYNAMIC = Inr (Some 0x10078)"
  by (simp add: xh_elf_get_first_segment_by_type_def sample_elf0_def segment_numeral sample_loads word_map_def
      sample_words_def PT_DYNAMIC_def)

lemma dyn_step:
  assumes "load64 p d = Inr t" and "load64 p (d + 8) = Inr v" and "t \<noteq> DT_NULL" and "uses_value t self"
    and "dyn_entry p t v self = (Inr 0, self')"
  shows "dyn_loop p d (Suc n) self = dyn_loop p (d + 16) n self'"
  using assms by simp

lemma sample_init_dyn: "init_dyn sample_lib sample_elf0 = (Inr 0, sample_elf)"
proof -
  define s0 where "s0 = sample_elf0\<lparr>dyn := 0x10200, dyn_sz := 0x70\<rparr>"
  define s1 where "s1 = s0\<lparr>strtab := 0x10300\<rparr>"
  define s2 where "s2 = s1\<lparr>symtab := 0x10400\<rparr>"
  define s3 where "s3 = s2\<lparr>is_use_rela := True\<rparr>"
  define s4 where "s4 = s3\<lparr>relplt := 0x10500\<rparr>"
  define s5 where "s5 = s4\<lparr>relplt_sz := 48\<rparr>"
  have b: "bias_addr s0 = 0x10000" "base_addr s0 = 0x10000" "is_use_gnu_hash s0 = False"
    "bias_addr s1 = 0x10000" "base_addr s1 = 0x10000" "bias_addr s3 = 0x10000" "base_addr s3 = 0x10000"
    "bias_addr s5 = 0x10000" "base_addr s5 = 0x10000" "is_use_gnu_hash s5 = False"
    by (simp_all add: s0_def s1_def s2_def s3_def s4_def s5_def sample_elf0_def zero_elf_def)
  have "init_dyn sample_lib sample_elf0 = dyn_loop sample_lib 0x10200 7 s0"
    by (simp add: init_dyn_def sample_segment sample_dyn Let_def) (simp add: s0_def sample_elf0_def)
  also have "\<dots> = dyn_loop sample_lib 0x10210 6 s1"
    using dyn_step [of sample_lib "0x10200" 5 "0x300" s0 s1 6]
    by (simp add: sample_dyn dyn_entry_def set_ptr_def uses_value_def dt_defs Let_def b) (simp add: s1_def)
  also have "\<dots> = dyn_loop sample_lib 0x10220 5 s2"
    using dyn_step [of sample_lib "0x10210" 6 "0x400" s1 s2 5]
    by (simp add: sample_dyn dyn_entry_def set_ptr_def uses_value_def dt_defs Let_def b) (simp add: s2_def)
  also have "\<dots> = dyn_loop sample_lib 0x10230 4 s3"
    using dyn_step [of sample_lib "0x10220" 20 7 s2 s3 4]
    by (simp add: sample_dyn dyn_entry_def uses_value_def dt_defs) (simp add: s3_def)
  also have "\<dots> = dyn_loop sample_lib 0x10240 3 s4"
    using dyn_step [of sample_lib "0x10230" 23 "0x500" s3 s4 3]
    by (simp add: sample_dyn dyn_entry_def set_ptr_def uses_value_def dt_defs Let_def b) (simp add: s4_def)
  also have "\<dots> = dyn_loop sample_lib 0x10250 2 s5"
    using dyn_step [of sample_lib "0x10240" 2 48 s4 s5 2]
    by (simp add: sample_dyn dyn_entry_def uses_value_def dt_defs) (simp add: s5_def)
  also have "\<dots> = dyn_loop sample_lib 0x10260 1 sample_elf"
  proof -
    have "dyn_entry sample_lib 4 0x600 s5 = (Inr 0, sample_elf)"
      by (simp add: dyn_entry_def read_hash_def sample_dyn dt_defs Let_def b)
        (simp add: s0_def s1_def s2_def s3_def s4_def s5_def sample_elf_def sample_elf0_def zero_elf_def)
    then show ?thesis using dyn_step [of sample_lib "0x10250" 4 "0x600" s5 sample_elf 1, unfolded Suc_1]
      by (simp add: sample_dyn uses_value_def dt_defs b)
  qed
  also have "\<dots> = (Inr 0, sample_elf)" by (simp add: sample_dyn dt_defs)
  finally show ?thesis .
qed

lemma sample_init: "xh_elf_init sample_lib zero_elf 0x10000 (Some ''/l.so'') = (Inr 0, sample_elf)"
proof -
  have "init_bias sample_lib (zero_elf\<lparr>pathname := Some ''/l.so'', base_addr := 0x10000, ehdr := 0x10000, phdr := 0x10040\<rparr>) =
      (Inr 0, sample_elf0)"
    unfolding sample_elf0_def by (rule sample_init_bias)
  moreover have "check_android sample_lib sample_elf = (Inr 0, sample_elf)" "xh_elf_check sample_elf = 0"
    by (simp_all add: check_android_def xh_elf_check_def sample_elf_def zero_elf_def)
  ultimately show ?thesis using sample_init_dyn by (simp add: xh_elf_init_def elf_then_def sample_dyn)
qed

lemma sample_names:
  "sym_name sample_lib sample_elf 1 = Inr 0x10308" "strcmp_at sample_lib sample_malloc 0x10308 = Inr True"
  "word_at sample_lib (bucket sample_elf) 0 = Inr 1" "word_at sample_lib (hchain sample_elf) 1 = Inr 0"
  by (simp_all add: sym_name_def word_at_def sample_malloc_def sample_elf_def zero_elf_def sample_loads word_map_def sample_words_def)

lemma sample_lookup: "xh_elf_find_symidx_by_name sample_lib sample_elf sample_malloc = Some (Inr (Some 1))"
proof -
  have "hash_chain sample_lib sample_elf sample_malloc 1 = Some (Inr (List.find (named sample_lib sample_elf sample_malloc) [1]))"
    by (rule hash_chain_finds) (auto simp: sample_names name_ok_def)
  moreover have "named sample_lib sample_elf sample_malloc 1" by (simp add: named_def sample_names)
  ultimately have "hash_chain sample_lib sample_elf sample_malloc 1 = Some (Inr (Some 1))" by simp
  then show ?thesis using sample_names(3)
    by (simp add: xh_elf_find_symidx_by_name_def xh_elf_hash_lookup_def sample_elf_def zero_elf_def)
qed

lemma sample_relocs:
  "entry_is sample_lib sample_elf 0x10500 0 0x700 0x0000000200000402"
  "entry_is sample_lib sample_elf 0x10500 1 0x708 0x0000000100000402"
  "entry_is sample_lib sample_elf 0x10500 2 0 0"
  by (simp_all add: entry_is_def entry_addr_def rel_size_def sample_elf_def zero_elf_def sample_loads word_map_def sample_words_def)

definition sample_map :: map_entry where
  "sample_map = \<lparr>e_start = 0x10000, e_end = 0x11000, e_width = 8, e_perm = ''rw-p'', e_rest = ''00000000 103:08 77 /l.so''\<rparr>"

definition sample_hook_os :: xh_os where
  "sample_hook_os = \<lparr>self_maps = \<lambda>_. Some (text_of (map print_entry [sample_map])), perm_junk = ''xxxxx'',
     os_mprotect = \<lambda>ps a n pr. (None, \<lambda>pg. if page_aligned pg \<and> pg - a < n then pr else ps pg)\<rparr>"

lemma sample_honest: "honest_mprotect sample_hook_os"
  by (simp add: honest_mprotect_def sample_hook_os_def)

lemma sample_slot_ok: "slot_ok sample_hook_os sample_elf 0x10708 0x20000 sample_lib"
proof -
  have ok: "entry_ok sample_map" by (simp add: sample_map_def entry_ok_def isspace_def)
  have "e_rest sample_map = take 19 (e_rest sample_map) @ ''/l.so''" by (simp add: sample_map_def)
  then have "strstr (line_of sample_map) ''/l.so''" by (rule line_has_path)
  then have r: "filter (relevant (Some ''/l.so'')) [sample_map] = [sample_map]"
    by (simp add: relevant_def) (simp add: sample_map_def)
  have c: "covered [sample_map] 0x10708 0x10710"
    by (auto simp: covered_def sample_map_def word_le_nat_alt word_less_nat_alt)
  have f: "common_prot [sample_map] 0x10708 0x10710 0 (CHR ''r'')" "common_prot [sample_map] 0x10708 0x10710 1 (CHR ''w'')"
    "\<not> common_prot [sample_map] 0x10708 0x10710 2 (CHR ''x'')"
    by (simp_all add: common_prot_def overlaps_def sample_map_def)
  have "xh_util_get_mem_protect sample_hook_os sample_lib 0x10708 8 (Some ''/l.so'') = (0, flags True True False)"
    using get_mem_protect_eq [of sample_hook_os sample_lib "[sample_map]" "0x10708" 8 "[sample_map]" "Some ''/l.so''"] ok r c f
    by (simp add: in_order_def) (simp add: sample_hook_os_def)
  then show ?thesis
    by (simp add: slot_ok_def xh_util_get_addr_protect_def sample_lib_def)
      (simp add: sample_elf_def flags_def sparse_def)
qed


section \<open>Properties of the PLT hooks\<close>

text \<open>C21. Hooking an imported function whose relocation is in the PLT table, and not its first entry (which is never
  visited): the symbol table of the library has the symbol, the PLT
  relocations 1 to \<open>k\<close> are for other symbols and the next is for it, and the other two tables, plain and packed, are absent
  or have no relocation for it. Then the hook succeeds; the slot of
  the relocation holds the new function, the pointer handed in holds the old one, page
  protections are as before, no other byte has changed, and hooking the slot again changes nothing.\<close>

theorem hook_replaces_import:
  assumes "honest_mprotect os" and "pathname self \<noteq> None" and "new_func \<noteq> 0"
    and "xh_elf_find_symidx_by_name p self symbol = Some (Inr (Some symidx))"
    and "dyn_others p self symidx (region slot 8 \<union> region old_func 8)"
    and "android_others p self symidx (region slot 8 \<union> region old_func 8)"
    and "relplt self \<noteq> 0" and "unat (relplt_sz self) = n * unat (rel_size (is_use_rela self))"
    and "unat (relplt self) + unat (relplt_sz self) < 2 ^ 64"
    and "others p self symidx k" and "k < n" and "entry_is p self (relplt self) (Suc k) off ri" and "rel_matches True symidx ri"
    and "slot = bias_addr self + off" and "base_addr self \<le> slot" and "slot_ok os self slot old_func p"
    and "load64 p slot = Inr cur" and "cur \<noteq> new_func" and "old_func \<noteq> 0" and "\<forall>i<8. readable p (old_func + word_of_nat i)"
    and "region slot 8 \<inter> region old_func 8 = {}"
  shows "\<exists>p'. xh_elf_hook os self (Some symbol) new_func old_func p = Some (Inr 0, p') \<and>
    load64 p' slot = Inr new_func \<and> load64 p' old_func = Inr cur \<and> prots p' = prots p \<and>
    (\<forall>x. x \<notin> region slot 8 \<union> region old_func 8 \<longrightarrow> cells p' x = cells p x) \<and>
    xh_elf_replace_function os self slot new_func old_func p' = (Inr 0, p')"
proof -
  define p' where "p' = replaced slot new_func old_func cur p"
  have r: "xh_elf_replace_function os self slot new_func old_func p = (Inr 0, p')"
    unfolding p'_def by (rule replace_function_step [OF assms(1,16-18)])
  have "hook_plt os self new_func old_func symidx p = Some (Inr 0, p')"
    by (rule plt_hooked [OF assms(7-13)]) (use assms(14,15) r in simp_all)
  note plt = this
  have pr: "prots p' = prots p" by (simp add: p'_def replaced_def)
  have cells: "cells p' = write_bytes slot (map Some (le64 new_func)) (write_bytes old_func (map Some (le64 cur)) (cells p))"
    using assms(19) by (simp add: p'_def replaced_def)
  have rd: "readable p' x" if "readable p x" for x
    using that pr stored_mapped [of "write_bytes old_func (map Some (le64 cur)) (cells p)" x slot new_func]
      stored_mapped [of "cells p" x old_func cur] by (auto simp: readable_def cells)
  have 1: "load64 p' slot = Inr new_func"
    using assms(17) rd unfolding load64_iff by (simp add: cells cells_after_store(2))
  have "old_func + word_of_nat i \<notin> region slot 8" if "i < 8" for i
    using that assms(21) region_memI [of i 8 old_func] by auto
  then have 2: "load64 p' old_func = Inr cur"
    using assms(20) rd unfolding load64_iff by (simp add: cells cells_after_store)
  have 3: "\<forall>x. x \<notin> region slot 8 \<union> region old_func 8 \<longrightarrow> cells p' x = cells p x"
    by (simp add: cells cells_after_store(1))
  have "differs_in (region slot 8 \<union> region old_func 8) p p'" using rd 3 by (simp add: differs_in_def)
  from hook_plt_found [OF assms(2-4) plt this assms(5,6)]
  have h: "xh_elf_hook os self (Some symbol) new_func old_func p = Some (Inr 0, p')" .
  have "xh_elf_replace_function os self slot new_func old_func p' = (Inr 0, p')"
    by (simp add: xh_elf_replace_function_def 1)
  with h 1 2 3 pr show ?thesis by blast
qed

lemma sample_disjoint: "region (0x10708 :: u64) 8 \<inter> region 0x20000 8 = {}"
  by (simp add: region_def lessThan_nat_numeral lessThan_Suc)

text \<open>The sample library with a plain table of dynamic relocations and a packed one, neither for \<open>malloc\<close>.\<close>

definition sample_elf_tables :: xh_elf_t where
  "sample_elf_tables = sample_elf\<lparr>reldyn := 0x10800, reldyn_sz := 24, relandroid := 0x10900, relandroid_sz := 12\<rparr>"

definition sample_android :: "(u64 \<times> reloc list) list" where
  "sample_android = [(0, [\<lparr>r_offset = 0x750, r_info = 0x0000000200000401, r_addend = 0\<rparr>])]"

lemma sample_tables:
  assumes "W = region 0x10708 8 \<union> region 0x20000 8"
  shows "dyn_others sample_lib sample_elf_tables 1 W" "android_others sample_lib sample_elf_tables 1 W"
proof -
  have e: "reldyn sample_elf_tables = 0x10800" "reldyn_sz sample_elf_tables = 24" "relandroid sample_elf_tables = 0x10900"
    "relandroid_sz sample_elf_tables = 12" "is_use_rela sample_elf_tables"
    by (simp_all add: sample_elf_tables_def sample_elf_def zero_elf_def)
  have m: "\<not> rel_matches False 1 0x0000000200000401"
    by (simp add: rel_matches_def R_SYM_def)
  have "entry_is sample_lib sample_elf_tables 0x10800 1 0x7F8 0x0000000200000401"
    by (simp add: entry_is_def entry_addr_def rel_size_def e sample_loads word_map_def sample_words_def)
  moreover have "entry_addr sample_elf_tables 0x10800 1 = 0x10818" by (simp add: entry_addr_def rel_size_def e)
  moreover have "region (0x10818 :: u64) 16 \<inter> W = {}"
    by (simp add: assms region_def lessThan_nat_numeral lessThan_Suc)
  ultimately have "\<forall>i. 1 \<le> i \<and> i \<le> 1 \<longrightarrow> region (entry_addr sample_elf_tables 0x10800 i) 16 \<inter> W = {} \<and>
      (\<exists>off ri. entry_is sample_lib sample_elf_tables 0x10800 i off ri \<and> \<not> rel_matches False 1 ri)"
    using m by (metis le_antisym)
  then show "dyn_others sample_lib sample_elf_tables 1 W"
    unfolding dyn_others_def e by (intro disjI2 exI [of _ 1]) (simp add: rel_size_def e)
  have b: "enc (enc_table 0x700 sample_android) = [0x01, 0x80, 0x0E, 0x01, 0x00, 0xD0, 0x00, 0x81, 0x88, 0x80, 0x80, 0x20]"
    by code_simp
  have "holds sample_lib 0x10900 (enc (enc_table 0x700 sample_android))"
    unfolding b by (simp add: sample_loads word_map_def sample_words_def)
  moreover have len: "length (enc (enc_table 0x700 sample_android)) = 12" by (simp add: b)
  have "region (0x10900 :: u64) (length (enc (enc_table 0x700 sample_android))) \<inter> W = {}"
    unfolding len by (simp add: assms region_def lessThan_nat_numeral lessThan_Suc)
  moreover have "groups_ok 0x700 sample_android" "length (concat (map snd sample_android)) < 2 ^ 64"
    "\<forall>r\<in>set (concat (map snd sample_android)). \<not> rel_matches False 1 (r_info r)"
    using m by (simp_all add: sample_android_def group_ok_def on_def group_flag_defs)
  moreover have "unat (0x10900 :: u64) + length (enc (enc_table 0x700 sample_android)) < 2 ^ 64"
    "unat (12 :: u32) = length (enc (enc_table 0x700 sample_android))" by (simp_all add: len)
  ultimately show "android_others sample_lib sample_elf_tables 1 W"
    unfolding android_others_def e(3,4) Let_def using e(5) by blast
qed

lemma sample_tables_lookup:
  "xh_elf_find_symidx_by_name sample_lib sample_elf_tables sample_malloc = Some (Inr (Some 1))"
proof -
  have n: "sym_name sample_lib sample_elf_tables 1 = Inr 0x10308" "word_at sample_lib (bucket sample_elf_tables) 0 = Inr 1"
    "word_at sample_lib (hchain sample_elf_tables) 1 = Inr 0"
    using sample_names by (simp_all add: sym_name_def sample_elf_tables_def)
  have "hash_chain sample_lib sample_elf_tables sample_malloc 1 =
      Some (Inr (List.find (named sample_lib sample_elf_tables sample_malloc) [1]))"
    by (rule hash_chain_finds) (auto simp: n sample_names(2) name_ok_def)
  moreover have "named sample_lib sample_elf_tables sample_malloc 1" by (simp add: named_def n sample_names(2))
  ultimately show ?thesis
    using n(2) by (simp add: xh_elf_find_symidx_by_name_def xh_elf_hash_lookup_def)
      (simp add: sample_elf_tables_def sample_elf_def zero_elf_def)
qed

theorem hook_replaces_import_witness:
  "\<exists>p'. xh_elf_hook sample_hook_os sample_elf_tables (Some sample_malloc) 0xBBBB0000 0x20000 sample_lib = Some (Inr 0, p') \<and>
     load64 p' 0x10708 = Inr 0xBBBB0000 \<and> load64 p' 0x20000 = Inr 0xAAAA0000"
proof -
  have e: "relplt sample_elf_tables = 0x10500" "relplt_sz sample_elf_tables = 48" "is_use_rela sample_elf_tables"
    "bias_addr sample_elf_tables = 0x10000" "base_addr sample_elf_tables = 0x10000" "pathname sample_elf_tables \<noteq> None"
    by (simp_all add: sample_elf_tables_def sample_elf_def zero_elf_def)
  have o: "others sample_lib sample_elf_tables 1 0" by (simp add: others_def)
  have l: "load64 sample_lib 0x10708 = Inr 0xAAAA0000" by (simp add: sample_loads word_map_def sample_words_def)
  have m: "rel_matches True 1 0x0000000100000402"
    by (simp add: rel_matches_def R_SYM_def R_TYPE_def XH_ELF_R_GENERIC_JUMP_SLOT_def)
  have r: "entry_is sample_lib sample_elf_tables (relplt sample_elf_tables) (Suc 0) 0x708 0x0000000100000402"
    by (simp add: entry_is_def entry_addr_def rel_size_def e sample_loads word_map_def sample_words_def)
  have s: "slot_ok sample_hook_os sample_elf_tables 0x10708 0x20000 sample_lib"
    using sample_slot_ok by (simp add: slot_ok_def sample_elf_tables_def)
  have rd: "\<forall>i<8. readable sample_lib (0x20000 + word_of_nat i)" by (simp add: sample_lib_def)
  have "unat (relplt_sz sample_elf_tables) = 2 * unat (rel_size (is_use_rela sample_elf_tables))"
    "unat (relplt sample_elf_tables) + unat (relplt_sz sample_elf_tables) < 2 ^ 64" "relplt sample_elf_tables \<noteq> 0"
    "0x10708 = bias_addr sample_elf_tables + 0x708" "base_addr sample_elf_tables \<le> 0x10708" "(0xBBBB0000 :: u64) \<noteq> 0"
    "(0xAAAA0000 :: u64) \<noteq> 0xBBBB0000" "(0x20000 :: u64) \<noteq> 0" "(0 :: nat) < 2"
    by (simp_all add: e rel_size_def)
  from hook_replaces_import [OF sample_honest e(6) this(6) sample_tables_lookup sample_tables [OF refl] this(3,1,2) o this(9) r m
      this(4,5) s l this(7,8) rd sample_disjoint] show ?thesis by blast
qed

text \<open>The first import is not hooked: when the only PLT relocation of the symbol is the first one of the
  table, and the words after the table do not look like one, the hook reports success and changes
  nothing.\<close>

theorem first_import_not_hooked:
  assumes "pathname self \<noteq> None" and "new_func \<noteq> 0"
    and "xh_elf_find_symidx_by_name p self symbol = Some (Inr (Some symidx))"
    and "reldyn self = 0" and "relandroid self = 0"
    and "relplt self \<noteq> 0" and "unat (relplt_sz self) = n * unat (rel_size (is_use_rela self))"
    and "unat (relplt self) + unat (relplt_sz self) < 2 ^ 64"
    and "entry_is p self (relplt self) 0 off ri" and "rel_matches True symidx ri" and "others p self symidx n"
  shows "xh_elf_hook os self (Some symbol) new_func old_func p = Some (Inr 0, p)"
proof -
  have "hook_plt os self new_func old_func symidx p = Some (Inr 0, p)"
    using plt_entries [OF assms(6-8)] others_skip [OF assms(11), where bs = "[]"] by simp
  with hook_plt_only [OF assms(1-5)] show ?thesis by blast
qed

definition sample_elf_first :: xh_elf_t where
  "sample_elf_first = sample_elf\<lparr>relplt := 0x10518, relplt_sz := 24\<rparr>"

theorem first_import_not_hooked_witness:
  "xh_elf_hook sample_hook_os sample_elf_first (Some sample_malloc) 0xBBBB0000 0x20000 sample_lib = Some (Inr 0, sample_lib)"
proof -
  have n: "sym_name sample_lib sample_elf_first 1 = Inr 0x10308" "word_at sample_lib (bucket sample_elf_first) 0 = Inr 1"
    "word_at sample_lib (hchain sample_elf_first) 1 = Inr 0"
    using sample_names by (simp_all add: sym_name_def sample_elf_first_def)
  have "hash_chain sample_lib sample_elf_first sample_malloc 1 =
      Some (Inr (List.find (named sample_lib sample_elf_first sample_malloc) [1]))"
    by (rule hash_chain_finds) (auto simp: n sample_names(2) name_ok_def)
  moreover have "named sample_lib sample_elf_first sample_malloc 1" by (simp add: named_def n sample_names(2))
  ultimately have "xh_elf_find_symidx_by_name sample_lib sample_elf_first sample_malloc = Some (Inr (Some 1))"
    using n(2) by (simp add: xh_elf_find_symidx_by_name_def xh_elf_hash_lookup_def)
      (simp add: sample_elf_first_def sample_elf_def zero_elf_def)
  moreover have "entry_is sample_lib sample_elf_first 0x10518 0 0x708 0x0000000100000402"
    "entry_is sample_lib sample_elf_first 0x10518 1 0 0"
    by (simp_all add: entry_is_def entry_addr_def rel_size_def sample_elf_first_def sample_elf_def zero_elf_def sample_loads
        word_map_def sample_words_def)
  moreover have m: "rel_matches True 1 0x0000000100000402" "\<not> rel_matches True 1 0"
    by (simp_all add: rel_matches_def R_SYM_def R_TYPE_def XH_ELF_R_GENERIC_JUMP_SLOT_def)
  moreover have e: "relplt sample_elf_first = 0x10518" "relplt_sz sample_elf_first = 24" "is_use_rela sample_elf_first"
    "reldyn sample_elf_first = 0" "relandroid sample_elf_first = 0" "pathname sample_elf_first \<noteq> None"
    by (simp_all add: sample_elf_first_def sample_elf_def zero_elf_def)
  moreover have "others sample_lib sample_elf_first 1 1"
    unfolding others_def e(1) using calculation(3) m(2) by (metis le_antisym)
  ultimately show ?thesis
    using first_import_not_hooked [of sample_elf_first "0xBBBB0000" sample_lib sample_malloc 1 1 "0x708" "0x0000000100000402"]
    by (simp add: rel_size_def)
qed

text \<open>A symbol index that a lookup returns, by either kind of hash table, is the index of a symbol with
  the name that was asked for.\<close>

theorem lookup_sound:
  assumes "xh_elf_find_symidx_by_name p self symbol = Some (Inr (Some symidx))"
  shows "\<exists>a. sym_name p self symidx = Inr a \<and> strcmp_at p symbol a = Inr True"
  using find_symidx_sound [OF assms] by (simp add: named_def)

theorem lookup_sound_witness: "\<exists>a. sym_name sample_lib sample_elf 1 = Inr a \<and> strcmp_at sample_lib sample_malloc a = Inr True"
  using lookup_sound [OF sample_lookup] .

text \<open>C22. Lookup in an ELF hash table ends and finds the first symbol of that name in the chain of its
  bucket, or reports that there is none, when the chain comes to its end and its names can be read.\<close>

theorem elf_hash_lookup_correct:
  assumes "bucket_cnt self \<noteq> 0" and "word_at p (bucket self) (xh_elf_hash symbol mod bucket_cnt self) = Inr i"
    and "chain_of p self i is" and "\<forall>j\<in>set is. name_ok p self symbol j"
  shows "xh_elf_hash_lookup p self symbol = Some (Inr (List.find (named p self symbol) is))"
  using assms hash_chain_finds [OF assms(3,4)] by (simp add: xh_elf_hash_lookup_def)

theorem elf_hash_lookup_correct_witness: "xh_elf_hash_lookup sample_lib sample_elf sample_malloc = Some (Inr (Some 1))"
proof -
  have "bucket_cnt sample_elf = 1" by (simp add: sample_elf_def)
  moreover have "chain_of sample_lib sample_elf 1 [1]" "\<forall>j\<in>set [1]. name_ok sample_lib sample_elf sample_malloc j"
    by (auto simp: sample_names name_ok_def)
  moreover have "named sample_lib sample_elf sample_malloc 1" by (simp add: named_def sample_names)
  ultimately show ?thesis
    using elf_hash_lookup_correct [of sample_elf sample_lib sample_malloc 1 "[1]"] sample_names(3) by simp
qed

lemma elf_then_ok: "elf_then x k = (Inr 0, s) \<longleftrightarrow> (\<exists>s1. x = (Inr 0, s1) \<and> k s1 = (Inr 0, s))"
  by (cases x) (auto simp: elf_then_def)

lemma init_bias_inv:
  assumes "init_bias p (zero_elf\<lparr>pathname := path, base_addr := base, ehdr := base, phdr := ph\<rparr>) = (Inr 0, self)"
  shows "elf_inv p base path self"
proof -
  from assms obtain v where "self = zero_elf\<lparr>pathname := path, base_addr := base, ehdr := base, phdr := ph, bias_addr := base - v\<rparr>"
    and "v \<le> base"
    by (auto simp: init_bias_def xh_errno_defs not_less split: sum.splits option.splits if_splits)
  then show ?thesis by (simp add: elf_inv_def above_def zero_elf_def word_sub_le)
qed

lemma check_android_inv:
  assumes "check_android p self = (Inr 0, self')" and "elf_inv p base path self"
  shows "elf_inv p base path (self'\<lparr>relandroid := 0\<rparr>) \<and>
    (relandroid self' = 0 \<or> above base (relandroid self' - 4) \<and> bytes_equal p (relandroid self' - 4) [0x41, 0x50, 0x53, 0x32] = Inr True)"
proof (cases "relandroid self = 0")
  case True
  then show ?thesis using assms elf_inv_upd(5) [OF assms(2), of 0] by (simp add: check_android_def above_def)
next
  case False
  then have "bytes_equal p (relandroid self) [0x41, 0x50, 0x53, 0x32] = Inr True"
    and s: "self' = self\<lparr>relandroid := relandroid self + 4, relandroid_sz := relandroid_sz self - 4\<rparr>"
    using assms(1) unfolding check_android_def by (auto simp: xh_errno_defs split: if_splits sum.splits simp del: bytes_equal.simps)
  then show ?thesis using assms(2) by (simp add: elf_inv_def above_def del: bytes_equal.simps)
qed

lemma xh_elf_check_ok:
  assumes "xh_elf_check self = 0"
  shows "bias_addr self \<noteq> 0 \<and> strtab self \<noteq> 0 \<and> symtab self \<noteq> 0 \<and> bucket self \<noteq> 0 \<and> hchain self \<noteq> 0 \<and>
    (is_use_gnu_hash self \<longrightarrow> bloom self \<noteq> 0)"
  using assms by (simp add: xh_elf_check_def split: if_splits)

text \<open>C23. After a successful initialisation of a library at \<open>base\<close>: its load bias is not null and does not exceed the base; the
  string and the symbol table lie at or above the base; the relocation tables are absent or lie at or above it, a
  packed one behind its signature; and the hash table was read from a header at or above the base, with
  bucket, chain and (for the GNU format) filter at the places the header gives, none of them null.\<close>

theorem elf_init_sound:
  assumes "xh_elf_init p self0 base path = (Inr 0, self)"
  shows "base \<noteq> 0 \<and> path \<noteq> None \<and> pathname self = path \<and> base_addr self = base \<and>
    bias_addr self \<noteq> 0 \<and> bias_addr self \<le> base \<and> base \<le> strtab self \<and> base \<le> symtab self \<and>
    hash_read p base self \<and>
    bucket self \<noteq> 0 \<and> hchain self \<noteq> 0 \<and> (is_use_gnu_hash self \<longrightarrow> bloom self \<noteq> 0) \<and>
    above base (relplt self) \<and> above base (reldyn self) \<and>
    (relandroid self = 0 \<or> above base (relandroid self - 4) \<and>
       bytes_equal p (relandroid self - 4) [0x41, 0x50, 0x53, 0x32] = Inr True)"
proof -
  from assms have ne: "base \<noteq> 0" "path \<noteq> None" by (auto simp: xh_elf_init_def xh_errno_defs split: if_splits)
  then obtain ph where "elf_then (init_bias p (zero_elf\<lparr>pathname := path, base_addr := base, ehdr := base, phdr := ph\<rparr>)) (\<lambda>self.
      elf_then (init_dyn p self) (\<lambda>self. elf_then (check_android p self) (\<lambda>self.
      (Inr (if xh_elf_check self \<noteq> 0 then XH_ERRNO_FORMAT else 0), self)))) = (Inr 0, self)"
    using assms by (auto simp: xh_elf_init_def Let_def split: sum.splits)
  then obtain self1 self2 where
    1: "init_bias p (zero_elf\<lparr>pathname := path, base_addr := base, ehdr := base, phdr := ph\<rparr>) = (Inr 0, self1)"
    and 2: "init_dyn p self1 = (Inr 0, self2)" and 3: "check_android p self2 = (Inr 0, self)" and 4: "xh_elf_check self = 0"
    unfolding elf_then_ok by (auto simp: xh_errno_defs split: if_splits)
  have i1: "elf_inv p base path self1" by (rule init_bias_inv [OF 1])
  have i2: "elf_inv p base path self2" using init_dyn_inv [OF i1] 2 by (simp add: keeps_inv_def)
  from check_android_inv [OF 3 i2] xh_elf_check_ok [OF 4] ne show ?thesis
    by (auto simp: elf_inv_def above_def)
qed

theorem elf_init_sound_witness:
  "bias_addr sample_elf \<le> 0x10000 \<and> 0x10000 \<le> strtab sample_elf \<and> hash_read sample_lib 0x10000 sample_elf \<and>
   xh_elf_init sample_lib zero_elf 0x10000 (Some ''/l.so'') = (Inr 0, sample_elf)"
  using elf_init_sound [OF sample_init] sample_init by simp

end
