(* ===== verification/Hook_Core.thy ===== *)
theory Hook_Core
  imports Elf_Hook
begin

text \<open>
  The core of the PLT hooks (\<open>xHook/xh_core.c\<close>): the registered hooks and exceptions, the table of
  loaded libraries kept in step with \<open>/proc/self/maps\<close>, the refresh that hooks what is new, the
  protection against faults, and the thread for asynchronous refreshes. Regular expressions are a
  parameter (whether a pattern compiles, whether it matches); so is the success of allocations,
  of \<open>sigaction\<close> and of \<open>pthread_create\<close>. The red-black tree of libraries is the map it implements.
\<close>

section \<open>State\<close>

record hook_info =
  hi_regex :: string
  hi_symbol :: "u8 list"
  hi_new :: u64
  hi_old :: u64

record ignore_info =
  ii_regex :: string
  ii_symbol :: "u8 list option"

record lib_info =
  li_path :: string
  li_base :: u64
  li_elf :: xh_elf_t

record xh_core =
  hook_infos :: "hook_info list"
  ignore_infos :: "ignore_info list"
  libs :: "string \<Rightarrow> lib_info option"
  core_inited :: bool
  core_init_ok :: bool
  core_async_inited :: bool
  core_async_init_ok :: bool
  thread_running :: bool
  thread_do :: bool
  sigsegv_enable :: bool
  handler_on :: bool

definition xh_core_start :: xh_core where
  "xh_core_start = \<lparr>hook_infos = [], ignore_infos = [], libs = (\<lambda>_. None), core_inited = False, core_init_ok = False,
     core_async_inited = False, core_async_init_ok = False, thread_running = False, thread_do = False,
     sigsegv_enable = True, handler_on = False\<rparr>"

record core_env =
  rx_compiles :: "string \<Rightarrow> bool"
  rx_matches :: "string \<Rightarrow> string \<Rightarrow> bool"
  alloc_ok :: "string \<Rightarrow> bool"
  sigaction_errno :: "int option"
  stack_sa_flags :: u32
  thread_ok :: bool
  line_junk :: string

section \<open>Registration\<close>

text \<open>\<open>malloc_ok\<close> and \<open>strdup_ok\<close> tell whether the two allocations of a call succeed.\<close>

definition xh_core_register ::
  "core_env \<Rightarrow> bool \<Rightarrow> bool \<Rightarrow> string option \<Rightarrow> u8 list option \<Rightarrow> u64 \<Rightarrow> u64 \<Rightarrow> xh_core \<Rightarrow> int \<times> xh_core" where
  "xh_core_register env malloc_ok strdup_ok regex symbol new_func old_func st =
     (case (regex, symbol) of
        (Some re, Some sy) \<Rightarrow>
          if new_func = 0 then (XH_ERRNO_INVAL, st)
          else if core_inited st then (XH_ERRNO_INVAL, st)
          else if \<not> rx_compiles env re then (XH_ERRNO_INVAL, st)
          else if \<not> malloc_ok then (XH_ERRNO_NOMEM, st)
          else if \<not> strdup_ok then (XH_ERRNO_NOMEM, st)
          else (0, st\<lparr>hook_infos := hook_infos st @ [\<lparr>hi_regex = re, hi_symbol = sy, hi_new = new_func, hi_old = old_func\<rparr>]\<rparr>)
      | _ \<Rightarrow> (XH_ERRNO_INVAL, st))"

definition xh_core_ignore ::
  "core_env \<Rightarrow> bool \<Rightarrow> bool \<Rightarrow> string option \<Rightarrow> u8 list option \<Rightarrow> xh_core \<Rightarrow> int \<times> xh_core" where
  "xh_core_ignore env malloc_ok strdup_ok regex symbol st =
     (case regex of
        None \<Rightarrow> (XH_ERRNO_INVAL, st)
      | Some re \<Rightarrow>
          if core_inited st then (XH_ERRNO_INVAL, st)
          else if \<not> rx_compiles env re then (XH_ERRNO_INVAL, st)
          else if \<not> malloc_ok then (XH_ERRNO_NOMEM, st)
          else if symbol \<noteq> None \<and> \<not> strdup_ok then (XH_ERRNO_NOMEM, st)
          else (0, st\<lparr>ignore_infos := ignore_infos st @ [\<lparr>ii_regex = re, ii_symbol = symbol\<rparr>]\<rparr>))"

section \<open>Faults\<close>

text \<open>
  A fault is a \<open>SIGSEGV\<close> for a wild access. With the protection on and the handler installed it comes back
  to the caller. The field \<open>sa_flags\<close> of the action is never set, so it is what the stack holds there: with
  \<open>SA_RESETHAND\<close> among its bits the handler would be gone after the first fault. The model does not follow
  such a handler: \<open>handler_on\<close> says that one is installed to stay.
\<close>

definition SA_RESETHAND :: u32 where "SA_RESETHAND = 0x80000000"

definition caught :: "xh_core \<Rightarrow> fault \<Rightarrow> bool" where
  "caught st e \<longleftrightarrow> sigsegv_enable st \<and> handler_on st \<and> e \<in> {Wild_Access, Null_Deref}"

definition xh_core_add_sigsegv_handler :: "core_env \<Rightarrow> xh_core \<Rightarrow> int \<times> xh_core" where
  "xh_core_add_sigsegv_handler env st =
     (if \<not> sigsegv_enable st then (0, st)
      else case sigaction_errno env of
        None \<Rightarrow> (0, st\<lparr>handler_on := (stack_sa_flags env AND SA_RESETHAND = 0)\<rparr>)
      | Some e \<Rightarrow> (if e = 0 then XH_ERRNO_UNKNOWN else e, st))"

definition xh_core_del_sigsegv_handler :: "xh_core \<Rightarrow> xh_core" where
  "xh_core_del_sigsegv_handler st = (if \<not> sigsegv_enable st then st else st\<lparr>handler_on := False\<rparr>)"

definition xh_core_check_elf_header :: "xh_core \<Rightarrow> process \<Rightarrow> u64 \<Rightarrow> int res" where
  "xh_core_check_elf_header st p base =
     (case xh_elf_check_elfheader p base of
        Inl e \<Rightarrow> if caught st e then Inr XH_ERRNO_SEGVERR else Inl e
      | Inr r \<Rightarrow> Inr r)"

section \<open>Hooking one library\<close>

datatype verdict = Hook_It | Skip_Symbol | Skip_Library

fun verdict_of :: "core_env \<Rightarrow> string \<Rightarrow> u8 list \<Rightarrow> ignore_info list \<Rightarrow> verdict" where
  "verdict_of env path sy [] = Hook_It"
| "verdict_of env path sy (ii # iis) =
     (if rx_matches env (ii_regex ii) path then
        case ii_symbol ii of
          None \<Rightarrow> Skip_Library
        | Some s \<Rightarrow> if s = sy then Skip_Symbol else verdict_of env path sy iis
      else verdict_of env path sy iis)"

fun hook_all :: "xh_os \<Rightarrow> core_env \<Rightarrow> ignore_info list \<Rightarrow> string \<Rightarrow> xh_elf_t \<Rightarrow> hook_info list \<Rightarrow> process \<Rightarrow> (unit res \<times> process) option" where
  "hook_all os env iis path elf [] p = Some (Inr (), p)"
| "hook_all os env iis path elf (hi # his) p =
     (if rx_matches env (hi_regex hi) path then
        case verdict_of env path (hi_symbol hi) iis of
          Skip_Library \<Rightarrow> Some (Inr (), p)
        | Skip_Symbol \<Rightarrow> hook_all os env iis path elf his p
        | Hook_It \<Rightarrow>
            (case xh_elf_hook os elf (Some (hi_symbol hi)) (hi_new hi) (hi_old hi) p of
               None \<Rightarrow> None
             | Some (Inl e, p') \<Rightarrow> Some (Inl e, p')
             | Some (Inr code, p') \<Rightarrow> hook_all os env iis path elf his p')
      else hook_all os env iis path elf his p)"

definition xh_core_hook_impl :: "xh_os \<Rightarrow> core_env \<Rightarrow> xh_core \<Rightarrow> lib_info \<Rightarrow> process \<Rightarrow> (unit res \<times> lib_info \<times> process) option" where
  "xh_core_hook_impl os env st li p =
     (case xh_elf_init p (li_elf li) (li_base li) (Some (li_path li)) of
        (Inl e, elf) \<Rightarrow> Some (Inl e, li\<lparr>li_elf := elf\<rparr>, p)
      | (Inr code, elf) \<Rightarrow>
          if code \<noteq> 0 then Some (Inr (), li\<lparr>li_elf := elf\<rparr>, p)
          else case hook_all os env (ignore_infos st) (li_path li) elf (hook_infos st) p of
            None \<Rightarrow> None
          | Some (r, p') \<Rightarrow> Some (r, li\<lparr>li_elf := elf\<rparr>, p'))"

definition xh_core_hook :: "xh_os \<Rightarrow> core_env \<Rightarrow> xh_core \<Rightarrow> lib_info \<Rightarrow> process \<Rightarrow> (unit res \<times> lib_info \<times> process) option" where
  "xh_core_hook os env st li p =
     (case xh_core_hook_impl os env st li p of
        None \<Rightarrow> None
      | Some (Inl e, li', p') \<Rightarrow> Some (if caught st e then Inr () else Inl e, li', p')
      | Some (Inr u, li', p') \<Rightarrow> Some (Inr u, li', p'))"

section \<open>Refreshing the table of libraries\<close>

text \<open>
  \<open>sscanf(line, "%lx-%*lx %4s %lx %*x:%*x %*d%n", ...)\<close>: the permission letters once they are read, base
  address and offset once all three conversions are done, and the position when the format was
  read to its end.
\<close>

definition scan_tail :: "string \<Rightarrow> string \<Rightarrow> nat option" where
  "scan_tail line r =
     Option.bind (scan_number hex_digit 16 (scan_space r)) (\<lambda>(_, r1).
     Option.bind (scan_char (CHR '':'') r1) (\<lambda>r2.
     Option.bind (scan_number hex_digit 16 r2) (\<lambda>(_, r3).
     Option.bind (scan_number dec_digit 10 (scan_space r3)) (\<lambda>(_, r4).
     Some (length line - length r4)))))"

definition scan_map_line :: "string \<Rightarrow> string option \<times> (u64 \<times> u64) option \<times> nat option" where
  "scan_map_line line =
     (case Option.bind (scan_number hex_digit 16 line) (\<lambda>(base, r1).
           Option.bind (scan_char (CHR ''-'') r1) (\<lambda>r2.
           Option.bind (scan_number hex_digit 16 r2) (\<lambda>(_, r3).
           Option.bind (scan_string 4 (scan_space r3)) (\<lambda>(perm, r4). Some (base, perm, r4))))) of
        None \<Rightarrow> (None, None, None)
      | Some (base, perm, r4) \<Rightarrow>
          (case scan_number hex_digit 16 (scan_space r4) of
             None \<Rightarrow> (Some perm, None, None)
           | Some (off, r5) \<Rightarrow> (Some perm, Some (base, off), scan_tail line r5)))"

text \<open>The line buffer of 512 characters, filled by \<open>fgets\<close>; what is behind the end of a line is left from before.\<close>

definition put_line :: "string \<Rightarrow> string \<Rightarrow> string" where
  "put_line l buf = l @ CHR 0x00 # drop (Suc (length l)) buf"

function skip_space :: "string \<Rightarrow> nat \<Rightarrow> nat" where
  "skip_space buf pos = (if pos < 511 \<and> isspace (buf ! pos) then skip_space buf (pos + 1) else pos)"
  by auto
termination by (relation "measure (\<lambda>(buf, pos). 511 - pos)") auto

declare skip_space.simps [simp del]

definition c_string :: "string \<Rightarrow> nat \<Rightarrow> string" where
  "c_string buf pos = takeWhile (\<lambda>c. c \<noteq> CHR 0x00) (drop pos buf)"

text \<open>The path of a line: \<open>None\<close> where the line is passed over. A line feed at the end is cut off.\<close>

definition path_of :: "string \<Rightarrow> nat \<Rightarrow> string option" where
  "path_of buf pos0 =
     (let pos = skip_space buf pos0; s = c_string buf pos;
          t = (if s \<noteq> [] \<and> last s = CHR 0x0A then butlast s else s)
      in if 511 \<le> pos then None
         else if s = [] then None
         else if t = [] then None
         else if hd t = CHR ''['' then None
         else Some t)"

text \<open>Is some hook registered for the library? The search ends at the first hook whose pattern matches.\<close>

fun wanted :: "core_env \<Rightarrow> ignore_info list \<Rightarrow> string \<Rightarrow> hook_info list \<Rightarrow> bool" where
  "wanted env iis path [] = False"
| "wanted env iis path (hi # his) =
     (if rx_matches env (hi_regex hi) path then verdict_of env path (hi_symbol hi) iis = Hook_It
      else wanted env iis path his)"

text \<open>The variables of the loop: libraries not yet seen again, libraries seen, and the buffers.\<close>

record refresh_state =
  old_libs :: "string \<Rightarrow> lib_info option"
  new_libs :: "string \<Rightarrow> lib_info option"
  line_buf :: string
  perm_buf :: string
  name_pos :: "nat option"

text \<open>What to do with a library found in the maps at \<open>base\<close>.\<close>

definition refresh_lib :: "xh_os \<Rightarrow> core_env \<Rightarrow> xh_core \<Rightarrow> string \<Rightarrow> u64 \<Rightarrow> refresh_state \<Rightarrow> process \<Rightarrow>
    (unit res \<times> refresh_state \<times> process) option" where
  "refresh_lib os env st path base rs p =
     (case old_libs rs path of
        Some li \<Rightarrow>
          let rs1 = rs\<lparr>old_libs := (old_libs rs)(path := None)\<rparr> in
          if new_libs rs path \<noteq> None then Some (Inr (), rs1, p)
          else if li_base li \<noteq> base then
            (case xh_core_hook os env st (li\<lparr>li_base := base\<rparr>) p of
               None \<Rightarrow> None
             | Some (r, li', p') \<Rightarrow> Some (r, rs1\<lparr>new_libs := (new_libs rs)(path \<mapsto> li')\<rparr>, p'))
          else Some (Inr (), rs1\<lparr>new_libs := (new_libs rs)(path \<mapsto> li)\<rparr>, p)
      | None \<Rightarrow>
          if \<not> alloc_ok env path then Some (Inr (), rs, p)
          else if new_libs rs path \<noteq> None then Some (Inr (), rs, p)
          else (case xh_core_hook os env st \<lparr>li_path = path, li_base = base, li_elf = zero_elf\<rparr> p of
               None \<Rightarrow> None
             | Some (r, li', p') \<Rightarrow> Some (r, rs\<lparr>new_libs := (new_libs rs)(path \<mapsto> li')\<rparr>, p')))"

text \<open>One line. A position that no line has set yet is an uninitialised index into the buffer, read outside the
  protected calls: a fault nobody catches.\<close>

definition refresh_line :: "xh_os \<Rightarrow> core_env \<Rightarrow> xh_core \<Rightarrow> string \<Rightarrow> refresh_state \<Rightarrow> process \<Rightarrow>
    (unit res \<times> refresh_state \<times> process) option" where
  "refresh_line os env st line rs p =
     (let (perm, fields, pos) = scan_map_line line;
          perm' = (case perm of None \<Rightarrow> perm_buf rs | Some s \<Rightarrow> fill s (perm_buf rs));
          pos' = (case pos of None \<Rightarrow> name_pos rs | Some n \<Rightarrow> Some n);
          buf = put_line line (line_buf rs);
          rs1 = rs\<lparr>line_buf := buf, perm_buf := perm', name_pos := pos'\<rparr>
      in case fields of
           None \<Rightarrow> Some (Inr (), rs1, p)
         | Some (base, off) \<Rightarrow>
             if perm' ! 0 \<noteq> CHR ''r'' then Some (Inr (), rs1, p)
             else if perm' ! 3 \<noteq> CHR ''p'' then Some (Inr (), rs1, p)
             else if off \<noteq> 0 then Some (Inr (), rs1, p)
             else case pos' of
               None \<Rightarrow> Some (Inl Wild_Access, rs1, p)
             | Some n \<Rightarrow>
                 (case path_of buf n of
                    None \<Rightarrow> Some (Inr (), rs1\<lparr>name_pos := Some (skip_space buf n)\<rparr>, p)
                  | Some path \<Rightarrow>
                      let rs2 = rs1\<lparr>name_pos := Some (skip_space buf n),
                            line_buf := buf[skip_space buf n + length path := CHR 0x00]\<rparr> in
                      if \<not> wanted env (ignore_infos st) path (hook_infos st) then Some (Inr (), rs2, p)
                      else (case xh_core_check_elf_header st p base of
                         Inl e \<Rightarrow> Some (Inl e, rs2, p)
                       | Inr r \<Rightarrow> if r \<noteq> 0 then Some (Inr (), rs2, p) else refresh_lib os env st path base rs2 p)))"

fun refresh_lines :: "xh_os \<Rightarrow> core_env \<Rightarrow> xh_core \<Rightarrow> string list \<Rightarrow> refresh_state \<Rightarrow> process \<Rightarrow>
    (unit res \<times> refresh_state \<times> process) option" where
  "refresh_lines os env st [] rs p = Some (Inr (), rs, p)"
| "refresh_lines os env st (line # ls) rs p =
     (case refresh_line os env st line rs p of
        None \<Rightarrow> None
      | Some (Inl e, rs', p') \<Rightarrow> Some (Inl e, rs', p')
      | Some (Inr u, rs', p') \<Rightarrow> refresh_lines os env st ls rs' p')"

text \<open>At the end the libraries that were not seen again are freed and the refreshed table is kept.\<close>

definition xh_core_refresh_impl :: "xh_os \<Rightarrow> core_env \<Rightarrow> xh_core \<Rightarrow> process \<Rightarrow> (unit res \<times> xh_core \<times> process) option" where
  "xh_core_refresh_impl os env st p =
     (case self_maps os p of
        None \<Rightarrow> Some (Inr (), st, p)
      | Some text \<Rightarrow>
          (case refresh_lines os env st (fgets_lines 512 text)
             \<lparr>old_libs = libs st, new_libs = \<lambda>_. None, line_buf = line_junk env, perm_buf = perm_junk os, name_pos = None\<rparr> p of
             None \<Rightarrow> None
           | Some (Inl e, rs, p') \<Rightarrow> Some (Inl e, st, p')
           | Some (Inr u, rs, p') \<Rightarrow> Some (Inr (), st\<lparr>libs := new_libs rs\<rparr>, p')))"

section \<open>Initialisation, refresh, clearing\<close>

definition xh_core_init_once :: "core_env \<Rightarrow> xh_core \<Rightarrow> xh_core" where
  "xh_core_init_once env st =
     (if core_inited st then st
      else let (r, st1) = xh_core_add_sigsegv_handler env (st\<lparr>core_inited := True\<rparr>)
        in if r \<noteq> 0 then st1 else st1\<lparr>core_init_ok := True\<rparr>)"

definition xh_core_init_async_once :: "core_env \<Rightarrow> xh_core \<Rightarrow> xh_core" where
  "xh_core_init_async_once env st =
     (if core_async_inited st then st
      else if thread_ok env then st\<lparr>core_async_inited := True, thread_running := True, core_async_init_ok := True\<rparr>
      else st\<lparr>core_async_inited := True, thread_running := False\<rparr>)"

definition xh_core_refresh :: "xh_os \<Rightarrow> core_env \<Rightarrow> bool \<Rightarrow> xh_core \<Rightarrow> process \<Rightarrow> (int res \<times> xh_core \<times> process) option" where
  "xh_core_refresh os env async st p =
     (let st1 = xh_core_init_once env st in
      if \<not> core_init_ok st1 then Some (Inr XH_ERRNO_UNKNOWN, st1, p)
      else if async then
        let st2 = xh_core_init_async_once env st1 in
        if \<not> core_async_init_ok st2 then Some (Inr XH_ERRNO_UNKNOWN, st2, p)
        else Some (Inr 0, st2\<lparr>thread_do := True\<rparr>, p)
      else case xh_core_refresh_impl os env st1 p of
        None \<Rightarrow> None
      | Some (Inl e, st2, p') \<Rightarrow> Some (Inl e, st2, p')
      | Some (Inr u, st2, p') \<Rightarrow> Some (Inr 0, st2, p'))"

text \<open>One round of the refresh thread, entered when it is woken: it leaves, waits on, or refreshes.\<close>

datatype thread_state = Thread_Waits | Thread_Ends

definition xh_core_refresh_thread_round :: "xh_os \<Rightarrow> core_env \<Rightarrow> xh_core \<Rightarrow> process \<Rightarrow>
    (thread_state \<times> unit res \<times> xh_core \<times> process) option" where
  "xh_core_refresh_thread_round os env st p =
     (if \<not> thread_running st then Some (Thread_Ends, Inr (), st, p)
      else if \<not> thread_do st then Some (Thread_Waits, Inr (), st, p)
      else case xh_core_refresh_impl os env (st\<lparr>thread_do := False\<rparr>) p of
        None \<Rightarrow> None
      | Some (r, st', p') \<Rightarrow> Some (if thread_running st' then Thread_Waits else Thread_Ends, r, st', p'))"

definition xh_core_clear :: "xh_core \<Rightarrow> xh_core" where
  "xh_core_clear st =
     (let st1 = (if core_async_init_ok st then st\<lparr>thread_running := False, core_async_init_ok := False\<rparr> else st);
          st2 = st1\<lparr>core_async_inited := False\<rparr>;
          st3 = (if core_init_ok st2 then (xh_core_del_sigsegv_handler st2)\<lparr>core_init_ok := False\<rparr> else st2)
      in st3\<lparr>core_inited := False, libs := \<lambda>_. None, hook_infos := [], ignore_infos := []\<rparr>)"

definition xh_core_enable_sigsegv_protection :: "bool \<Rightarrow> xh_core \<Rightarrow> xh_core" where
  "xh_core_enable_sigsegv_protection flag st = st\<lparr>sigsegv_enable := flag\<rparr>"


section \<open>Reading a printed line\<close>

text \<open>A mapping as the kernel prints it. Only the base, the permissions, the offset and the path matter; the other
  numbers are any strings of digits.\<close>

record lib_line =
  l_base :: u64
  l_end :: string
  l_perm :: string
  l_off :: u64
  l_major :: string
  l_minor :: string
  l_inode :: string
  l_gap :: nat
  l_path :: string

definition print_head :: "lib_line \<Rightarrow> string" where
  "print_head e = hex_text 16 (unat (l_base e)) @ CHR ''-'' # l_end e @ CHR '' '' # l_perm e @ CHR '' '' #
     hex_text 16 (unat (l_off e)) @ CHR '' '' # l_major e @ CHR '':'' # l_minor e @ CHR '' '' # l_inode e"

definition print_line :: "lib_line \<Rightarrow> string" where
  "print_line e = print_head e @ replicate (Suc (l_gap e)) (CHR '' '') @ l_path e"

definition digits :: "(char \<Rightarrow> nat option) \<Rightarrow> string \<Rightarrow> bool" where
  "digits dig ds \<longleftrightarrow> ds \<noteq> [] \<and> (\<forall>c\<in>set ds. dig c \<noteq> None)"

definition line_fits :: "lib_line \<Rightarrow> bool" where
  "line_fits e \<longleftrightarrow> digits hex_digit (l_end e) \<and> digits hex_digit (l_major e) \<and> digits hex_digit (l_minor e) \<and>
     digits dec_digit (l_inode e) \<and> length (l_perm e) = 4 \<and> (\<forall>c\<in>set (l_perm e). \<not> isspace c \<and> c \<noteq> CHR 0x00) \<and>
     l_path e \<noteq> [] \<and> \<not> isspace (hd (l_path e)) \<and> CHR 0x0A \<notin> set (l_path e) \<and> CHR 0x00 \<notin> set (l_path e) \<and>
     length (print_line e) + 2 \<le> 512"

lemma dec_is_hex: "dec_digit c \<noteq> None \<Longrightarrow> hex_digit c \<noteq> None"
  by (auto simp: dec_digit_def hex_digit_def Let_def split: if_splits)

definition no_digits :: string where
  "no_digits = [CHR '' '', CHR 0x09, CHR 0x0A, CHR 0x0B, CHR 0x0C, CHR 0x0D, CHR ''-'', CHR ''+'', CHR ''x'', CHR ''X'', CHR 0x00]"

lemma no_digits_none: "\<forall>d\<in>set no_digits. hex_digit d = None"
  by code_simp

lemma hex_digit_plain:
  assumes "hex_digit c \<noteq> None"
  shows "\<not> isspace c" "c \<notin> {CHR ''-'', CHR ''+'', CHR ''x'', CHR ''X'', CHR 0x0A, CHR 0x00}"
proof -
  have "c \<notin> set no_digits" using assms no_digits_none by metis
  then show "\<not> isspace c" "c \<notin> {CHR ''-'', CHR ''+'', CHR ''x'', CHR ''X'', CHR 0x0A, CHR 0x00}"
    by (simp_all add: no_digits_def isspace_def)
qed

lemma scan_number_digits:
  assumes "digits dig ds" and "dig = hex_digit \<and> base = 16 \<or> dig = dec_digit \<and> base = 10"
    and "dig c = None" and "c \<notin> {CHR ''x'', CHR ''X''}"
  shows "\<exists>v. scan_number dig base (ds @ c # s) = Some (v, c # s)"
proof -
  have hex: "hex_digit d \<noteq> None" if "d \<in> set ds" for d
    using assms(1,2) that dec_is_hex by (auto simp: digits_def)
  obtain u us where ds: "ds = u # us" using assms(1) by (cases ds) (auto simp: digits_def)
  have u: "\<not> isspace u" "u \<notin> {CHR ''-'', CHR ''+''}" using hex_digit_plain [OF hex [of u]] ds by auto
  define z where "z = ds @ c # s"
  have sp: "dropWhile isspace z = z" using u(1) ds by (simp add: z_def)
  have "take 2 z \<notin> {''0x'', ''0X''}"
    using assms(4) hex_digit_plain(2) [OF hex] ds by (cases us) (auto simp: z_def)
  moreover have tw: "takeWhile (\<lambda>c. dig c \<noteq> None) z = ds"
    unfolding z_def using assms(1,3) by (intro takeWhile_app_stop) (auto simp: digits_def)
  moreover have "z \<noteq> []" "hd z \<noteq> CHR ''-''" "hd z \<noteq> CHR ''+''" "drop (length ds) z = c # s" "ds \<noteq> []"
    using u ds by (auto simp: z_def)
  ultimately show ?thesis unfolding z_def [symmetric] scan_number_def Let_def using sp by simp
qed

lemma scan_space_id: "s \<noteq> [] \<Longrightarrow> \<not> isspace (hd s) \<Longrightarrow> scan_space s = s"
  by (cases s) (auto simp: scan_space_def)

lemma scan_space_one: "s \<noteq> [] \<Longrightarrow> \<not> isspace (hd s) \<Longrightarrow> scan_space (CHR '' '' # s) = s"
  by (cases s) (auto simp: scan_space_def isspace_def)

lemma digits_head: "digits dig ds \<Longrightarrow> dig = hex_digit \<or> dig = dec_digit \<Longrightarrow> ds @ s \<noteq> [] \<and> \<not> isspace (hd (ds @ s))"
proof -
  assume "digits dig ds" and "dig = hex_digit \<or> dig = dec_digit"
  then obtain u us where "ds = u # us" "hex_digit u \<noteq> None"
    using dec_is_hex by (cases ds) (auto simp: digits_def)
  then show ?thesis using hex_digit_plain(1) by simp
qed

lemma hex_text_digits: "0 < k \<Longrightarrow> digits hex_digit (hex_text k x)"
  using hex_text_chars(1) by (auto simp: digits_def simp flip: length_0_conv)

lemma sep_chars:
  "hex_digit (CHR ''-'') = None" "hex_digit (CHR '' '') = None" "hex_digit (CHR '':'') = None" "dec_digit (CHR '' '') = None"
  by code_simp+

lemma scan_tail_print:
  assumes "line_fits e"
  shows "scan_tail line (CHR '' '' # l_major e @ CHR '':'' # l_minor e @ CHR '' '' # l_inode e @ CHR '' '' # r) =
    Some (length line - length (CHR '' '' # r))"
proof -
  note ok = assms [unfolded line_fits_def]
  obtain v1 where 1: "scan_number hex_digit 16 (l_major e @ CHR '':'' # l_minor e @ CHR '' '' # l_inode e @ CHR '' '' # r) =
      Some (v1, CHR '':'' # l_minor e @ CHR '' '' # l_inode e @ CHR '' '' # r)"
    using scan_number_digits [of hex_digit "l_major e" 16 "CHR '':''"] ok sep_chars by auto
  obtain v2 where 2: "scan_number hex_digit 16 (l_minor e @ CHR '' '' # l_inode e @ CHR '' '' # r) =
      Some (v2, CHR '' '' # l_inode e @ CHR '' '' # r)"
    using scan_number_digits [of hex_digit "l_minor e" 16 "CHR '' ''"] ok sep_chars by auto
  obtain v3 where 3: "scan_number dec_digit 10 (l_inode e @ CHR '' '' # r) = Some (v3, CHR '' '' # r)"
    using scan_number_digits [of dec_digit "l_inode e" 10 "CHR '' ''"] ok sep_chars by auto
  have s1: "scan_space (CHR '' '' # l_major e @ t) = l_major e @ t" "scan_space (CHR '' '' # l_inode e @ t) = l_inode e @ t" for t
    using digits_head [of hex_digit "l_major e" t] digits_head [of dec_digit "l_inode e" t] ok
    by (auto intro!: scan_space_one)
  show ?thesis by (simp add: scan_tail_def s1 1 2 3 scan_char_def)
qed

lemma print_line_split:
  "print_line e @ nl = hex_text 16 (unat (l_base e)) @ CHR ''-'' # l_end e @ CHR '' '' # l_perm e @ CHR '' '' #
     hex_text 16 (unat (l_off e)) @ CHR '' '' # l_major e @ CHR '':'' # l_minor e @ CHR '' '' # l_inode e @
     CHR '' '' # replicate (l_gap e) (CHR '' '') @ l_path e @ nl"
  by (simp add: print_line_def print_head_def)

lemma scan_perm:
  assumes "line_fits e"
  shows "scan_string 4 (scan_space (CHR '' '' # l_perm e @ CHR '' '' # r)) = Some (l_perm e, CHR '' '' # r)"
proof -
  obtain a b c d where p: "l_perm e = [a, b, c, d]"
    using assms by (auto simp: line_fits_def length_Suc_conv eval_nat_numeral)
  then have "\<not> isspace a" "\<not> isspace b" "\<not> isspace c" "\<not> isspace d" using assms by (auto simp: line_fits_def)
  then show ?thesis by (simp add: p scan_string_def scan_space_def isspace_def Let_def)
qed

lemma scan_print_line:
  assumes "line_fits e"
  shows "scan_map_line (print_line e @ nl) = (Some (l_perm e), Some (l_base e, l_off e), Some (length (print_head e)))"
proof -
  note ok = assms [unfolded line_fits_def]
  define r7 where "r7 = CHR '' '' # replicate (l_gap e) (CHR '' '') @ l_path e @ nl"
  define r5 where "r5 = CHR '' '' # l_major e @ CHR '':'' # l_minor e @ CHR '' '' # l_inode e @ r7"
  define r4 where "r4 = CHR '' '' # hex_text 16 (unat (l_off e)) @ r5"
  define r2 where "r2 = l_end e @ CHR '' '' # l_perm e @ r4"
  have sp: "print_line e @ nl = hex_text 16 (unat (l_base e)) @ CHR ''-'' # r2"
    unfolding print_line_split r2_def r4_def r5_def r7_def by simp
  have lt: "unat (w :: u64) < 16 ^ 16" for w using unsigned_less [of w, where 'a = nat] by simp
  have 1: "scan_number hex_digit 16 (print_line e @ nl) = Some (l_base e, CHR ''-'' # r2)"
    unfolding sp using lt sep_chars by (intro scan_number_hex) auto
  obtain v where 2: "scan_number hex_digit 16 r2 = Some (v, CHR '' '' # l_perm e @ r4)"
    unfolding r2_def using scan_number_digits [of hex_digit "l_end e" 16 "CHR '' ''"] ok sep_chars by auto
  have 3: "scan_string 4 (scan_space (CHR '' '' # l_perm e @ r4)) = Some (l_perm e, r4)"
    unfolding r4_def by (rule scan_perm [OF assms])
  have "scan_space r4 = hex_text 16 (unat (l_off e)) @ r5"
    unfolding r4_def using digits_head [OF hex_text_digits [of 16 "unat (l_off e)"]] by (intro scan_space_one) auto
  then have 4: "scan_number hex_digit 16 (scan_space r4) = Some (l_off e, r5)"
    using scan_number_hex [of 16 "l_off e" "CHR '' ''"] lt sep_chars by (simp add: r5_def)
  have "length (print_line e @ nl) = length (print_head e) + length r7"
    by (simp add: print_line_def r7_def)
  then have 5: "scan_tail (print_line e @ nl) r5 = Some (length (print_head e))"
    unfolding r5_def r7_def using scan_tail_print [OF assms] by simp
  show ?thesis by (simp add: scan_map_line_def 1 scan_char_def 2 3 4 5)
qed

lemma skip_space_run:
  assumes "\<forall>i<k. isspace (buf ! (n + i))" and "\<not> isspace (buf ! (n + k))" and "n + k \<le> 511"
  shows "skip_space buf n = n + k"
  using assms
proof (induction k arbitrary: n)
  case 0
  then show ?case by (subst skip_space.simps) simp
next
  case (Suc k)
  have "isspace (buf ! n)" using Suc.prems(1) by (metis add_0_right zero_less_Suc)
  moreover have "skip_space buf (Suc n) = Suc n + k"
  proof (rule Suc.IH)
    show "\<forall>i<k. isspace (buf ! (Suc n + i))" using Suc.prems(1) by (metis Suc_less_eq add_Suc add_Suc_right)
  qed (use Suc.prems in auto)
  ultimately show ?case using Suc.prems(3) by (subst skip_space.simps) simp
qed

lemma path_of_print:
  assumes "line_fits e"
  shows "path_of (put_line (print_line e @ [CHR 0x0A]) buf) (length (print_head e)) =
      (if hd (l_path e) = CHR ''['' then None else Some (l_path e))"
    "skip_space (put_line (print_line e @ [CHR 0x0A]) buf) (length (print_head e)) = length (print_head e) + Suc (l_gap e)"
proof -
  note ok = assms [unfolded line_fits_def]
  define h where "h = print_head e"
  define B where "B = put_line (print_line e @ [CHR 0x0A]) buf"
  have B: "B = h @ replicate (Suc (l_gap e)) (CHR '' '') @ l_path e @ CHR 0x0A # CHR 0x00 # drop (Suc (length (print_line e @ [CHR 0x0A]))) buf"
    by (simp add: B_def put_line_def print_line_def h_def)
  have len: "length h + Suc (l_gap e) + length (l_path e) + 2 \<le> 512" using ok by (simp add: print_line_def h_def)
  have "isspace (B ! (length h + i))" if "i < Suc (l_gap e)" for i
    using that unfolding B by (simp add: nth_append isspace_def del: replicate_Suc)
  moreover have "B ! (length h + Suc (l_gap e)) = hd (l_path e)"
    using ok unfolding B by (simp add: nth_append hd_conv_nth del: replicate_Suc)
  ultimately have sk: "skip_space B (length h) = length h + Suc (l_gap e)"
    using len ok by (intro skip_space_run) auto
  then show "skip_space (put_line (print_line e @ [CHR 0x0A]) buf) (length (print_head e)) = length (print_head e) + Suc (l_gap e)"
    by (simp add: B_def h_def)
  have d: "drop (length h + Suc (l_gap e)) B = l_path e @ CHR 0x0A # CHR 0x00 # drop (Suc (length (print_line e @ [CHR 0x0A]))) buf"
    unfolding B by (simp del: replicate_Suc)
  have "c_string B (length h + Suc (l_gap e)) = l_path e @ [CHR 0x0A]"
  proof -
    have "takeWhile (\<lambda>c. c \<noteq> CHR 0x00) ((l_path e @ [CHR 0x0A]) @ CHR 0x00 # u) = l_path e @ [CHR 0x0A]" for u
      using ok by (intro takeWhile_app_stop) auto
    then show ?thesis unfolding c_string_def d by (simp only: append.assoc append_Cons append_Nil)
  qed
  then show "path_of (put_line (print_line e @ [CHR 0x0A]) buf) (length (print_head e)) =
      (if hd (l_path e) = CHR ''['' then None else Some (l_path e))"
    unfolding B_def [symmetric] h_def [symmetric] path_of_def sk Let_def using ok len by simp
qed


section \<open>A refresh follows the map\<close>

text \<open>What decides about a library: the first registered hook whose pattern matches its path. It applies when no exception
  whose pattern matches is for all symbols or for the symbol of the hook. Hooks further on are not looked at.\<close>

definition excepted :: "core_env \<Rightarrow> xh_core \<Rightarrow> string \<Rightarrow> u8 list \<Rightarrow> bool" where
  "excepted env st path sy \<longleftrightarrow>
     (\<exists>ii\<in>set (ignore_infos st). rx_matches env (ii_regex ii) path \<and> (ii_symbol ii = None \<or> ii_symbol ii = Some sy))"

definition first_hook_applies :: "core_env \<Rightarrow> xh_core \<Rightarrow> string \<Rightarrow> bool" where
  "first_hook_applies env st path \<longleftrightarrow>
     (\<exists>pre hi post. hook_infos st = pre @ hi # post \<and> (\<forall>h\<in>set pre. \<not> rx_matches env (hi_regex h) path) \<and>
        rx_matches env (hi_regex hi) path \<and> \<not> excepted env st path (hi_symbol hi))"

lemma verdict_hook:
  "verdict_of env path sy iis = Hook_It \<longleftrightarrow>
    \<not> (\<exists>ii\<in>set iis. rx_matches env (ii_regex ii) path \<and> (ii_symbol ii = None \<or> ii_symbol ii = Some sy))"
  by (induction iis) (auto split: option.splits)

lemma wanted_iff: "wanted env (ignore_infos st) path (hook_infos st) \<longleftrightarrow> first_hook_applies env st path"
proof -
  have "wanted env (ignore_infos st) path his \<longleftrightarrow>
      (\<exists>pre hi post. his = pre @ hi # post \<and> (\<forall>h\<in>set pre. \<not> rx_matches env (hi_regex h) path) \<and>
        rx_matches env (hi_regex hi) path \<and> \<not> excepted env st path (hi_symbol hi))" (is "_ \<longleftrightarrow> ?R his") for his
  proof (induction his)
    case (Cons h his)
    show ?case
    proof (cases "rx_matches env (hi_regex h) path")
      case True
      have "?R (h # his) \<longleftrightarrow> \<not> excepted env st path (hi_symbol h)"
      proof
        assume "?R (h # his)"
        then obtain pre hi post where d: "h # his = pre @ hi # post" "\<forall>h\<in>set pre. \<not> rx_matches env (hi_regex h) path"
          "\<not> excepted env st path (hi_symbol hi)" by blast
        then show "\<not> excepted env st path (hi_symbol h)" using True by (cases pre) auto
      next
        assume "\<not> excepted env st path (hi_symbol h)"
        then show "?R (h # his)" using True by (intro exI [of _ "[]"] exI [of _ h] exI [of _ his]) simp
      qed
      then show ?thesis using True by (simp add: verdict_hook excepted_def)
    next
      case False
      have "?R (h # his) \<longleftrightarrow> ?R his"
      proof
        assume "?R (h # his)"
        then obtain pre hi post where d: "h # his = pre @ hi # post" "\<forall>h\<in>set pre. \<not> rx_matches env (hi_regex h) path"
          "rx_matches env (hi_regex hi) path" "\<not> excepted env st path (hi_symbol hi)" by blast
        then obtain pre' where "pre = h # pre'" using False by (cases pre) auto
        then show "?R his" using d by (intro exI [of _ pre'] exI [of _ hi] exI [of _ post]) simp
      next
        assume "?R his"
        then obtain pre hi post where "his = pre @ hi # post" "\<forall>h\<in>set pre. \<not> rx_matches env (hi_regex h) path"
          "rx_matches env (hi_regex hi) path" "\<not> excepted env st path (hi_symbol hi)" by blast
        then show "?R (h # his)" using False by (intro exI [of _ "h # pre"] exI [of _ hi] exI [of _ post]) simp
      qed
      then show ?thesis using False Cons.IH by simp
    qed
  qed simp
  then show ?thesis by (simp add: first_hook_applies_def)
qed

definition candidate :: "core_env \<Rightarrow> xh_core \<Rightarrow> lib_line \<Rightarrow> bool" where
  "candidate env st e \<longleftrightarrow> l_perm e ! 0 = CHR ''r'' \<and> l_perm e ! 3 = CHR ''p'' \<and> l_off e = 0 \<and> hd (l_path e) \<noteq> CHR ''['' \<and>
     first_hook_applies env st (l_path e)"

definition same_libs :: "refresh_state \<Rightarrow> refresh_state \<Rightarrow> bool" where
  "same_libs rs rs' \<longleftrightarrow> old_libs rs' = old_libs rs \<and> new_libs rs' = new_libs rs"

lemma refresh_line_print:
  assumes "line_fits e"
  shows "\<exists>rs1. same_libs rs rs1 \<and> refresh_line os env st (print_line e @ [CHR 0x0A]) rs p =
    (if \<not> candidate env st e then Some (Inr (), rs1, p)
     else case xh_core_check_elf_header st p (l_base e) of
       Inl x \<Rightarrow> Some (Inl x, rs1, p)
     | Inr r \<Rightarrow> if r \<noteq> 0 then Some (Inr (), rs1, p) else refresh_lib os env st (l_path e) (l_base e) rs1 p)"
proof -
  have len: "length (l_perm e) = 4" using assms by (simp add: line_fits_def)
  have f: "fill (l_perm e) b ! 0 = l_perm e ! 0" "fill (l_perm e) b ! 3 = l_perm e ! 3" for b
    using fill_nth [of _ "l_perm e"] len by simp_all
  define B where "B = put_line (print_line e @ [CHR 0x0A]) (line_buf rs)"
  have pb: "path_of B (length (print_head e)) = (if hd (l_path e) = CHR ''['' then None else Some (l_path e))"
    unfolding B_def by (rule path_of_print(1) [OF assms])
  define n where "n = skip_space B (length (print_head e))"
  define rs1 where "rs1 = rs\<lparr>line_buf := B, perm_buf := fill (l_perm e) (perm_buf rs), name_pos := Some (length (print_head e))\<rparr>"
  define rs2 where "rs2 = rs1\<lparr>name_pos := Some n\<rparr>"
  define rs3 where "rs3 = rs1\<lparr>name_pos := Some n, line_buf := B[n + length (l_path e) := CHR 0x00]\<rparr>"
  have sames: "same_libs rs rs1" "same_libs rs rs2" "same_libs rs rs3"
    by (simp_all add: same_libs_def rs1_def rs2_def rs3_def)
  have eq: "refresh_line os env st (print_line e @ [CHR 0x0A]) rs p =
    (if l_perm e ! 0 \<noteq> CHR ''r'' then Some (Inr (), rs1, p)
     else if l_perm e ! 3 \<noteq> CHR ''p'' then Some (Inr (), rs1, p)
     else if l_off e \<noteq> 0 then Some (Inr (), rs1, p)
     else if hd (l_path e) = CHR ''['' then Some (Inr (), rs2, p)
     else if \<not> wanted env (ignore_infos st) (l_path e) (hook_infos st) then Some (Inr (), rs3, p)
     else case xh_core_check_elf_header st p (l_base e) of
         Inl x \<Rightarrow> Some (Inl x, rs3, p)
       | Inr r \<Rightarrow> if r \<noteq> 0 then Some (Inr (), rs3, p) else refresh_lib os env st (l_path e) (l_base e) rs3 p)"
    unfolding refresh_line_def scan_print_line [OF assms] Let_def prod.case option.case B_def [symmetric] pb
      n_def [symmetric] rs1_def [symmetric] f rs2_def rs3_def
    by simp
  show ?thesis
  proof (cases "candidate env st e")
    case True
    then show ?thesis using sames(3) eq by (intro exI [of _ rs3]) (simp add: candidate_def wanted_iff)
  next
    case False
    then have "\<exists>r\<in>{rs1, rs2, rs3}. refresh_line os env st (print_line e @ [CHR 0x0A]) rs p = Some (Inr (), r, p)"
      unfolding eq candidate_def wanted_iff by auto
    then show ?thesis using False sames by auto
  qed
qed

lemma hook_keeps_lib:
  "xh_core_hook os env st li p = Some (r, li', p') \<Longrightarrow> li_path li' = li_path li \<and> li_base li' = li_base li"
  by (auto simp: xh_core_hook_def xh_core_hook_impl_def split: option.splits prod.splits sum.splits if_splits)

definition tracked :: "(string \<Rightarrow> lib_info option) \<Rightarrow> string \<Rightarrow> u64 option" where
  "tracked ls path = map_option li_base (ls path)"

definition keyed :: "(string \<Rightarrow> lib_info option) \<Rightarrow> bool" where
  "keyed ls \<longleftrightarrow> (\<forall>path li. ls path = Some li \<longrightarrow> li_path li = path)"

text \<open>Hooking a library at a base returns, whatever was known of it, and keeps the property \<open>I\<close> of the address space.\<close>

definition hooks_ok :: "xh_os \<Rightarrow> core_env \<Rightarrow> xh_core \<Rightarrow> (process \<Rightarrow> bool) \<Rightarrow> string \<Rightarrow> u64 \<Rightarrow> bool" where
  "hooks_ok os env st I path base \<longleftrightarrow> (\<forall>li p. I p \<and> li_path li = path \<and> li_base li = base \<longrightarrow>
     (\<exists>li' p'. xh_core_hook os env st li p = Some (Inr (), li', p') \<and> I p'))"

lemma refresh_lib_tracks:
  assumes "I p" and "alloc_ok env path" and "keyed (old_libs rs)" and "keyed (new_libs rs)" and "hooks_ok os env st I path base"
  shows "\<exists>rs' p'. refresh_lib os env st path base rs p = Some (Inr (), rs', p') \<and> I p' \<and> keyed (old_libs rs') \<and> keyed (new_libs rs') \<and>
    tracked (new_libs rs') = (if tracked (new_libs rs) path = None then (tracked (new_libs rs))(path \<mapsto> base) else tracked (new_libs rs))"
proof -
  have upd: "tracked ((new_libs rs)(path \<mapsto> li)) = (tracked (new_libs rs))(path \<mapsto> li_base li)" for li
    by (rule ext) (simp add: tracked_def)
  have hk: "\<exists>li' p'. xh_core_hook os env st li p = Some (Inr (), li', p') \<and> I p' \<and> li_path li' = path \<and> li_base li' = base"
    if "li_path li = path" "li_base li = base" for li
    using assms(1,5) that hook_keeps_lib [of os env st li p] unfolding hooks_ok_def by metis
  have keys: "keyed ((old_libs rs)(path := None))" "li_path li = path \<Longrightarrow> keyed ((new_libs rs)(path \<mapsto> li))" for li
    using assms(3,4) by (auto simp: keyed_def)
  show ?thesis
  proof (cases "new_libs rs path")
    case (Some x)
    then show ?thesis using assms keys(1) unfolding refresh_lib_def
      by (auto simp: tracked_def Let_def split: option.splits)
  next
    case None
    then have t: "tracked (new_libs rs) path = None" by (simp add: tracked_def)
    show ?thesis
    proof (cases "old_libs rs path")
      case none: None
      obtain li' p' where h: "xh_core_hook os env st \<lparr>li_path = path, li_base = base, li_elf = zero_elf\<rparr> p = Some (Inr (), li', p')"
        "I p'" "li_path li' = path" "li_base li' = base"
        using hk [of "\<lparr>li_path = path, li_base = base, li_elf = zero_elf\<rparr>"] by auto
      then show ?thesis using none None assms(2,3) keys(2) t by (simp add: refresh_lib_def upd)
    next
      case li: (Some li)
      then have lp: "li_path li = path" using assms(3) by (simp add: keyed_def)
      show ?thesis
      proof (cases "li_base li = base")
        case True
        then show ?thesis using li None assms(1) keys lp t by (simp add: refresh_lib_def Let_def upd)
      next
        case False
        obtain li' p' where h: "xh_core_hook os env st (li\<lparr>li_base := base\<rparr>) p = Some (Inr (), li', p')"
          "I p'" "li_path li' = path" "li_base li' = base"
          using hk [of "li\<lparr>li_base := base\<rparr>"] lp by auto
        then show ?thesis using li None False keys t by (simp add: refresh_lib_def Let_def upd)
      qed
    qed
  qed
qed

definition goods :: "core_env \<Rightarrow> xh_core \<Rightarrow> (u64 \<Rightarrow> int) \<Rightarrow> lib_line list \<Rightarrow> (string \<times> u64) list" where
  "goods env st hdr es = map (\<lambda>e. (l_path e, l_base e)) (filter (\<lambda>e. candidate env st e \<and> hdr (l_base e) = 0) es)"

lemma refresh_lines_track:
  assumes "\<forall>e\<in>set es. line_fits e" and "I p" and "\<forall>path. alloc_ok env path"
    and "\<forall>e\<in>set es. \<forall>q. I q \<longrightarrow> xh_core_check_elf_header st q (l_base e) = Inr (hdr (l_base e))"
    and "\<forall>(path, base)\<in>set (goods env st hdr es). hooks_ok os env st I path base"
    and "keyed (old_libs rs)" and "keyed (new_libs rs)"
  shows "\<exists>rs' p'. refresh_lines os env st (map (\<lambda>e. print_line e @ [CHR 0x0A]) es) rs p = Some (Inr (), rs', p') \<and> I p' \<and>
    keyed (new_libs rs') \<and> tracked (new_libs rs') = map_of (goods env st hdr es) ++ tracked (new_libs rs)"
  using assms
proof (induction es arbitrary: rs p)
  case Nil
  then show ?case by (simp add: goods_def)
next
  case (Cons e es)
  have prems: "\<forall>e\<in>set es. line_fits e" "\<forall>e\<in>set es. \<forall>q. I q \<longrightarrow> xh_core_check_elf_header st q (l_base e) = Inr (hdr (l_base e))"
    "\<forall>(path, base)\<in>set (goods env st hdr es). hooks_ok os env st I path base"
    using Cons.prems(1,4,5) by (auto simp: goods_def)
  note IH = Cons.IH [OF prems(1) _ Cons.prems(3) prems(2,3)]
  have "line_fits e" using Cons.prems(1) by simp
  from refresh_line_print [OF this, of rs os env st p] obtain rs1 where s: "same_libs rs rs1" and
    line: "refresh_line os env st (print_line e @ [CHR 0x0A]) rs p =
    (if \<not> candidate env st e then Some (Inr (), rs1, p)
     else case xh_core_check_elf_header st p (l_base e) of
       Inl x \<Rightarrow> Some (Inl x, rs1, p)
     | Inr r \<Rightarrow> if r \<noteq> 0 then Some (Inr (), rs1, p) else refresh_lib os env st (l_path e) (l_base e) rs1 p)" by blast
  have chk: "xh_core_check_elf_header st p (l_base e) = Inr (hdr (l_base e))" using Cons.prems(2,4) by simp
  have k1: "keyed (old_libs rs1)" "keyed (new_libs rs1)" using s Cons.prems(6,7) by (simp_all add: same_libs_def)
  show ?case
  proof (cases "candidate env st e \<and> hdr (l_base e) = 0")
    case False
    then have "refresh_line os env st (print_line e @ [CHR 0x0A]) rs p = Some (Inr (), rs1, p)"
      using line chk by auto
    moreover have "goods env st hdr (e # es) = goods env st hdr es" using False by (simp add: goods_def)
    ultimately show ?thesis using IH [OF Cons.prems(2) k1] s by (simp add: same_libs_def)
  next
    case True
    then have g: "goods env st hdr (e # es) = (l_path e, l_base e) # goods env st hdr es" by (simp add: goods_def)
    then have "hooks_ok os env st I (l_path e) (l_base e)" using Cons.prems(5) by simp
    from refresh_lib_tracks [OF Cons.prems(2) _ k1 this] Cons.prems(3) obtain rs2 p2 where
      r: "refresh_lib os env st (l_path e) (l_base e) rs1 p = Some (Inr (), rs2, p2)" and i: "I p2"
      and k2: "keyed (old_libs rs2)" "keyed (new_libs rs2)" and t: "tracked (new_libs rs2) =
        (if tracked (new_libs rs1) (l_path e) = None then (tracked (new_libs rs1))(l_path e \<mapsto> l_base e) else tracked (new_libs rs1))"
      by blast
    have "refresh_line os env st (print_line e @ [CHR 0x0A]) rs p = Some (Inr (), rs2, p2)"
      using line chk True r by simp
    moreover have "map_of (goods env st hdr es) ++ tracked (new_libs rs2) = map_of (goods env st hdr (e # es)) ++ tracked (new_libs rs)"
    proof -
      have n: "new_libs rs1 = new_libs rs" using s by (simp add: same_libs_def)
      show ?thesis unfolding g t n by (auto simp: map_add_def fun_eq_iff split: option.splits)
    qed
    ultimately show ?thesis using IH [OF i k2] by simp
  qed
qed


lemma print_line_plain:
  assumes "line_fits e"
  shows "CHR 0x0A \<notin> set (print_line e) \<and> length (print_line e) + 2 \<le> 512"
proof -
  note ok = assms [unfolded line_fits_def]
  have sp: "isspace (CHR 0x0A)" by (simp add: isspace_def)
  have d: "CHR 0x0A \<notin> set ds" if "digits dig ds" "dig = hex_digit \<or> dig = dec_digit" for dig ds
    using that hex_digit_plain(1) dec_is_hex sp by (metis digits_def)
  have "CHR 0x0A \<notin> set (hex_text 16 x)" for x using d [OF hex_text_digits [of 16 x]] by simp
  moreover have "CHR 0x0A \<notin> set (l_perm e)" using ok sp by blast
  moreover have "CHR 0x0A \<notin> set (l_end e)" "CHR 0x0A \<notin> set (l_major e)" "CHR 0x0A \<notin> set (l_minor e)" "CHR 0x0A \<notin> set (l_inode e)"
    using ok d by blast+
  ultimately show ?thesis using ok by (simp add: print_line_def print_head_def)
qed

lemma maps_lines:
  assumes "\<forall>e\<in>set es. line_fits e"
  shows "fgets_lines 512 (text_of (map print_line es)) = map (\<lambda>e. print_line e @ [CHR 0x0A]) es"
  using fgets_lines_text [of "map print_line es" 512] print_line_plain assms by (simp add: comp_def)

lemma refresh_lines_none:
  assumes "\<forall>e\<in>set es. line_fits e \<and> \<not> candidate env st e"
  shows "\<exists>rs'. same_libs rs rs' \<and> refresh_lines os env st (map (\<lambda>e. print_line e @ [CHR 0x0A]) es) rs p = Some (Inr (), rs', p)"
  using assms
proof (induction es arbitrary: rs)
  case Nil
  then show ?case by (simp add: same_libs_def)
next
  case (Cons e es)
  then obtain rs1 where "same_libs rs rs1" "refresh_line os env st (print_line e @ [CHR 0x0A]) rs p = Some (Inr (), rs1, p)"
    using refresh_line_print [of e rs os env st p] by auto
  moreover obtain rs2 where "same_libs rs1 rs2"
    "refresh_lines os env st (map (\<lambda>e. print_line e @ [CHR 0x0A]) es) rs1 p = Some (Inr (), rs2, p)"
    using Cons.IH [of rs1] Cons.prems by auto
  ultimately show ?case by (auto simp: same_libs_def)
qed

section \<open>Containment of faults\<close>

definition contained :: "xh_core \<Rightarrow> 'a res \<Rightarrow> bool" where
  "contained st r \<longleftrightarrow> (case r of Inl e \<Rightarrow> \<not> caught st e | Inr _ \<Rightarrow> True)"

lemma hook_contained: "xh_core_hook os env st li p = Some (r, li', p') \<Longrightarrow> contained st r"
  by (auto simp: xh_core_hook_def contained_def split: option.splits prod.splits sum.splits if_splits)

lemma refresh_lib_contained: "refresh_lib os env st path base rs p = Some (r, rs', p') \<Longrightarrow> contained st r"
  by (auto simp: refresh_lib_def Let_def split: option.splits if_splits prod.splits dest: hook_contained)
    (simp_all add: contained_def)

lemma header_contained: "contained st (xh_core_check_elf_header st p base)"
  by (simp add: contained_def xh_core_check_elf_header_def split: sum.split)

lemma not_caught_contained: "e \<notin> {Wild_Access, Null_Deref} \<Longrightarrow> contained st (Inl e)"
  by (auto simp: contained_def caught_def)

text \<open>A line on which the conversions that count succeed is read to its end.\<close>

definition line_complete :: "string \<Rightarrow> bool" where
  "line_complete line \<longleftrightarrow> (case scan_map_line line of (_, Some _, None) \<Rightarrow> False | _ \<Rightarrow> True)"

lemma refresh_line_contained:
  assumes "refresh_line os env st line rs p = Some (r, rs', p')" and "line_complete line"
  shows "contained st r"
proof -
  have h: "contained st (Inl e :: unit res)" if "xh_core_check_elf_header st q b = Inl e" for q b e
    using header_contained [of st q b] that by (simp add: contained_def)
  have l: "contained st r'" if "refresh_lib os env st path b rs1 q = Some (r', rs2, q2)" for path b rs1 r' rs2 q q2
    by (rule refresh_lib_contained [OF that])
  have c: "contained st (Inr ())" by (simp add: contained_def)
  show ?thesis
    using assms unfolding refresh_line_def line_complete_def
    by (auto simp: Let_def c split: prod.splits option.splits if_splits sum.splits dest: h l)
qed

lemma refresh_lines_contained:
  "refresh_lines os env st ls rs p = Some (r, rs', p') \<Longrightarrow> \<forall>line\<in>set ls. line_complete line \<Longrightarrow> contained st r"
proof (induction ls arbitrary: rs p)
  case Nil
  then show ?case by (auto simp: contained_def)
next
  case (Cons line ls)
  then show ?case by (auto split: option.splits prod.splits sum.splits dest: refresh_line_contained)
qed

text \<open>The text of the memory map when a refresh reads it.\<close>

definition maps_complete :: "xh_os \<Rightarrow> process \<Rightarrow> bool" where
  "maps_complete os p \<longleftrightarrow> (\<forall>text. self_maps os p = Some text \<longrightarrow> (\<forall>line\<in>set (fgets_lines 512 text). line_complete line))"

lemma refresh_impl_contained:
  "xh_core_refresh_impl os env st p = Some (r, st', p') \<Longrightarrow> maps_complete os p \<Longrightarrow> contained st r"
  by (auto simp: xh_core_refresh_impl_def maps_complete_def split: option.splits prod.splits sum.splits dest: refresh_lines_contained)
    (simp_all add: contained_def)

text \<open>A fault in hooking a library: the library counts as seen, and the refresh goes on with the next line.\<close>

lemma hook_fault_passed_over:
  assumes "line_fits e" and "candidate env st e" and "xh_core_check_elf_header st q (l_base e) = Inr 0" and "alloc_ok env (l_path e)"
    and "new_libs rs (l_path e) = None"
    and "old_libs rs (l_path e) = None \<and> li = \<lparr>li_path = l_path e, li_base = l_base e, li_elf = zero_elf\<rparr> \<or>
      (\<exists>li0. old_libs rs (l_path e) = Some li0 \<and> li_base li0 \<noteq> l_base e \<and> li = li0\<lparr>li_base := l_base e\<rparr>)"
    and "xh_core_hook_impl os env st li q = Some (Inl x, li', q')" and "caught st x"
  shows "\<exists>rs'. new_libs rs' = (new_libs rs)(l_path e \<mapsto> li') \<and> old_libs rs' = (old_libs rs)(l_path e := None) \<and>
    refresh_lines os env st ((print_line e @ [CHR 0x0A]) # ls) rs q = refresh_lines os env st ls rs' q'"
proof -
  have h: "xh_core_hook os env st li q = Some (Inr (), li', q')" using assms(7,8) by (simp add: xh_core_hook_def)
  from refresh_line_print [OF assms(1), of rs os env st q] obtain rs1 where s: "same_libs rs rs1"
    and line: "refresh_line os env st (print_line e @ [CHR 0x0A]) rs q = refresh_lib os env st (l_path e) (l_base e) rs1 q"
    using assms(2,3) by auto
  have "\<exists>rs'. refresh_lib os env st (l_path e) (l_base e) rs1 q = Some (Inr (), rs', q') \<and>
      new_libs rs' = (new_libs rs)(l_path e \<mapsto> li') \<and> old_libs rs' = (old_libs rs)(l_path e := None)"
    using assms(6) h s assms(4,5) by (auto simp: refresh_lib_def same_libs_def Let_def fun_upd_idem)
  then show ?thesis using line by auto
qed

lemma header_fault_passed_over:
  assumes "line_fits e" and "xh_elf_check_elfheader q (l_base e) = Inl x" and "caught st x"
  shows "\<exists>rs'. new_libs rs' = new_libs rs \<and> old_libs rs' = old_libs rs \<and>
    refresh_lines os env st ((print_line e @ [CHR 0x0A]) # ls) rs q = refresh_lines os env st ls rs' q"
proof -
  have "xh_core_check_elf_header st q (l_base e) = Inr XH_ERRNO_SEGVERR" using assms(2,3) by (simp add: xh_core_check_elf_header_def)
  with refresh_line_print [OF assms(1), of rs os env st q] obtain rs1 where "same_libs rs rs1"
    "refresh_line os env st (print_line e @ [CHR 0x0A]) rs q = Some (Inr (), rs1, q)"
    by (auto simp: xh_errno_defs split: if_splits)
  then show ?thesis by (auto simp: same_libs_def)
qed

lemma refresh_tracks:
  assumes "self_maps os p = Some (text_of (map print_line es))" and "\<forall>e\<in>set es. line_fits e" and "I p"
    and "\<forall>path. alloc_ok env path"
    and "\<forall>e\<in>set es. \<forall>q. I q \<longrightarrow> xh_core_check_elf_header st q (l_base e) = Inr (hdr (l_base e))"
    and "\<forall>(path, base)\<in>set (goods env st hdr es). hooks_ok os env st I path base" and "keyed (libs st)"
  shows "\<exists>libs' p'. xh_core_refresh_impl os env st p = Some (Inr (), st\<lparr>libs := libs'\<rparr>, p') \<and> I p' \<and> keyed libs' \<and>
    (\<forall>path. map_option li_base (libs' path) = map_of (goods env st hdr es) path)"
proof -
  define rs where "rs = \<lparr>old_libs = libs st, new_libs = (\<lambda>_. None) :: string \<Rightarrow> lib_info option,
        line_buf = line_junk env, perm_buf = perm_junk os, name_pos = None\<rparr>"
  have e: "keyed (old_libs rs)" "keyed (new_libs rs)" "tracked (new_libs rs) = Map.empty"
    using assms(7) by (auto simp: rs_def keyed_def tracked_def)
  from refresh_lines_track [OF assms(2-6) e(1,2)] obtain rs' p' where
    l: "refresh_lines os env st (map (\<lambda>e. print_line e @ [CHR 0x0A]) es) rs p = Some (Inr (), rs', p')"
    and r: "I p'" "keyed (new_libs rs')" "tracked (new_libs rs') = map_of (goods env st hdr es)"
    unfolding e(3) by (auto simp: map_add_empty)
  have "xh_core_refresh_impl os env st p = Some (Inr (), st\<lparr>libs := new_libs rs'\<rparr>, p')"
    using l unfolding rs_def by (simp add: xh_core_refresh_impl_def assms(1) maps_lines [OF assms(2)])
  then show ?thesis using r by (auto simp: tracked_def fun_eq_iff)
qed

section \<open>Properties of the core\<close>

text \<open>C26. A refresh brings the table of libraries in step with the memory map: after it the table has exactly the
  libraries that a readable private mapping at offset 0 names, that pass the header check, and for which the first
  registered hook that matches the path is not ruled out by an exception (for the library or for the symbol of that
  hook), each with the base address of the first such mapping; provided that the
  mappings are printed in lines that fit the buffer, allocations succeed, and hooking a library
  returns and leaves the headers alone. A library whose first matching hook is ruled out is dropped even when a
  later hook would apply to it.\<close>

theorem refresh_tracks_maps:
  assumes "self_maps os p = Some (text_of (map print_line es))" and "\<forall>e\<in>set es. line_fits e" and "I p"
    and "\<forall>path. alloc_ok env path"
    and "\<forall>e\<in>set es. \<forall>q. I q \<longrightarrow> xh_core_check_elf_header st q (l_base e) = Inr (hdr (l_base e))"
    and "\<forall>(path, base)\<in>set (goods env st hdr es). hooks_ok os env st I path base" and "keyed (libs st)"
  shows "\<exists>libs' p'. xh_core_refresh_impl os env st p = Some (Inr (), st\<lparr>libs := libs'\<rparr>, p') \<and> I p' \<and> keyed libs' \<and>
    (\<forall>path. map_option li_base (libs' path) = map_of (goods env st hdr es) path)"
  by (rule refresh_tracks [OF assms])

definition sample_env :: core_env where
  "sample_env = \<lparr>rx_compiles = \<lambda>_. True, rx_matches = \<lambda>re s. strstr s re, alloc_ok = \<lambda>_. True, sigaction_errno = None, stack_sa_flags = 0,
     thread_ok = True, line_junk = []\<rparr>"

definition sample_free :: "u8 list" where
  "sample_free = [0x66, 0x72, 0x65, 0x65]"

definition sample_core :: xh_core where
  "sample_core = xh_core_start\<lparr>hook_infos := [\<lparr>hi_regex = ''.so'', hi_symbol = sample_free, hi_new = 0xBBBB0000, hi_old = 0\<rparr>]\<rparr>"

definition sample_line :: lib_line where
  "sample_line = \<lparr>l_base = 0x10000, l_end = ''11000'', l_perm = ''r--p'', l_off = 0, l_major = ''fd'', l_minor = ''01'',
     l_inode = ''77'', l_gap = 5, l_path = ''/l.so''\<rparr>"

definition sample_core_os :: xh_os where
  "sample_core_os = sample_hook_os\<lparr>self_maps := \<lambda>_. Some (text_of (map print_line [sample_line]))\<rparr>"

lemma sample_line_fits: "line_fits sample_line"
proof -
  have "\<forall>c\<in>set ''11000fd01''. hex_digit c \<noteq> None" "\<forall>c\<in>set ''77''. dec_digit c \<noteq> None" by code_simp+
  then show ?thesis by (simp add: line_fits_def sample_line_def digits_def isspace_def print_line_def print_head_def)
qed

lemma sample_hooks:
  assumes "hook_infos st = hook_infos sample_core" and "ignore_infos st = []"
  shows "hooks_ok sample_core_os sample_env st (\<lambda>q. q = sample_lib) ''/l.so'' 0x10000"
proof -
  have i: "xh_elf_init sample_lib elf 0x10000 (Some ''/l.so'') = (Inr 0, sample_elf)" for elf
    using sample_init by (simp add: xh_elf_init_def)
  have "hash_chain sample_lib sample_elf sample_free 1 = Some (Inr (List.find (named sample_lib sample_elf sample_free) [1]))"
    by (rule hash_chain_finds)
      (auto simp: sample_names name_ok_def sample_free_def sample_loads word_map_def sample_words_def)
  moreover have "\<not> named sample_lib sample_elf sample_free 1"
    by (simp add: named_def sample_names sample_free_def sample_loads word_map_def sample_words_def)
  ultimately have "xh_elf_find_symidx_by_name sample_lib sample_elf sample_free = Some (Inr None)"
    using sample_names(3) by (simp add: xh_elf_find_symidx_by_name_def xh_elf_hash_lookup_def)
      (simp add: sample_elf_def zero_elf_def)
  then have "hook_all sample_core_os sample_env [] ''/l.so'' sample_elf (hook_infos sample_core) sample_lib = Some (Inr (), sample_lib)"
    by (simp add: sample_core_def sample_env_def xh_elf_hook_def)
  then show ?thesis
    by (auto simp: hooks_ok_def xh_core_hook_def xh_core_hook_impl_def i assms)
qed

text \<open>What a refresh of the sample leaves behind, whichever way it is asked for.\<close>

lemma sample_refresh:
  assumes "hook_infos st = hook_infos sample_core" and "ignore_infos st = []" and "keyed (libs st)"
  shows "\<exists>libs'. xh_core_refresh_impl sample_core_os sample_env st sample_lib = Some (Inr (), st\<lparr>libs := libs'\<rparr>, sample_lib) \<and>
     map_option li_base (libs' ''/l.so'') = Some 0x10000 \<and> libs' ''/m.so'' = None"
proof -
  have "first_hook_applies sample_env st ''/l.so''"
    unfolding wanted_iff [symmetric] assms by (simp add: sample_core_def sample_env_def)
  then have g: "goods sample_env st (\<lambda>_. 0) [sample_line] = [(''/l.so'', 0x10000)]"
    by (simp add: goods_def candidate_def sample_line_def)
  have h: "\<forall>e\<in>set [sample_line]. \<forall>q. q = sample_lib \<longrightarrow> xh_core_check_elf_header st q (l_base e) = Inr 0"
    using sample_header by (simp add: xh_core_check_elf_header_def sample_line_def)
  have "\<forall>path. alloc_ok sample_env path" "self_maps sample_core_os sample_lib = Some (text_of (map print_line [sample_line]))"
    by (simp_all add: sample_env_def sample_core_os_def)
  then have "\<exists>libs' p'. xh_core_refresh_impl sample_core_os sample_env st sample_lib = Some (Inr (), st\<lparr>libs := libs'\<rparr>, p') \<and>
      p' = sample_lib \<and> keyed libs' \<and> (\<forall>path. map_option li_base (libs' path) = map_of (goods sample_env st (\<lambda>_. 0) [sample_line]) path)"
    using sample_line_fits sample_hooks [OF assms(1,2)] h g assms(3)
    by (intro refresh_tracks [where I = "\<lambda>q. q = sample_lib" and hdr = "\<lambda>_. 0" and es = "[sample_line]"]) auto
  then obtain libs' where r: "xh_core_refresh_impl sample_core_os sample_env st sample_lib = Some (Inr (), st\<lparr>libs := libs'\<rparr>, sample_lib)"
    and l: "map_option li_base (libs' path) = map_of [(''/l.so'', 0x10000)] path" for path
    unfolding g by blast
  have "map_option li_base (libs' ''/l.so'') = Some 0x10000" "libs' ''/m.so'' = None"
    using l [of "''/l.so''"] l [of "''/m.so''"] by simp_all
  with r show ?thesis by blast
qed

theorem refresh_tracks_maps_witness:
  "\<exists>libs' p'. xh_core_refresh_impl sample_core_os sample_env sample_core sample_lib = Some (Inr (), sample_core\<lparr>libs := libs'\<rparr>, p') \<and>
     map_option li_base (libs' ''/l.so'') = Some 0x10000 \<and> libs' ''/m.so'' = None"
proof -
  have g: "goods sample_env sample_core (\<lambda>_. 0) [sample_line] = [(''/l.so'', 0x10000)]"
    unfolding goods_def candidate_def wanted_iff [symmetric]
    by (simp add: sample_core_def xh_core_start_def sample_env_def sample_line_def)
  have h: "\<forall>e\<in>set [sample_line]. \<forall>q. q = sample_lib \<longrightarrow> xh_core_check_elf_header sample_core q (l_base e) = Inr 0"
    using sample_header by (simp add: xh_core_check_elf_header_def sample_line_def)
  have "\<forall>path. alloc_ok sample_env path" "self_maps sample_core_os sample_lib = Some (text_of (map print_line [sample_line]))"
    "keyed (libs sample_core)" "ignore_infos sample_core = []"
    by (simp_all add: sample_env_def sample_core_os_def sample_core_def xh_core_start_def keyed_def)
  then have "\<exists>libs' p'. xh_core_refresh_impl sample_core_os sample_env sample_core sample_lib = Some (Inr (), sample_core\<lparr>libs := libs'\<rparr>, p') \<and>
      p' = sample_lib \<and> keyed libs' \<and> (\<forall>path. map_option li_base (libs' path) = map_of (goods sample_env sample_core (\<lambda>_. 0) [sample_line]) path)"
    using sample_line_fits sample_hooks [of sample_core] h g
    by (intro refresh_tracks_maps [where I = "\<lambda>q. q = sample_lib" and hdr = "\<lambda>_. 0" and es = "[sample_line]"]) auto
  then obtain libs' p' where r: "xh_core_refresh_impl sample_core_os sample_env sample_core sample_lib = Some (Inr (), sample_core\<lparr>libs := libs'\<rparr>, p')"
    and l: "map_option li_base (libs' path) = map_of [(''/l.so'', 0x10000)] path" for path
    unfolding g by blast
  have "map_option li_base (libs' ''/l.so'') = Some 0x10000" "libs' ''/m.so'' = None"
    using l [of "''/l.so''"] l [of "''/m.so''"] by simp_all
  with r show ?thesis by blast
qed

text \<open>Ignoring one symbol can drop a whole library: when the first registered hook that matches a library is for an
  ignored symbol, a refresh leaves the library unhooked, and the address space as it was, although
  hooking the library would pass over that symbol only and go on with the other hooks.\<close>

theorem ignored_symbol_drops_library:
  assumes "self_maps os p = Some (text_of (map print_line es))" and "\<forall>e\<in>set es. line_fits e \<and> l_path e = path"
    and "hook_infos st = h1 # his" and "rx_matches env (hi_regex h1) path"
    and "verdict_of env path (hi_symbol h1) (ignore_infos st) = Skip_Symbol"
  shows "xh_core_refresh_impl os env st p = Some (Inr (), st\<lparr>libs := \<lambda>_. None\<rparr>, p) \<and>
    hook_all os env (ignore_infos st) path elf (hook_infos st) p = hook_all os env (ignore_infos st) path elf his p"
proof
  have "\<forall>e\<in>set es. line_fits e \<and> \<not> candidate env st e" using assms(2-5) by (auto simp: candidate_def simp flip: wanted_iff)
  from refresh_lines_none [OF this, of "\<lparr>old_libs = libs st, new_libs = \<lambda>_. None, line_buf = line_junk env,
        perm_buf = perm_junk os, name_pos = None\<rparr>" os p] maps_lines [of es] assms(1,2)
  show "xh_core_refresh_impl os env st p = Some (Inr (), st\<lparr>libs := \<lambda>_. None\<rparr>, p)"
    by (auto simp: xh_core_refresh_impl_def same_libs_def)
  show "hook_all os env (ignore_infos st) path elf (hook_infos st) p = hook_all os env (ignore_infos st) path elf his p"
    using assms(3-5) by simp
qed

definition sample_core_two :: xh_core where
  "sample_core_two = xh_core_start\<lparr>hook_infos := [\<lparr>hi_regex = ''.so'', hi_symbol = sample_free, hi_new = 0xBBBB0000, hi_old = 0\<rparr>,
       \<lparr>hi_regex = ''.so'', hi_symbol = sample_malloc, hi_new = 0xCCCC0000, hi_old = 0\<rparr>],
     ignore_infos := [\<lparr>ii_regex = ''/l.so'', ii_symbol = Some sample_free\<rparr>]\<rparr>"

theorem ignored_symbol_drops_library_witness:
  "xh_core_refresh_impl sample_core_os sample_env sample_core_two sample_lib = Some (Inr (), sample_core_two\<lparr>libs := \<lambda>_. None\<rparr>, sample_lib)"
  using ignored_symbol_drops_library [where os = sample_core_os and p = sample_lib and es = "[sample_line]" and path = "''/l.so''"
      and st = sample_core_two and env = sample_env] sample_line_fits
  by (simp add: sample_core_two_def sample_env_def sample_core_os_def sample_line_def)

text \<open>The protection works: it is on, and the handler is installed to stay, or will be by the first refresh.\<close>

definition protected :: "core_env \<Rightarrow> xh_core \<Rightarrow> bool" where
  "protected env st \<longleftrightarrow> sigsegv_enable st \<and>
     (if core_inited st then handler_on st else sigaction_errno env = None \<and> stack_sa_flags env AND SA_RESETHAND = 0)"

lemma protected_inited:
  "protected env st \<Longrightarrow> x \<in> {Wild_Access, Null_Deref} \<Longrightarrow> caught (xh_core_init_once env st) x"
  by (auto simp: protected_def caught_def xh_core_init_once_def xh_core_add_sigsegv_handler_def split: if_splits)

text \<open>C27. With the protection against faults switched on, and the handler installed without the flag that removes it
  after its first signal, no refresh, the first or a later one, asked for or run by the refresh thread, ends in a wild memory
  access, whatever the libraries and the patterns are, provided that the lines of the memory map are complete. A fault in
  the header of a mapping passes the line over; a fault in hooking a library, new or moved, leaves the library in the
  table, and either way the refresh goes on with the next line.\<close>

theorem sigsegv_contained:
  assumes "protected env st" and "maps_complete os p" and "x \<in> {Wild_Access, Null_Deref}"
  defines "st1 \<equiv> xh_core_init_once env st"
  shows "(\<forall>async st' p'. xh_core_refresh os env async st p \<noteq> Some (Inl x, st', p')) \<and>
    (\<forall>t st' p'. xh_core_refresh_thread_round os env st1 p \<noteq> Some (t, Inl x, st', p')) \<and>
    (\<forall>e q rs ls. line_fits e \<and> xh_elf_check_elfheader q (l_base e) = Inl x \<longrightarrow>
      (\<exists>rs'. new_libs rs' = new_libs rs \<and> old_libs rs' = old_libs rs \<and>
        refresh_lines os env st1 ((print_line e @ [CHR 0x0A]) # ls) rs q = refresh_lines os env st1 ls rs' q)) \<and>
    (\<forall>e q rs ls li li' q'. line_fits e \<and> candidate env st1 e \<and> xh_core_check_elf_header st1 q (l_base e) = Inr 0 \<and>
      alloc_ok env (l_path e) \<and> new_libs rs (l_path e) = None \<and>
      (old_libs rs (l_path e) = None \<and> li = \<lparr>li_path = l_path e, li_base = l_base e, li_elf = zero_elf\<rparr> \<or>
        (\<exists>li0. old_libs rs (l_path e) = Some li0 \<and> li_base li0 \<noteq> l_base e \<and> li = li0\<lparr>li_base := l_base e\<rparr>)) \<and>
      xh_core_hook_impl os env st1 li q = Some (Inl x, li', q') \<longrightarrow>
      (\<exists>rs'. new_libs rs' = (new_libs rs)(l_path e \<mapsto> li') \<and> old_libs rs' = (old_libs rs)(l_path e := None) \<and>
        refresh_lines os env st1 ((print_line e @ [CHR 0x0A]) # ls) rs q = refresh_lines os env st1 ls rs' q'))"
proof -
  have c: "caught st1 x" unfolding st1_def by (rule protected_inited [OF assms(1,3)])
  have impl: "xh_core_refresh_impl os env s p \<noteq> Some (Inl x, st', p')" if "caught s x" for s st' p'
    using refresh_impl_contained [OF _ assms(2)] that by (fastforce simp: contained_def)
  have "\<forall>async st' p'. xh_core_refresh os env async st p \<noteq> Some (Inl x, st', p')"
    using impl [OF c] unfolding xh_core_refresh_def st1_def [symmetric]
    by (auto simp: Let_def split: option.splits sum.splits)
  moreover have "caught (st1\<lparr>thread_do := False\<rparr>) x" using c by (simp add: caught_def)
  from impl [OF this] have "\<forall>t st' p'. xh_core_refresh_thread_round os env st1 p \<noteq> Some (t, Inl x, st', p')"
    by (auto simp: xh_core_refresh_thread_round_def split: option.splits if_splits)
  moreover note header_fault_passed_over [OF _ _ c] hook_fault_passed_over [OF _ _ _ _ _ _ _ c]
  ultimately show ?thesis by (intro conjI allI impI; (elim conjE)?) blast+
qed

theorem sigsegv_contained_witness:
  "\<exists>rs'. new_libs rs' = Map.empty \<and>
     refresh_lines sample_core_os sample_env (xh_core_init_once sample_env sample_core) [print_line sample_line @ [CHR 0x0A]]
       \<lparr>old_libs = Map.empty, new_libs = Map.empty, line_buf = [], perm_buf = ''xxxxx'', name_pos = None\<rparr>
       \<lparr>cells = \<lambda>_. None, prots = \<lambda>_. 0\<rparr> = Some (Inr (), rs', \<lparr>cells = \<lambda>_. None, prots = \<lambda>_. 0\<rparr>)"
proof -
  define p0 :: process where "p0 = \<lparr>cells = \<lambda>_. None, prots = \<lambda>_. 0\<rparr>"
  have pr: "protected sample_env sample_core"
    by (simp add: protected_def sample_core_def xh_core_start_def sample_env_def)
  have "maps_complete sample_core_os p0"
    using maps_lines [of "[sample_line]"] sample_line_fits scan_print_line [OF sample_line_fits]
    by (simp add: maps_complete_def sample_core_os_def line_complete_def)
  note t = sigsegv_contained [OF pr this, of Wild_Access]
  have "xh_elf_check_elfheader p0 (l_base sample_line) = Inl Wild_Access"
    by (simp add: xh_elf_check_elfheader_def load8_def readable_def p0_def)
  with t [THEN conjunct2, THEN conjunct2, THEN conjunct1, rule_format, of sample_line p0
      "\<lparr>old_libs = Map.empty, new_libs = Map.empty, line_buf = [], perm_buf = ''xxxxx'', name_pos = None\<rparr>" "[]"] sample_line_fits
  show ?thesis unfolding p0_def [symmetric] by (auto simp del: append_Cons)
qed


section \<open>The refresh thread\<close>

text \<open>A refresh reads of the core the registered hooks and exceptions, the libraries, and whether faults are caught.\<close>

definition same_view :: "xh_core \<Rightarrow> xh_core \<Rightarrow> bool" where
  "same_view s t \<longleftrightarrow> hook_infos s = hook_infos t \<and> ignore_infos s = ignore_infos t \<and> libs s = libs t \<and>
     sigsegv_enable s = sigsegv_enable t \<and> handler_on s = handler_on t"

lemma same_view_fields:
  assumes "same_view s t"
  shows "hook_infos s = hook_infos t" "ignore_infos s = ignore_infos t" "libs s = libs t" "caught s = caught t"
  using assms by (auto simp: same_view_def caught_def fun_eq_iff)

lemma same_view_header: "same_view s t \<Longrightarrow> xh_core_check_elf_header s = xh_core_check_elf_header t"
  by (intro ext) (unfold xh_core_check_elf_header_def same_view_fields [of s t], rule refl)

lemma same_view_hook: "same_view s t \<Longrightarrow> xh_core_hook os env s = xh_core_hook os env t"
  by (intro ext) (unfold xh_core_hook_def xh_core_hook_impl_def same_view_fields [of s t], rule refl)

lemma same_view_lib: "same_view s t \<Longrightarrow> refresh_lib os env s = refresh_lib os env t"
  by (intro ext) (unfold refresh_lib_def same_view_hook [of s t], rule refl)

lemma same_view_line: "same_view s t \<Longrightarrow> refresh_line os env s = refresh_line os env t"
  by (intro ext) (unfold refresh_line_def same_view_header [of s t] same_view_lib [of s t] same_view_fields [of s t], rule refl)

lemma same_view_lines: "same_view s t \<Longrightarrow> refresh_lines os env s ls rs p = refresh_lines os env t ls rs p"
  by (induction ls arbitrary: rs p) (simp_all add: same_view_line [of s t] split: option.splits prod.splits sum.splits)

lemma same_view_refresh:
  assumes "same_view s t"
  shows "xh_core_refresh_impl os env t p = map_option (\<lambda>(r, s', p'). (r, t\<lparr>libs := libs s'\<rparr>, p')) (xh_core_refresh_impl os env s p)"
proof -
  note fields = same_view_fields [OF assms]
  show ?thesis
    by (simp add: fields(3) xh_core_refresh_impl_def same_view_lines [OF assms] split: option.split prod.split sum.split)
qed

text \<open>C28. An asynchronous refresh is done, the first one and any later one: where the core and the refresh thread are up, or come up
  with this request, the request returns at
  once with 0 and the address space untouched, and the round of the refresh thread that follows has
  the outcome, the table of libraries and the address space that a synchronous refresh has; after it
  the thread waits for the next request.\<close>

theorem async_refresh_done:
  assumes "if core_inited st then core_init_ok st else sigaction_errno env = None \<or> \<not> sigsegv_enable st"
    and "if core_async_inited st then core_async_init_ok st \<and> thread_running st else thread_ok env"
    and "xh_core_refresh os env False st p = Some (r, st', p')"
  shows "\<exists>st2. xh_core_refresh os env True st p = Some (Inr 0, st2, p) \<and>
    (\<exists>r3 st3. xh_core_refresh_thread_round os env st2 p = Some (Thread_Waits, r3, st3, p') \<and>
      map_sum id (\<lambda>_. 0) r3 = r \<and> libs st3 = libs st' \<and> thread_running st3 \<and> \<not> thread_do st3)"
proof -
  define st1 where "st1 = xh_core_init_once env st"
  define st2 where "st2 = (xh_core_init_async_once env st1)\<lparr>thread_do := False\<rparr>"
  have on: "core_init_ok st1" and same: "core_async_inited st1 = core_async_inited st" "core_async_init_ok st1 = core_async_init_ok st"
    "thread_running st1 = thread_running st"
    using assms(1) by (auto simp: st1_def xh_core_init_once_def xh_core_add_sigsegv_handler_def Let_def split: prod.split if_splits)
  have up: "core_async_init_ok st2" "thread_running st2" "\<not> thread_do st2"
    using assms(2) same by (auto simp: st2_def xh_core_init_async_once_def)
  have "same_view st1 st2" by (simp add: same_view_def st2_def xh_core_init_async_once_def)
  note view = same_view_refresh [OF this]
  obtain r1 s1 where impl: "xh_core_refresh_impl os env st1 p = Some (r1, s1, p')" "map_sum id (\<lambda>_. 0) r1 = r" "libs s1 = libs st'"
    using assms(3) on unfolding xh_core_refresh_def st1_def [symmetric]
    by (auto split: option.splits prod.splits sum.splits)
  have "xh_core_refresh os env True st p = Some (Inr 0, st2\<lparr>thread_do := True\<rparr>, p)"
    unfolding xh_core_refresh_def st1_def [symmetric] using on up(1) by (simp add: st2_def Let_def)
  moreover have again: "st2\<lparr>thread_do := False\<rparr> = st2" by (simp add: st2_def)
  have "xh_core_refresh_thread_round os env (st2\<lparr>thread_do := True\<rparr>) p = Some (Thread_Waits, r1, st2\<lparr>libs := libs s1\<rparr>, p')"
    using view [of os env p] impl(1) up by (simp add: xh_core_refresh_thread_round_def again)
  ultimately show ?thesis using impl up by auto
qed

text \<open>A later request: the core and the thread are up already.\<close>

theorem async_refresh_done_witness:
  "\<exists>st2 r3 st3. xh_core_refresh sample_core_os sample_env True
       (xh_core_init_async_once sample_env (xh_core_init_once sample_env sample_core)) sample_lib = Some (Inr 0, st2, sample_lib) \<and>
     xh_core_refresh_thread_round sample_core_os sample_env st2 sample_lib = Some (Thread_Waits, r3, st3, sample_lib) \<and>
     map_option li_base (libs st3 ''/l.so'') = Some 0x10000 \<and> libs st3 ''/m.so'' = None"
proof -
  define st where "st = xh_core_init_async_once sample_env (xh_core_init_once sample_env sample_core)"
  have f: "core_inited st" "core_init_ok st" "core_async_inited st" "core_async_init_ok st" "thread_running st"
    "hook_infos st = hook_infos sample_core" "ignore_infos st = []" "keyed (libs st)"
    by (simp_all add: st_def xh_core_init_async_once_def xh_core_init_once_def xh_core_add_sigsegv_handler_def
        sample_core_def xh_core_start_def sample_env_def keyed_def)
  from sample_refresh [OF f(6-8)] obtain libs' where r:
    "xh_core_refresh_impl sample_core_os sample_env st sample_lib = Some (Inr (), st\<lparr>libs := libs'\<rparr>, sample_lib)"
    and l: "map_option li_base (libs' ''/l.so'') = Some 0x10000" "libs' ''/m.so'' = None" by blast
  have "xh_core_refresh sample_core_os sample_env False st sample_lib = Some (Inr 0, st\<lparr>libs := libs'\<rparr>, sample_lib)"
    using r f(1,2) by (simp add: xh_core_refresh_def xh_core_init_once_def)
  from async_refresh_done [OF _ _ this] f l show ?thesis unfolding st_def [symmetric] by fastforce
qed

text \<open>Clearing forgets registrations and libraries; the protection setting survives, and so does the handler when the
  protection was switched off after the first refresh.\<close>

lemma clear_resets:
  "xh_core_clear st = xh_core_start\<lparr>sigsegv_enable := sigsegv_enable st, thread_running := thread_running st \<and> \<not> core_async_init_ok st,
     thread_do := thread_do st, handler_on := handler_on st \<and> \<not> (core_init_ok st \<and> sigsegv_enable st)\<rparr>"
  by (simp add: xh_core_clear_def xh_core_start_def xh_core_del_sigsegv_handler_def Let_def)

end
