(* ===== verification/Dl_Iterate.thy ===== *)
theory Dl_Iterate
  imports Elf_Hook
begin

text \<open>
  Walking over the loaded ELF objects (\<open>xDL/xdl_iterate.c\<close>, \<open>xDL/xdl_util.c\<close>, 64-bit build): the system's
  \<open>dl_iterate_phdr\<close> with the corrections the library makes to what it reports, and the text helpers and
  the API level it uses. A callback is a function of the object and of the state it works on; it may
  fault, and its value is \<open>None\<close> when it does not return. The objects the linker reports, the texts of
  \<open>/proc/self/maps\<close> and \<open>/system/build.prop\<close> and the answer of \<open>android_get_device_api_level\<close> are
  inputs. The mutex of the linker of Android 5 has no effect on the model.
\<close>

section \<open>Text helpers\<close>

fun xdl_util_starts_with :: "string \<Rightarrow> string \<Rightarrow> bool" where
  "xdl_util_starts_with (c # str) (d # start) = (if c = d then xdl_util_starts_with str start else False)"
| "xdl_util_starts_with str start = (start = [])"

definition xdl_util_ends_with :: "string \<Rightarrow> string \<Rightarrow> bool" where
  "xdl_util_ends_with str ending =
     (if length str < length ending then False else drop (length str - length ending) str = ending)"

text \<open>The string that is left after white space is cut off its end.\<close>

definition xdl_util_trim_ending :: "string \<Rightarrow> string" where
  "xdl_util_trim_ending s = rev (dropWhile isspace (rev s))"

section \<open>The API level\<close>

definition atoi :: "string \<Rightarrow> int" where
  "atoi s =
     (let s1 = dropWhile isspace s;
          neg = (s1 \<noteq> [] \<and> hd s1 = CHR ''-'');
          s2 = (if s1 \<noteq> [] \<and> hd s1 \<in> {CHR ''-'', CHR ''+''} then tl s1 else s1);
          v = int (digits_value dec_digit 10 0 s2)
      in if neg then - v else v)"

definition build_prop_level :: "string option \<Rightarrow> int" where
  "build_prop_level prop =
     (let level = (case prop of
            None \<Rightarrow> - 1
          | Some text \<Rightarrow>
              (case List.find (\<lambda>l. xdl_util_starts_with l ''ro.build.version.sdk='') (fgets_lines 128 text) of
                 None \<Rightarrow> - 1 | Some l \<Rightarrow> atoi (drop 21 l)))
      in if 0 < level then level else - 1)"

text \<open>The level is worked out once: \<open>cached\<close> is the static variable, -1 at first.\<close>

definition xdl_util_get_api_level :: "int \<Rightarrow> string option \<Rightarrow> int \<Rightarrow> int \<times> int" where
  "xdl_util_get_api_level device prop cached =
     (if cached < 0 then
        let level = (if device < 0 then build_prop_level prop else device);
            level = (if level < 16 then 16 else level)
        in (level, level)
      else (cached, cached))"

section \<open>Objects\<close>

record dl_phdr_info =
  dlpi_addr :: u64
  dlpi_name :: "string option"
  dlpi_phdr :: u64
  dlpi_phnum :: u16

type_synonym 's callback = "dl_phdr_info \<Rightarrow> 's \<Rightarrow> (int res \<times> 's) option"

text \<open>What the system library does: the callback sees the objects in order until it returns non-zero.\<close>

fun dl_iterate_phdr :: "'s callback \<Rightarrow> dl_phdr_info list \<Rightarrow> 's \<Rightarrow> (int res \<times> 's) option" where
  "dl_iterate_phdr cb [] s = Some (Inr 0, s)"
| "dl_iterate_phdr cb (info # infos) s =
     (case cb info s of
        None \<Rightarrow> None
      | Some (Inl e, s') \<Rightarrow> Some (Inl e, s')
      | Some (Inr r, s') \<Rightarrow> if r \<noteq> 0 then Some (Inr r, s') else dl_iterate_phdr cb infos s')"

text \<open>The least address of a \<open>PT_LOAD\<close> segment, starting from \<open>m\<close>.\<close>

fun min_load_vaddr :: "process \<Rightarrow> u64 \<Rightarrow> nat \<Rightarrow> u64 \<Rightarrow> u64 res" where
  "min_load_vaddr p ph 0 m = Inr m"
| "min_load_vaddr p ph (Suc n) m =
     res_bind (load32 p ph) (\<lambda>p_type.
       if p_type = PT_LOAD then
         res_bind (load64 p (ph + 16)) (\<lambda>p_vaddr. min_load_vaddr p (ph + 56) n (if m > p_vaddr then p_vaddr else m))
       else min_load_vaddr p (ph + 56) n m)"

definition UINTPTR_MAX :: u64 where "UINTPTR_MAX = - 1"

definition xdl_iterate_get_min_vaddr :: "process \<Rightarrow> dl_phdr_info \<Rightarrow> u64 res" where
  "xdl_iterate_get_min_vaddr p info = min_load_vaddr p (dlpi_phdr info) (unat (dlpi_phnum info)) UINTPTR_MAX"

section \<open>Names from the memory map\<close>

text \<open>\<open>sscanf(line, "%lx-%lx r", &start, &end) == 2\<close>\<close>

definition scan_bounds :: "string \<Rightarrow> (u64 \<times> u64) option" where
  "scan_bounds line =
     Option.bind (scan_number hex_digit 16 line) (\<lambda>(start, r1).
     Option.bind (scan_char (CHR ''-'') r1) (\<lambda>r2.
     Option.bind (scan_number hex_digit 16 r2) (\<lambda>(endp, r3). Some (start, endp))))"

definition strchr :: "string \<Rightarrow> char \<Rightarrow> string option" where
  "strchr s c = (let t = dropWhile (\<lambda>d. d \<noteq> c) s in if t = [] then None else Some t)"

fun find_pathname :: "u64 \<Rightarrow> nat \<Rightarrow> string list \<Rightarrow> string option" where
  "find_pathname base buf_len [] = None"
| "find_pathname base buf_len (line # lines) =
     (case scan_bounds line of
        None \<Rightarrow> find_pathname base buf_len lines
      | Some (start, endp) \<Rightarrow>
          if base < start then None
          else if endp \<le> base then find_pathname base buf_len lines
          else (case strchr line (CHR ''/'') of
             None \<Rightarrow> None
           | Some path \<Rightarrow> Some (take (buf_len - 1) (xdl_util_trim_ending path))))"

text \<open>
  The maps file is opened when it is first needed and rewound after that: \<open>opened\<close> tells whether it is
  open, before and after.
\<close>

definition xdl_iterate_open_or_rewind_maps :: "string option \<Rightarrow> bool \<Rightarrow> string list option \<times> bool" where
  "xdl_iterate_open_or_rewind_maps maps opened =
     (case maps of None \<Rightarrow> (None, opened) | Some text \<Rightarrow> (Some (fgets_lines 1024 text), True))"

definition xdl_iterate_get_pathname_from_maps ::
    "xh_os \<Rightarrow> process \<Rightarrow> dl_phdr_info \<Rightarrow> nat \<Rightarrow> bool \<Rightarrow> string option res \<times> bool" where
  "xdl_iterate_get_pathname_from_maps os p info buf_len opened =
     (case xdl_iterate_get_min_vaddr p info of
        Inl e \<Rightarrow> (Inl e, opened)
      | Inr min_vaddr \<Rightarrow>
          if min_vaddr = UINTPTR_MAX then (Inr None, opened)
          else (case xdl_iterate_open_or_rewind_maps (self_maps os p) opened of
             (None, opened') \<Rightarrow> (Inr None, opened')
           | (Some lines, opened') \<Rightarrow> (Inr (find_pathname (dlpi_addr info + min_vaddr) buf_len lines), opened')))"

section \<open>Iterating\<close>

definition XDL_WITH_LINKER :: u32 where "XDL_WITH_LINKER = 1"
definition XDL_FULL_PATHNAME :: u32 where "XDL_FULL_PATHNAME = 2"

definition XDL_CONST_PATHNAME_LINKER :: string where "XDL_CONST_PATHNAME_LINKER = ''/system/bin/linker64''"
definition XDL_CONST_BASENAME_LINKER :: string where "XDL_CONST_BASENAME_LINKER = ''linker64''"

text \<open>The program headers of an object that comes without them are found through its ELF header.\<close>

definition fix_phdrs :: "process \<Rightarrow> dl_phdr_info \<Rightarrow> dl_phdr_info res" where
  "fix_phdrs p info =
     (if dlpi_phdr info = 0 \<or> dlpi_phnum info = 0 then
        res_bind (load64 p (dlpi_addr info + 32)) (\<lambda>e_phoff.
        res_bind (load16 p (dlpi_addr info + 56)) (\<lambda>e_phnum.
          Inr (info\<lparr>dlpi_phdr := dlpi_addr info + e_phoff, dlpi_phnum := e_phnum\<rparr>)))
      else Inr info)"

text \<open>A name that is no full path is looked up in the maps; the object is ignored when it is not found. The path is
  put into a buffer whose block ends before the callback runs, so the pointer it is given is a dangling one; the model
  hands on the text that was put there.\<close>

definition fix_name :: "xh_os \<Rightarrow> process \<Rightarrow> u32 \<Rightarrow> dl_phdr_info \<Rightarrow> bool \<Rightarrow> dl_phdr_info option res \<times> bool" where
  "fix_name os p fl info opened =
     (case dlpi_name info of
        None \<Rightarrow> (Inr (Some info), opened)
      | Some name \<Rightarrow>
          if hd name \<noteq> CHR ''/'' \<and> hd name \<noteq> CHR ''['' \<and> fl AND XDL_FULL_PATHNAME \<noteq> 0 then
            (case xdl_iterate_get_pathname_from_maps os p info 512 opened of
               (Inl e, opened') \<Rightarrow> (Inl e, opened')
             | (Inr None, opened') \<Rightarrow> (Inr None, opened')
             | (Inr (Some path), opened') \<Rightarrow> (Inr (Some (info\<lparr>dlpi_name := Some path\<rparr>)), opened'))
          else (Inr (Some info), opened))"

text \<open>The state of a walk: what the callback works on, and whether the maps file is open. \<open>mem\<close> reads the
  address space off the state of the callback.\<close>

definition xdl_iterate_by_linker_cb ::
    "xh_os \<Rightarrow> ('s \<Rightarrow> process) \<Rightarrow> 's callback \<Rightarrow> u64 \<Rightarrow> u32 \<Rightarrow> ('s \<times> bool) callback" where
  "xdl_iterate_by_linker_cb os mem cb linker_load_bias fl info = (\<lambda>(s, opened).
     if dlpi_addr info = 0 \<or> dlpi_name info = None \<or> dlpi_name info = Some [] then Some (Inr 0, s, opened)
     else if linker_load_bias = dlpi_addr info then Some (Inr 0, s, opened)
     else case fix_phdrs (mem s) info of
       Inl e \<Rightarrow> Some (Inl e, s, opened)
     | Inr info1 \<Rightarrow>
         (case fix_name os (mem s) fl info1 opened of
            (Inl e, opened') \<Rightarrow> Some (Inl e, s, opened')
          | (Inr None, opened') \<Rightarrow> Some (Inr 0, s, opened')
          | (Inr (Some info2), opened') \<Rightarrow>
              (case cb info2 s of None \<Rightarrow> None | Some (r, s') \<Rightarrow> Some (r, s', opened'))))"

text \<open>\<open>sscanf(line, "%lx-%*lx r-xp %lx ", &base, &offset) == 2\<close>\<close>

fun scan_literal :: "string \<Rightarrow> string \<Rightarrow> string option" where
  "scan_literal [] s = Some s"
| "scan_literal (c # cs) s = Option.bind (scan_char c s) (scan_literal cs)"

definition scan_text_segment :: "string \<Rightarrow> (u64 \<times> u64) option" where
  "scan_text_segment line =
     Option.bind (scan_number hex_digit 16 line) (\<lambda>(base, r1).
     Option.bind (scan_char (CHR ''-'') r1) (\<lambda>r2.
     Option.bind (scan_number hex_digit 16 r2) (\<lambda>(_, r3).
     Option.bind (scan_literal ''r-xp'' (scan_space r3)) (\<lambda>r4.
     Option.bind (scan_number hex_digit 16 (scan_space r4)) (\<lambda>(offset, _). Some (base, offset))))))"

definition ELFMAG :: "u8 list" where "ELFMAG = [0x7F, 0x45, 0x4C, 0x46]"

fun find_linker :: "process \<Rightarrow> string list \<Rightarrow> u64 res" where
  "find_linker p [] = Inr 0"
| "find_linker p (line # lines) =
     (let line = xdl_util_trim_ending line; pat = CHR '' '' # XDL_CONST_PATHNAME_LINKER in
      if length line < length pat then find_linker p lines
      else if drop (length line - length pat) line \<noteq> pat then find_linker p lines
      else case scan_text_segment line of
        None \<Rightarrow> find_linker p lines
      | Some (base, offset) \<Rightarrow>
          if offset \<noteq> 0 then find_linker p lines
          else res_bind (bytes_equal p base ELFMAG) (\<lambda>eq. if eq then Inr base else find_linker p lines))"

definition xdl_iterate_find_linker_base :: "xh_os \<Rightarrow> process \<Rightarrow> bool \<Rightarrow> u64 res \<times> bool" where
  "xdl_iterate_find_linker_base os p opened =
     (case xdl_iterate_open_or_rewind_maps (self_maps os p) opened of
        (None, opened') \<Rightarrow> (Inr 0, opened')
      | (Some lines, opened') \<Rightarrow> (find_linker p lines, opened'))"

text \<open>The result of the callback and the load bias that is handed back.\<close>

definition xdl_iterate_do_callback ::
    "('s \<Rightarrow> process) \<Rightarrow> 's callback \<Rightarrow> u64 \<Rightarrow> string \<Rightarrow> u64 \<Rightarrow> 's \<Rightarrow> (int res \<times> u64 \<times> 's) option" where
  "xdl_iterate_do_callback mem cb base path load_bias s =
     (case res_bind (load64 (mem s) (base + 32)) (\<lambda>e_phoff.
           res_bind (load16 (mem s) (base + 56)) (\<lambda>e_phnum.
           let info = \<lparr>dlpi_addr = 0, dlpi_name = Some path, dlpi_phdr = base + e_phoff, dlpi_phnum = e_phnum\<rparr>
           in res_bind (xdl_iterate_get_min_vaddr (mem s) info) (\<lambda>min_vaddr. Inr (info, min_vaddr)))) of
        Inl e \<Rightarrow> Some (Inl e, load_bias, s)
      | Inr (info, min_vaddr) \<Rightarrow>
          if min_vaddr = UINTPTR_MAX then Some (Inr 0, load_bias, s)
          else (case cb (info\<lparr>dlpi_addr := base - min_vaddr\<rparr>) s of
             None \<Rightarrow> None
           | Some (r, s') \<Rightarrow> Some (r, base - min_vaddr, s')))"

text \<open>
  The environment: what the linker reports (\<open>None\<close> where it has no \<open>dl_iterate_phdr\<close>) and what the API
  level is worked out from.
\<close>

record dl_env =
  dl_objects :: "dl_phdr_info list option"
  device_level :: int
  build_prop :: "string option"

definition api_level_of :: "dl_env \<Rightarrow> int" where
  "api_level_of dl = fst (xdl_util_get_api_level (device_level dl) (build_prop dl) (- 1))"

text \<open>The result, the state of the callback, and whether the maps file is left open. A walk the callback of the
  linker ends returns before the file is closed.\<close>

definition xdl_iterate_by_linker ::
    "xh_os \<Rightarrow> dl_env \<Rightarrow> ('s \<Rightarrow> process) \<Rightarrow> 's callback \<Rightarrow> u32 \<Rightarrow> 's \<Rightarrow> (int res \<times> 's \<times> bool) option" where
  "xdl_iterate_by_linker os dl mem cb fl s =
     (case dl_objects dl of
        None \<Rightarrow> Some (Inr (- 1), s, False)
      | Some infos \<Rightarrow>
          let walk = (\<lambda>bias (s, opened).
                (case dl_iterate_phdr (xdl_iterate_by_linker_cb os mem cb bias fl) infos (s, opened) of
                   None \<Rightarrow> None
                 | Some (Inl e, s', opened') \<Rightarrow> Some (Inl e, s', opened')
                 | Some (Inr r, s', opened') \<Rightarrow> Some (Inr 0, s', False)))
          in if fl AND XDL_WITH_LINKER \<noteq> 0 \<and> api_level_of dl < 27 then
               (case xdl_iterate_find_linker_base os (mem s) False of
                  (Inl e, opened) \<Rightarrow> Some (Inl e, s, opened)
                | (Inr base, opened) \<Rightarrow>
                    if base \<noteq> 0 then
                      (case xdl_iterate_do_callback mem cb base XDL_CONST_PATHNAME_LINKER 0 s of
                         None \<Rightarrow> None
                       | Some (Inl e, bias, s') \<Rightarrow> Some (Inl e, s', opened)
                       | Some (Inr r, bias, s') \<Rightarrow> if r \<noteq> 0 then Some (Inr 0, s', opened) else walk bias (s', opened))
                    else walk 0 (s, opened))
             else walk 0 (s, False))"

definition xdl_iterate_phdr ::
    "xh_os \<Rightarrow> dl_env \<Rightarrow> ('s \<Rightarrow> process) \<Rightarrow> 's callback \<Rightarrow> u32 \<Rightarrow> 's \<Rightarrow> (int res \<times> 's \<times> bool) option" where
  "xdl_iterate_phdr os dl mem cb fl s = xdl_iterate_by_linker os dl mem cb fl s"


section \<open>The text helpers\<close>

lemma starts_with_iff: "xdl_util_starts_with s t \<longleftrightarrow> (\<exists>r. s = t @ r)"
  by (induction s t rule: xdl_util_starts_with.induct) auto

lemma ends_with_iff: "xdl_util_ends_with s t \<longleftrightarrow> (\<exists>r. s = r @ t)"
proof
  assume "xdl_util_ends_with s t"
  then have "s = take (length s - length t) s @ t" by (metis append_take_drop_id xdl_util_ends_with_def)
  then show "\<exists>r. s = r @ t" ..
qed (auto simp: xdl_util_ends_with_def)

lemma trim_ending_app:
  assumes "s \<noteq> []" and "\<not> isspace (last s)" and "\<forall>c\<in>set t. isspace c"
  shows "xdl_util_trim_ending (s @ t) = s"
proof -
  have "dropWhile isspace (rev (s @ t)) = dropWhile isspace (rev s)"
    using assms(3) dropWhile_append2 [of "rev t" isspace "rev s"] by simp
  also have "\<dots> = rev s" using assms(1,2) by (cases s rule: rev_cases) auto
  finally show ?thesis by (simp add: xdl_util_trim_ending_def)
qed

section \<open>What is reported\<close>

definition skipped :: "dl_phdr_info \<Rightarrow> bool" where
  "skipped info \<longleftrightarrow> dlpi_addr info = 0 \<or> dlpi_name info = None \<or> dlpi_name info = Some []"

definition absolute :: "string \<Rightarrow> bool" where
  "absolute name \<longleftrightarrow> hd name = CHR ''/'' \<or> hd name = CHR ''[''"

text \<open>\<open>out\<close> has the address of \<open>info\<close> and its program headers: those the linker tells, or else those the ELF header at the
  address leads to (\<open>e_phoff\<close> at 32, \<open>e_phnum\<close> at 56).\<close>

definition headers_found :: "process \<Rightarrow> dl_phdr_info \<Rightarrow> dl_phdr_info \<Rightarrow> bool" where
  "headers_found p info out \<longleftrightarrow> dlpi_addr out = dlpi_addr info \<and>
     (if dlpi_phdr info = 0 \<or> dlpi_phnum info = 0
      then load64 p (dlpi_addr info + 32) = Inr (dlpi_phdr out - dlpi_addr info) \<and>
        load16 p (dlpi_addr info + 56) = Inr (dlpi_phnum out)
      else dlpi_phdr out = dlpi_phdr info \<and> dlpi_phnum out = dlpi_phnum info)"

lemma fix_phdrs_found: "fix_phdrs p info = Inr mid \<longleftrightarrow> headers_found p info mid \<and> dlpi_name mid = dlpi_name info"
  by (cases info; cases mid) (auto simp: fix_phdrs_def headers_found_def res_bind_Inr_iff algebra_simps)

text \<open>An object that a callback can get to see: one of the linker's list, or the linker itself as it is found in the maps.\<close>

definition linker_object :: "xh_os \<Rightarrow> process \<Rightarrow> dl_phdr_info \<Rightarrow> bool" where
  "linker_object os p out \<longleftrightarrow> (\<exists>base opened v. xdl_iterate_find_linker_base os p False = (Inr base, opened) \<and> base \<noteq> 0 \<and>
     dlpi_name out = Some XDL_CONST_PATHNAME_LINKER \<and> load64 p (base + 32) = Inr (dlpi_phdr out - base) \<and>
     load16 p (base + 56) = Inr (dlpi_phnum out) \<and> xdl_iterate_get_min_vaddr p out = Inr v \<and> dlpi_addr out = base - v)"

definition reported :: "xh_os \<Rightarrow> dl_env \<Rightarrow> u32 \<Rightarrow> process \<Rightarrow> dl_phdr_info \<Rightarrow> bool" where
  "reported os dl fl p out \<longleftrightarrow>
     (\<exists>infos info. dl_objects dl = Some infos \<and> info \<in> set infos \<and> \<not> skipped info \<and> headers_found p info out \<and>
        (dlpi_name out = dlpi_name info \<or> \<not> absolute (the (dlpi_name info)) \<and> fl AND XDL_FULL_PATHNAME \<noteq> 0 \<and>
          (\<exists>o1. fst (xdl_iterate_get_pathname_from_maps os p out 512 o1) = Inr (dlpi_name out)))) \<or>
     fl AND XDL_WITH_LINKER \<noteq> 0 \<and> linker_object os p out"

lemma pathname_from_maps_name:
  "xdl_iterate_get_pathname_from_maps os p (info\<lparr>dlpi_name := nm\<rparr>) n o1 = xdl_iterate_get_pathname_from_maps os p info n o1"
  by (auto simp: xdl_iterate_get_pathname_from_maps_def xdl_iterate_get_min_vaddr_def split: sum.split prod.split option.split)

lemma fixed_reported:
  assumes "dl_objects dl = Some infos" and "info \<in> set infos" and "\<not> skipped info" and "fix_phdrs p info = Inr mid"
    and "fix_name os p fl mid o1 = (Inr (Some out), o2)"
  shows "reported os dl fl p out"
proof -
  have m: "headers_found p info mid" "dlpi_name mid = dlpi_name info" using assms(4) by (simp_all add: fix_phdrs_found)
  obtain name where n: "dlpi_name info = Some name" using assms(3) by (auto simp: skipped_def)
  consider "out = mid" | path where "out = mid\<lparr>dlpi_name := Some path\<rparr>" "\<not> absolute name" "fl AND XDL_FULL_PATHNAME \<noteq> 0"
      "xdl_iterate_get_pathname_from_maps os p mid 512 o1 = (Inr (Some path), o2)"
    using assms(5) m(2) n by (auto simp: fix_name_def absolute_def split: if_splits prod.splits sum.splits option.splits)
  then show ?thesis
  proof cases
    case 1
    then show ?thesis using m assms(1-3) unfolding reported_def by blast
  next
    case 2
    then have "headers_found p info out" using m(1) by (simp add: headers_found_def)
    moreover have "fst (xdl_iterate_get_pathname_from_maps os p out 512 o1) = Inr (dlpi_name out)"
      using 2(1,4) by (simp add: pathname_from_maps_name)
    ultimately show ?thesis using 2(2,3) n assms(1-3) unfolding reported_def by (metis option.sel)
  qed
qed

section \<open>Invariants of a walk\<close>

text \<open>A property that every call of the callback keeps while it goes on holds at the end, unless a call stopped the
  walk; then what that call established holds.\<close>

lemma dl_iterate_rule:
  assumes "\<And>info s r s'. info \<in> set infos \<Longrightarrow> I s \<Longrightarrow> cb info s = Some (Inr r, s') \<Longrightarrow> if r = 0 then I s' else Q s'"
    and "I s" and "dl_iterate_phdr cb infos s = Some (Inr r, s')"
  shows "if r = 0 then I s' else Q s'"
  using assms
proof (induction infos arbitrary: s)
  case (Cons info infos)
  then obtain r1 s1 where c: "cb info s = Some (Inr r1, s1)" by (auto split: option.splits sum.splits)
  have step: "if r1 = 0 then I s1 else Q s1" using Cons.prems(1) [OF _ Cons.prems(2) c] by simp
  show ?case
  proof (cases "r1 = 0")
    case True
    then have "I s1" "dl_iterate_phdr cb infos s1 = Some (Inr r, s')" using step Cons.prems(3) c by simp_all
    with Cons.IH Cons.prems(1) show ?thesis by (metis list.set_intros(2))
  next
    case False
    then show ?thesis using Cons.prems c step by auto
  qed
qed simp

lemma iterate_rule:
  assumes cb: "\<And>info s r s'. I s \<Longrightarrow> reported os dl fl (mem s) info \<Longrightarrow> cb info s = Some (Inr r, s') \<Longrightarrow> if r = 0 then I s' else Q s'"
    and "I s" and "xdl_iterate_phdr os dl mem cb fl s = Some (Inr r, s', opened)"
  shows "I s' \<or> Q s'"
proof -
  have lin: "if r = 0 then I (fst s') else Q (fst s')"
    if "dl_objects dl = Some infos" "info \<in> set infos" "I (fst s)" "xdl_iterate_by_linker_cb os mem cb bias fl info s = Some (Inr r, s')"
    for infos bias info s r s'
  proof -
    obtain t o1 where s: "s = (t, o1)" by (cases s)
    from that(4) consider "r = 0 \<and> fst s' = t"
      | mid out o2 where "\<not> skipped info" "fix_phdrs (mem t) info = Inr mid" "fix_name os (mem t) fl mid o1 = (Inr (Some out), o2)"
        "cb out t = Some (Inr r, fst s')"
      unfolding s xdl_iterate_by_linker_cb_def
      by (auto simp: skipped_def split: if_splits sum.splits prod.splits option.splits)
    then show ?thesis
    proof cases
      case 1
      then show ?thesis using that(3) s by simp
    next
      case 2
      have "I t" using that(3) s by simp
      moreover have "reported os dl fl (mem t) out" by (rule fixed_reported [OF that(1,2) 2(1-3)])
      ultimately show ?thesis by (rule cb) (rule 2)
    qed
  qed
  have walk: "I (fst s') \<or> Q (fst s')"
    if "dl_objects dl = Some infos"
      "dl_iterate_phdr (xdl_iterate_by_linker_cb os mem cb bias fl) infos (t, o1) = Some (Inr r, s')" "I t" for bias infos t o1 r s'
  proof -
    have "if r = 0 then I (fst s') else Q (fst s')"
      by (rule dl_iterate_rule [where I = "\<lambda>s. I (fst s)" and Q = "\<lambda>s. Q (fst s)", OF _ _ that(2)])
        (rule lin [OF that(1)], simp_all add: that(3))
    then show ?thesis by (auto split: if_splits)
  qed
  have docb: "if r = 0 then I s' else Q s'"
    if "xdl_iterate_find_linker_base os (mem s) False = (Inr base, o1)" "base \<noteq> 0" "fl AND XDL_WITH_LINKER \<noteq> 0" "I s"
      "xdl_iterate_do_callback mem cb base XDL_CONST_PATHNAME_LINKER b0 s = Some (Inr r, bias, s')" for base b0 o1 s r bias s'
  proof -
    from that(5) consider "r = 0 \<and> s' = s"
      | off n v where "load64 (mem s) (base + 32) = Inr off" "load16 (mem s) (base + 56) = Inr n"
        "xdl_iterate_get_min_vaddr (mem s) \<lparr>dlpi_addr = 0, dlpi_name = Some XDL_CONST_PATHNAME_LINKER, dlpi_phdr = base + off, dlpi_phnum = n\<rparr> = Inr v"
        "cb \<lparr>dlpi_addr = base - v, dlpi_name = Some XDL_CONST_PATHNAME_LINKER, dlpi_phdr = base + off, dlpi_phnum = n\<rparr> s = Some (Inr r, s')"
      unfolding xdl_iterate_do_callback_def
      by (auto simp: res_bind_Inr_iff Let_def split: sum.splits if_splits option.splits prod.splits)
    then show ?thesis
    proof cases
      case 1
      then show ?thesis using that(4) by simp
    next
      case 2
      have "linker_object os (mem s) \<lparr>dlpi_addr = base - v, dlpi_name = Some XDL_CONST_PATHNAME_LINKER, dlpi_phdr = base + off, dlpi_phnum = n\<rparr>"
        unfolding linker_object_def using 2(1-3) that(1,2)
        by (intro exI [of _ base] exI [of _ o1] exI [of _ v]) (simp add: xdl_iterate_get_min_vaddr_def)
      then have "reported os dl fl (mem s) \<lparr>dlpi_addr = base - v, dlpi_name = Some XDL_CONST_PATHNAME_LINKER, dlpi_phdr = base + off, dlpi_phnum = n\<rparr>"
        using that(3) by (simp add: reported_def)
      then show ?thesis by (rule cb [OF that(4)]) (rule 2(4))
    qed
  qed
  show ?thesis
    using assms(2,3) unfolding xdl_iterate_phdr_def xdl_iterate_by_linker_def Let_def
    by (auto split: option.splits if_splits sum.splits prod.splits dest!: walk docb)
qed

section \<open>Names from a printed memory map\<close>

text \<open>The path a mapping is printed with: the first slash begins it, and it ends the line.\<close>

definition path_in :: "map_entry \<Rightarrow> string \<Rightarrow> bool" where
  "path_in e path \<longleftrightarrow> (\<exists>pre. e_rest e = pre @ path \<and> CHR ''/'' \<notin> set (e_perm e @ pre)) \<and>
     path \<noteq> [] \<and> hd path = CHR ''/'' \<and> \<not> isspace (last path)"

lemma scan_bounds_print:
  assumes "entry_ok e"
  shows "scan_bounds (print_entry e @ nl) = Some (e_start e, e_end e)"
proof -
  define r where "r = CHR '' '' # e_perm e @ CHR '' '' # e_rest e @ nl"
  have p: "print_entry e @ nl = hex_text (e_width e) (unat (e_start e)) @ CHR ''-'' #
      (hex_text (e_width e) (unat (e_end e)) @ r)" by (simp add: print_entry_def r_def)
  note ok = assms [unfolded entry_ok_def]
  have h: "hex_digit (CHR ''-'') = None" "hex_digit (CHR '' '') = None" by code_simp+
  have 1: "scan_number hex_digit 16 (print_entry e @ nl) =
      Some (e_start e, CHR ''-'' # hex_text (e_width e) (unat (e_end e)) @ r)"
    unfolding p using ok h by (intro scan_number_hex) auto
  have 2: "scan_number hex_digit 16 (hex_text (e_width e) (unat (e_end e)) @ r) = Some (e_end e, r)"
    unfolding r_def using ok h by (intro scan_number_hex) auto
  show ?thesis by (simp add: scan_bounds_def 1 2 scan_char_def)
qed

lemma strchr_print:
  assumes "path_in e path"
  shows "strchr (print_entry e @ nl) (CHR ''/'') = Some (path @ nl)"
proof -
  from assms obtain pre where pre: "e_rest e = pre @ path" "CHR ''/'' \<notin> set (e_perm e @ pre)" and path: "path \<noteq> []" "hd path = CHR ''/''"
    by (auto simp: path_in_def)
  have hx: "CHR ''/'' \<notin> set (hex_text k x)" for k x using hex_text_chars(1) [of "CHR ''/''" k x] by (auto simp: hex_digit_def)
  define xs where "xs = hex_text (e_width e) (unat (e_start e)) @ CHR ''-'' # hex_text (e_width e) (unat (e_end e)) @
      CHR '' '' # e_perm e @ CHR '' '' # pre"
  have p: "print_entry e @ nl = xs @ path @ nl" by (simp add: print_entry_def xs_def pre(1))
  have "CHR ''/'' \<notin> set xs" using hx pre(2) by (simp add: xs_def)
  moreover obtain ps where "path = CHR ''/'' # ps" using path by (cases path) auto
  ultimately have "dropWhile (\<lambda>d. d \<noteq> CHR ''/'') (xs @ path @ nl) = path @ nl" by (induction xs) auto
  then show ?thesis unfolding strchr_def p Let_def using path(1) by simp
qed

lemma find_pathname_print:
  assumes "\<forall>e\<in>set es. entry_ok e" and "in_order es" and "e \<in> set es" and "e_start e \<le> base" and "base < e_end e"
    and "path_in e path" and "length path < n"
  shows "find_pathname base n (map line_of es) = Some path"
  using assms(1-3)
proof (induction es)
  case (Cons d es)
  have d: "scan_bounds (line_of d) = Some (e_start d, e_end d)" "e_start d < e_end d"
    using scan_bounds_print [of d] Cons.prems(1) by (auto simp: line_of_def entry_ok_def)
  show ?case
  proof (cases "e = d")
    case True
    have "xdl_util_trim_ending (path @ [CHR 0x0A]) = path"
      using assms(6) by (intro trim_ending_app) (auto simp: path_in_def isspace_def)
    moreover have "take (n - 1) path = path" using assms(7) by simp
    moreover have "\<not> base < e_start d" "\<not> e_end d \<le> base" using True assms(4,5) by auto
    ultimately show ?thesis using d(1) True strchr_print [OF assms(6), of "[CHR 0x0A]"] by (simp add: line_of_def)
  next
    case False
    then have e: "e \<in> set es" "e_end d \<le> e_start e" using Cons.prems(2,3) by (auto simp: in_order_def)
    then have "\<not> base < e_start d" "e_end d \<le> base" using assms(4) d(2) by auto
    then show ?thesis using d(1) Cons.IH Cons.prems e(1) by (simp add: in_order_def)
  qed
qed simp

lemma maps_text_lines:
  assumes "\<forall>e\<in>set es. entry_ok e"
  shows "fgets_lines 1024 (text_of (map print_entry es)) = map line_of es"
proof -
  have "CHR 0x0A \<notin> set (print_entry e) \<and> length (print_entry e) + 2 \<le> 1024" if "e \<in> set es" for e
  proof -
    have ok: "entry_ok e" using assms that by blast
    have hx: "CHR 0x0A \<notin> set (hex_text k x)" for k x
      using hex_text_chars(2) [of "CHR 0x0A" k x] by (auto simp: isspace_def)
    have "CHR 0x0A \<notin> set (e_perm e)" using ok by (auto simp: entry_ok_def isspace_def)
    then show ?thesis using ok hx by (simp add: print_entry_def entry_ok_def)
  qed
  then show ?thesis using fgets_lines_text [of "map print_entry es" 1024] by (simp add: line_of_def comp_def)
qed

section \<open>What a walk reports\<close>

text \<open>The least address of the \<open>PT_LOAD\<close> segments among \<open>n\<close> program headers at \<open>ph\<close>, all of which can be read.\<close>

definition least_load :: "process \<Rightarrow> u64 \<Rightarrow> nat \<Rightarrow> u64 \<Rightarrow> bool" where
  "least_load p ph n v \<longleftrightarrow>
     (\<forall>i<n. \<exists>ty. load32 p (ph + word_of_nat i * 56) = Inr ty \<and>
        (ty = PT_LOAD \<longrightarrow> (\<exists>w. load64 p (ph + word_of_nat i * 56 + 16) = Inr w \<and> v \<le> w))) \<and>
     (\<exists>i<n. load32 p (ph + word_of_nat i * 56) = Inr PT_LOAD \<and> load64 p (ph + word_of_nat i * 56 + 16) = Inr v)"

lemma min_load_vaddr_least:
  assumes "\<forall>i<n. \<exists>ty. load32 p (ph + word_of_nat i * 56) = Inr ty \<and>
      (ty = PT_LOAD \<longrightarrow> (\<exists>w. load64 p (ph + word_of_nat i * 56 + 16) = Inr w \<and> v \<le> w))"
    and "v \<le> m"
    and "m = v \<or> (\<exists>i<n. load32 p (ph + word_of_nat i * 56) = Inr PT_LOAD \<and> load64 p (ph + word_of_nat i * 56 + 16) = Inr v)"
  shows "min_load_vaddr p ph n m = Inr v"
  using assms
proof (induction n arbitrary: ph m)
  case (Suc n)
  have sh: "ph + word_of_nat (Suc i) * 56 = ph + 56 + word_of_nat i * 56" for i by (simp add: algebra_simps)
  have rest: "\<forall>i<n. \<exists>ty. load32 p (ph + 56 + word_of_nat i * 56) = Inr ty \<and>
      (ty = PT_LOAD \<longrightarrow> (\<exists>w. load64 p (ph + 56 + word_of_nat i * 56 + 16) = Inr w \<and> v \<le> w))"
    using Suc.prems(1) unfolding sh [symmetric] by blast
  obtain ty where ty: "load32 p ph = Inr ty" "ty = PT_LOAD \<longrightarrow> (\<exists>w. load64 p (ph + 16) = Inr w \<and> v \<le> w)"
    using Suc.prems(1) [rule_format, of 0] by auto
  have later: "(\<exists>i<Suc n. load32 p (ph + word_of_nat i * 56) = Inr PT_LOAD \<and> load64 p (ph + word_of_nat i * 56 + 16) = Inr v) \<longleftrightarrow>
      load32 p ph = Inr PT_LOAD \<and> load64 p (ph + 16) = Inr v \<or>
      (\<exists>i<n. load32 p (ph + 56 + word_of_nat i * 56) = Inr PT_LOAD \<and> load64 p (ph + 56 + word_of_nat i * 56 + 16) = Inr v)"
    unfolding Ex_less_Suc2 sh by simp
  show ?case
  proof (cases "ty = PT_LOAD")
    case True
    then obtain w where w: "load64 p (ph + 16) = Inr w" "v \<le> w" using ty(2) by blast
    have "min_load_vaddr p (ph + 56) n (if m > w then w else m) = Inr v"
      by (rule Suc.IH [OF rest]) (use w Suc.prems(2,3) later in auto)
    then show ?thesis using ty(1) True w(1) by simp
  next
    case False
    have "min_load_vaddr p (ph + 56) n m = Inr v"
      by (rule Suc.IH [OF rest Suc.prems(2)]) (use False ty(1) Suc.prems(3) later in auto)
    then show ?thesis using ty(1) False by simp
  qed
qed simp

lemma least_load_min: "least_load p (dlpi_phdr info) (unat (dlpi_phnum info)) v \<Longrightarrow> xdl_iterate_get_min_vaddr p info = Inr v"
  unfolding xdl_iterate_get_min_vaddr_def least_load_def by (rule min_load_vaddr_least) (auto simp: UINTPTR_MAX_def)

text \<open>\<open>J\<close> holds of the address spaces during the walk. The object \<open>info\<close> of the linker is reported as \<open>out\<close>: with its address
  and program headers, and under its name when that is absolute, with the path of the mapping that holds its
  first segment otherwise.\<close>

definition names_as :: "(process \<Rightarrow> bool) \<Rightarrow> map_entry list \<Rightarrow> dl_phdr_info \<Rightarrow> dl_phdr_info \<Rightarrow> bool" where
  "names_as J es info out \<longleftrightarrow> \<not> skipped info \<and> (\<forall>p. J p \<longrightarrow> headers_found p info out) \<and>
     (absolute (the (dlpi_name info)) \<and> dlpi_name out = dlpi_name info \<or>
      \<not> absolute (the (dlpi_name info)) \<and>
        (\<exists>v e path. (\<forall>p. J p \<longrightarrow> least_load p (dlpi_phdr out) (unat (dlpi_phnum out)) v) \<and> v \<noteq> UINTPTR_MAX \<and> e \<in> set es \<and>
          e_start e \<le> dlpi_addr info + v \<and> dlpi_addr info + v < e_end e \<and> path_in e path \<and> length path < 512 \<and>
          dlpi_name out = Some path))"

lemma fix_name_names:
  assumes "names_as J es info out" and "J p" and "self_maps os p = Some (text_of (map print_entry es))"
    and "\<forall>e\<in>set es. entry_ok e" and "in_order es" and "fl AND XDL_FULL_PATHNAME \<noteq> 0"
  shows "\<exists>mid o2. fix_phdrs p info = Inr mid \<and> fix_name os p fl mid o1 = (Inr (Some out), o2)"
proof -
  obtain name where n: "dlpi_name info = Some name" using assms(1) by (auto simp: names_as_def skipped_def)
  define mid where "mid = out\<lparr>dlpi_name := dlpi_name info\<rparr>"
  have h: "headers_found p info out" using assms(1,2) by (simp add: names_as_def)
  then have f: "fix_phdrs p info = Inr mid" by (simp add: fix_phdrs_found headers_found_def mid_def)
  have "\<exists>o2. fix_name os p fl mid o1 = (Inr (Some out), o2)"
  proof (cases "absolute name")
    case True
    then have "mid = out" "dlpi_name out = Some name" using assms(1) n by (simp_all add: names_as_def mid_def)
    then show ?thesis using True by (auto simp: fix_name_def absolute_def)
  next
    case False
    then obtain v e path where l: "least_load p (dlpi_phdr out) (unat (dlpi_phnum out)) v" and v: "v \<noteq> UINTPTR_MAX" and e: "e \<in> set es"
        "e_start e \<le> dlpi_addr info + v" "dlpi_addr info + v < e_end e" "path_in e path" "length path < 512"
        and out: "dlpi_name out = Some path"
      using assms(1,2) n by (auto simp: names_as_def)
    have "find_pathname (dlpi_addr info + v) 512 (map line_of es) = Some path"
      using e by (intro find_pathname_print [OF assms(4,5)])
    moreover have "xdl_iterate_get_min_vaddr p mid = Inr v"
      using least_load_min [OF l] by (simp add: mid_def xdl_iterate_get_min_vaddr_def)
    moreover have "dlpi_addr mid = dlpi_addr info" "mid\<lparr>dlpi_name := Some path\<rparr> = out" "dlpi_name mid = Some name"
      using h out n by (simp_all add: mid_def headers_found_def)
    ultimately show ?thesis using False v assms(3,6)
      by (auto simp: fix_name_def absolute_def xdl_iterate_get_pathname_from_maps_def xdl_iterate_open_or_rewind_maps_def
          maps_text_lines [OF assms(4)])
  qed
  with f show ?thesis by blast
qed

lemma iterate_reports:
  assumes "\<forall>p. J p \<longrightarrow> self_maps os p = Some (text_of (map print_entry es))" and "\<forall>e\<in>set es. entry_ok e" and "in_order es"
    and "dl_objects dl = Some infos"
    and "\<forall>info\<in>set infos. skipped info \<and> rep info = None \<or> (\<exists>out. rep info = Some out \<and> names_as J es info out)"
    and "fl AND XDL_FULL_PATHNAME \<noteq> 0" and "fl AND XDL_WITH_LINKER = 0 \<or> 27 \<le> api_level_of dl"
    and "J (mem s)"
    and "\<forall>out\<in>set (List.map_filter rep infos). \<forall>s. J (mem s) \<longrightarrow> (\<exists>r s'. cb out s = Some (Inr r, s') \<and> J (mem s'))"
  shows "\<exists>r s'. dl_iterate_phdr cb (List.map_filter rep infos) s = Some (Inr r, s') \<and>
    xdl_iterate_phdr os dl mem cb fl s = Some (Inr 0, s', False)"
proof -
  have "\<exists>r s' o2. dl_iterate_phdr cb (List.map_filter rep infos) s = Some (Inr r, s') \<and>
      dl_iterate_phdr (xdl_iterate_by_linker_cb os mem cb 0 fl) infos (s, o1) = Some (Inr r, s', o2)" for o1
    using assms(5,8,9)
  proof (induction infos arbitrary: s o1)
    case (Cons info infos)
    show ?case
    proof (cases "skipped info")
      case True
      then have n: "rep info = None" using Cons.prems(1) by (auto simp: names_as_def)
      moreover have "xdl_iterate_by_linker_cb os mem cb 0 fl info (s, o1) = Some (Inr 0, s, o1)"
        using True by (auto simp: xdl_iterate_by_linker_cb_def skipped_def)
      ultimately show ?thesis using Cons.IH [of s o1] Cons.prems by (simp add: map_filter_simps)
    next
      case False
      then obtain out where out: "rep info = Some out" "names_as J es info out" using Cons.prems(1) by auto
      obtain r s1 where cb: "cb out s = Some (Inr r, s1)" "J (mem s1)"
        using Cons.prems(2,3) out(1) by (auto simp: map_filter_simps)
      obtain mid o2 where o2: "fix_phdrs (mem s) info = Inr mid" "fix_name os (mem s) fl mid o1 = (Inr (Some out), o2)"
        using fix_name_names [OF out(2) Cons.prems(2) _ assms(2,3,6)] assms(1) Cons.prems(2) by blast
      have st: "xdl_iterate_by_linker_cb os mem cb 0 fl info (s, o1) = Some (Inr r, s1, o2)"
        using False o2 cb(1) by (auto simp: xdl_iterate_by_linker_cb_def skipped_def)
      show ?thesis
      proof (cases "r = 0")
        case True
        then show ?thesis using Cons.IH [OF _ cb(2), of o2] Cons.prems(1,3) out(1) cb(1) st by (simp add: map_filter_simps)
      next
        case False
        then show ?thesis using out(1) cb(1) st by (simp add: map_filter_simps)
      qed
    qed
  qed (simp add: map_filter_simps)
  from this [of False] obtain r s' o2 where w: "dl_iterate_phdr cb (List.map_filter rep infos) s = Some (Inr r, s')"
      "dl_iterate_phdr (xdl_iterate_by_linker_cb os mem cb 0 fl) infos (s, False) = Some (Inr r, s', o2)" by blast
  then show ?thesis using assms(4,7)
    by (auto simp: xdl_iterate_phdr_def xdl_iterate_by_linker_def)
qed


text \<open>An object mapped at \<open>0x10000\<close> that the linker knows by a bare name and without program headers, the same with them, and one
  without an address.\<close>

definition walk_map :: map_entry where
  "walk_map = \<lparr>e_start = 0x10000, e_end = 0x11000, e_width = 8, e_perm = ''rw-p'', e_rest = ''0 0:0 1 /l.so''\<rparr>"

definition walk_os :: xh_os where
  "walk_os = \<lparr>self_maps = \<lambda>_. Some (text_of (map print_entry [walk_map])), perm_junk = replicate 5 (CHR 0x00),
     os_mprotect = \<lambda>prots a n prot. (None, prots)\<rparr>"

definition walk_info :: dl_phdr_info where
  "walk_info = \<lparr>dlpi_addr = 0x10000, dlpi_name = Some ''l.so'', dlpi_phdr = 0x10040, dlpi_phnum = 2\<rparr>"

definition walk_objects :: "dl_phdr_info list" where
  "walk_objects = [walk_info\<lparr>dlpi_addr := 0\<rparr>, walk_info\<lparr>dlpi_phdr := 0, dlpi_phnum := 0\<rparr>, walk_info]"

definition walk_env :: dl_env where
  "walk_env = \<lparr>dl_objects = Some walk_objects, device_level = 30, build_prop = None\<rparr>"

definition note_object :: "(process \<times> dl_phdr_info list) callback" where
  "note_object info = (\<lambda>(p, seen). Some (Inr 0, p, seen @ [info]))"

lemma walk_loads:
  "load32 sample_lib 0x10040 = Inr PT_LOAD" "load64 sample_lib 0x10050 = Inr 0" "load32 sample_lib 0x10078 = Inr PT_DYNAMIC"
  "load64 sample_lib 0x10020 = Inr 0x40" "load16 sample_lib 0x10038 = Inr 2"
  by (simp_all add: sample_loads word_map_def sample_words_def PT_LOAD_def PT_DYNAMIC_def)

lemma walk_least: "least_load sample_lib 0x10040 2 0"
  by (simp add: least_load_def less_2_cases_iff all_conj_distrib imp_disjL walk_loads PT_LOAD_def PT_DYNAMIC_def)
    (auto simp: walk_loads PT_LOAD_def PT_DYNAMIC_def)

lemma walk_map_ok: "entry_ok walk_map" "path_in walk_map ''/l.so''"
proof -
  show "entry_ok walk_map" by (simp add: entry_ok_def walk_map_def isspace_def)
  have "e_rest walk_map = ''0 0:0 1 '' @ ''/l.so''" by (simp add: walk_map_def)
  then show "path_in walk_map ''/l.so''" by (auto simp: path_in_def walk_map_def isspace_def intro!: exI [of _ "''0 0:0 1 ''"])
qed


end
