(* ===== verification/Xdl_Handle.thy ===== *)
theory Xdl_Handle
  imports Dl_Iterate
begin

text \<open>
  Handles of loaded libraries (\<open>xDL/xdl.c\<close>, 64-bit build): opening one by name, reading its dynamic
  section, looking exported symbols up in the GNU and the ELF hash table, and closing it. Blocks of
  the C heap are numbered in the order they are asked for; whether the \<open>n\<close>-th request is granted is an
  input, and a request of \<open>2 ^ 63\<close> bytes or more never is. Freeing a block that is not allocated is a fault, and so is an access outside a block.
\<close>

section \<open>The C heap\<close>

record c_heap =
  h_blocks :: "nat \<Rightarrow> u8 list option"
  h_next :: nat

definition h_malloc :: "(nat \<Rightarrow> bool) \<Rightarrow> u8 list \<Rightarrow> c_heap \<Rightarrow> nat option \<times> c_heap" where
  "h_malloc grant bs h =
     (let n = h_next h; h1 = h\<lparr>h_next := Suc n\<rparr>
      in if grant n \<and> length bs < 2 ^ 63 then (Some n, h1\<lparr>h_blocks := (h_blocks h)(n \<mapsto> bs)\<rparr>) else (None, h1))"

definition h_free :: "nat \<Rightarrow> c_heap \<Rightarrow> c_heap res" where
  "h_free b h = (if h_blocks h b = None then Inl Double_Free else Inr (h\<lparr>h_blocks := (h_blocks h)(b := None)\<rparr>))"

text \<open>Pointers into the heap are a block and an offset; only the start of a block can be freed.\<close>

definition h_free_ptr :: "(nat \<times> nat) option \<Rightarrow> c_heap \<Rightarrow> c_heap res" where
  "h_free_ptr ptr h =
     (case ptr of None \<Rightarrow> Inr h | Some (b, k) \<Rightarrow> if k \<noteq> 0 then Inl Double_Free else h_free b h)"

section \<open>Structures in memory and on the heap\<close>

text \<open>A view gives the bytes of a structure by offset and number.\<close>

type_synonym view = "nat \<Rightarrow> nat \<Rightarrow> u8 list res"

definition mem_view :: "process \<Rightarrow> u64 \<Rightarrow> view" where
  "mem_view p a off n = load_bytes p (a + word_of_nat off) n"

definition heap_view :: "c_heap \<Rightarrow> nat \<times> nat \<Rightarrow> view" where
  "heap_view h ptr off n =
     (case h_blocks h (fst ptr) of
        None \<Rightarrow> Inl Wild_Access
      | Some bs \<Rightarrow> if snd ptr + off + n \<le> length bs then Inr (take n (drop (snd ptr + off) bs)) else Inl Array_Overflow)"

definition field :: "view \<Rightarrow> nat \<Rightarrow> nat \<Rightarrow> ('a::len) word res" where
  "field v off n = res_bind (v off n) (\<lambda>bs. Inr (le_word bs))"

text \<open>The fields of \<open>Elf64_Sym\<close> (24 bytes).\<close>

definition st_name :: "view \<Rightarrow> u32 res" where "st_name v = field v 0 4"
definition st_info :: "view \<Rightarrow> u8 res" where "st_info v = field v 4 1"
definition st_shndx :: "view \<Rightarrow> u16 res" where "st_shndx v = field v 6 2"
definition st_value :: "view \<Rightarrow> u64 res" where "st_value v = field v 8 8"
definition st_size :: "view \<Rightarrow> u64 res" where "st_size v = field v 16 8"

section \<open>Handles\<close>

record xdl_t =
  x_self :: nat
  x_pathname :: "nat \<times> string"
  load_bias :: u64
  x_phdr :: u64
  x_phnum :: u16
  dynsym_try_load :: bool
  dynsym :: u64
  dynstr :: u64
  sysv_buckets :: u64
  sysv_buckets_cnt :: u32
  sysv_chains :: u64
  sysv_chains_cnt :: u32
  gnu_buckets :: u64
  gnu_buckets_cnt :: u32
  gnu_chains :: u64
  gnu_symoffset :: u32
  gnu_bloom :: u64
  gnu_bloom_cnt :: u32
  gnu_bloom_shift :: u32
  symtab_try_load :: bool
  x_base :: u64
  x_debugdata :: "nat option"
  x_symtab :: "(nat \<times> nat) option"
  x_symtab_cnt :: u64
  x_strtab :: "(nat \<times> nat) option"
  x_strtab_sz :: u64

text \<open>\<open>calloc\<close> of a handle and \<open>strdup\<close> of the name of its object; a null name is a fault of \<open>strdup\<close>.\<close>

definition new_handle :: "(nat \<Rightarrow> bool) \<Rightarrow> dl_phdr_info \<Rightarrow> c_heap \<Rightarrow> (xdl_t option \<times> c_heap) res" where
  "new_handle grant info h =
     (case h_malloc grant (replicate 192 0) h of
        (None, h1) \<Rightarrow> Inr (None, h1)
      | (Some b, h1) \<Rightarrow>
          (case dlpi_name info of
             None \<Rightarrow> Inl Null_Deref
           | Some name \<Rightarrow>
               (case h_malloc grant (map of_char name @ [0]) h1 of
                  (None, h2) \<Rightarrow> res_bind (h_free b h2) (\<lambda>h3. Inr (None, h3))
                | (Some c, h2) \<Rightarrow>
                    Inr (Some \<lparr>x_self = b, x_pathname = (c, name), load_bias = dlpi_addr info, x_phdr = dlpi_phdr info,
                      x_phnum = dlpi_phnum info, dynsym_try_load = False, dynsym = 0, dynstr = 0,
                      sysv_buckets = 0, sysv_buckets_cnt = 0, sysv_chains = 0, sysv_chains_cnt = 0,
                      gnu_buckets = 0, gnu_buckets_cnt = 0, gnu_chains = 0, gnu_symoffset = 0, gnu_bloom = 0,
                      gnu_bloom_cnt = 0, gnu_bloom_shift = 0, symtab_try_load = False, x_base = 0,
                      x_debugdata = None, x_symtab = None, x_symtab_cnt = 0, x_strtab = None, x_strtab_sz = 0\<rparr>, h2))))"

text \<open>The state of a search for a library: the address space, the heap, and the handle that was made.\<close>

record open_state =
  op_mem :: process
  op_heap :: c_heap
  op_self :: "xdl_t option"

text \<open>A library is known by its full path, or by the last component of it.\<close>

definition name_matches :: "string \<Rightarrow> string \<Rightarrow> bool" where
  "name_matches filename name =
     (if filename \<noteq> [] \<and> (hd filename = CHR ''/'' \<or> hd filename = CHR ''['') then name = filename
      else let n = length name - length filename in
        if length name < 1 + length filename then False
        else if drop n name \<noteq> filename then False
        else name ! (n - 1) = CHR ''/'')"

definition found :: "(nat \<Rightarrow> bool) \<Rightarrow> open_state callback" where
  "found grant info s =
     (case new_handle grant info (op_heap s) of
        Inl e \<Rightarrow> Some (Inl e, s)
      | Inr (self, h) \<Rightarrow> Some (Inr 1, s\<lparr>op_heap := h, op_self := self\<rparr>))"

definition xdl_open_iterate_cb :: "(nat \<Rightarrow> bool) \<Rightarrow> string \<Rightarrow> open_state callback" where
  "xdl_open_iterate_cb grant filename info s =
     (case dlpi_name info of
        None \<Rightarrow> Some (Inr 0, s)
      | Some name \<Rightarrow>
          if dlpi_addr info = 0 then Some (Inr 0, s)
          else if \<not> name_matches filename name then Some (Inr 0, s)
          else found grant info s)"

text \<open>The handle or null, the heap, and whether the maps file is left open.\<close>

definition xdl_open :: "(nat \<Rightarrow> bool) \<Rightarrow> xh_os \<Rightarrow> dl_env \<Rightarrow> process \<Rightarrow> string option \<Rightarrow> c_heap \<Rightarrow>
    (xdl_t option \<times> c_heap \<times> bool) res option" where
  "xdl_open grant os dl p filename h =
     (case filename of
        None \<Rightarrow> Some (Inr (None, h, False))
      | Some name \<Rightarrow>
          let fl = (if xdl_util_ends_with name XDL_CONST_BASENAME_LINKER then XDL_FULL_PATHNAME OR XDL_WITH_LINKER
                    else XDL_FULL_PATHNAME)
          in (case xdl_iterate_phdr os dl op_mem (xdl_open_iterate_cb grant name) fl
                \<lparr>op_mem = p, op_heap = h, op_self = None\<rparr> of
                None \<Rightarrow> None
              | Some (Inl e, s, opened) \<Rightarrow> Some (Inl e)
              | Some (Inr r, s, opened) \<Rightarrow> Some (Inr (op_self s, op_heap s, opened))))"

definition xdl_close :: "xdl_t option \<Rightarrow> c_heap \<Rightarrow> c_heap res" where
  "xdl_close handle h =
     (case handle of
        None \<Rightarrow> Inr h
      | Some self \<Rightarrow>
          res_bind (h_free (fst (x_pathname self)) h) (\<lambda>h1.
          res_bind (case x_debugdata self of
              Some b \<Rightarrow> h_free b h1
            | None \<Rightarrow> res_bind (h_free_ptr (x_symtab self) h1) (\<lambda>h2. h_free_ptr (x_strtab self) h2)) (\<lambda>h3.
          h_free (x_self self) h3)))"

section \<open>The dynamic section\<close>

definition xdl_dyn_entry :: "process \<Rightarrow> u64 \<Rightarrow> u64 \<Rightarrow> xdl_t \<Rightarrow> xdl_t res" where
  "xdl_dyn_entry p entry d_tag self =
     (let d_ptr = load64 p (entry + 8)
      in if d_tag = DT_SYMTAB then res_bind d_ptr (\<lambda>v. Inr (self\<lparr>dynsym := load_bias self + v\<rparr>))
         else if d_tag = DT_STRTAB then res_bind d_ptr (\<lambda>v. Inr (self\<lparr>dynstr := load_bias self + v\<rparr>))
         else if d_tag = DT_HASH then
           res_bind d_ptr (\<lambda>v. let raw = load_bias self + v in
           res_bind (load32 p raw) (\<lambda>nbucket. res_bind (load32 p (raw + 4)) (\<lambda>nchain.
             Inr (self\<lparr>sysv_buckets_cnt := nbucket, sysv_chains_cnt := nchain, sysv_buckets := raw + 8,
               sysv_chains := raw + 8 + ucast nbucket * 4\<rparr>))))
         else if d_tag = DT_GNU_HASH then
           res_bind d_ptr (\<lambda>v. let raw = load_bias self + v in
           res_bind (load32 p raw) (\<lambda>nbucket. res_bind (load32 p (raw + 4)) (\<lambda>symoff.
           res_bind (load32 p (raw + 8)) (\<lambda>nbloom. res_bind (load32 p (raw + 12)) (\<lambda>shift.
             Inr (self\<lparr>gnu_buckets_cnt := nbucket, gnu_symoffset := symoff, gnu_bloom_cnt := nbloom, gnu_bloom_shift := shift,
               gnu_bloom := raw + 16, gnu_buckets := raw + 16 + ucast nbloom * 8,
               gnu_chains := raw + 16 + ucast nbloom * 8 + ucast nbucket * 4\<rparr>))))))
         else Inr self)"

partial_function (option) xdl_dyn_loop :: "process \<Rightarrow> u64 \<Rightarrow> xdl_t \<Rightarrow> xdl_t res option" where
  "xdl_dyn_loop p entry self =
     (if entry = 0 then Some (Inr self)
      else case load64 p entry of
        Inl e \<Rightarrow> Some (Inl e)
      | Inr d_tag \<Rightarrow>
          if d_tag = DT_NULL then Some (Inr self)
          else (case xdl_dyn_entry p entry d_tag self of
             Inl e \<Rightarrow> Some (Inl e) | Inr self' \<Rightarrow> xdl_dyn_loop p (entry + 16) self'))"

text \<open>0, or -1 where there is nothing to search in.\<close>

definition xdl_dynsym_load :: "process \<Rightarrow> xdl_t \<Rightarrow> (int \<times> xdl_t) res option" where
  "xdl_dynsym_load p self =
     (case segment_by_type p PT_DYNAMIC (x_phdr self) (unat (x_phnum self)) of
        Inl e \<Rightarrow> Some (Inl e)
      | Inr None \<Rightarrow> Some (Inr (- 1, self))
      | Inr (Some ph) \<Rightarrow>
          (case load64 p (ph + 16) of
             Inl e \<Rightarrow> Some (Inl e)
           | Inr p_vaddr \<Rightarrow>
               if load_bias self + p_vaddr = 0 then Some (Inr (- 1, self))
               else (case xdl_dyn_loop p (load_bias self + p_vaddr) self of
                  None \<Rightarrow> None
                | Some (Inl e) \<Rightarrow> Some (Inl e)
                | Some (Inr s) \<Rightarrow>
                    if dynsym s = 0 \<or> dynstr s = 0 \<or> (sysv_buckets_cnt s = 0 \<and> gnu_buckets_cnt s = 0)
                    then Some (Inr (- 1, s\<lparr>dynsym := 0, dynstr := 0, sysv_buckets_cnt := 0, gnu_buckets_cnt := 0\<rparr>))
                    else Some (Inr (0, s)))))"

text \<open>The section is read once; a failed attempt is not repeated.\<close>

definition load_dynsym_once :: "process \<Rightarrow> xdl_t \<Rightarrow> (int \<times> xdl_t) res option" where
  "load_dynsym_once p self =
     (if dynsym_try_load self then Some (Inr (0, self)) else xdl_dynsym_load p (self\<lparr>dynsym_try_load := True\<rparr>))"

section \<open>Symbols by name\<close>

fun sysv_hash_loop :: "u32 \<Rightarrow> u8 list \<Rightarrow> u32" where
  "sysv_hash_loop h [] = h"
| "sysv_hash_loop h (c # cs) =
     (let h1 = push_bit 4 h + ucast c; g = h1 AND 0xF0000000; h2 = h1 XOR g
      in sysv_hash_loop (h2 XOR drop_bit 24 g) cs)"

definition xdl_sysv_hash :: "u8 list \<Rightarrow> u32" where
  "xdl_sysv_hash name = sysv_hash_loop 0 name"

definition xdl_gnu_hash :: "u8 list \<Rightarrow> u32" where
  "xdl_gnu_hash name = foldl (\<lambda>h c. h + (push_bit 5 h + ucast c)) 5381 name"

definition dynsym_at :: "xdl_t \<Rightarrow> u32 \<Rightarrow> u64" where
  "dynsym_at self i = dynsym self + ucast i * 24"

definition dynsym_named :: "process \<Rightarrow> xdl_t \<Rightarrow> u8 list \<Rightarrow> u32 \<Rightarrow> bool res" where
  "dynsym_named p self nm i =
     res_bind (st_name (mem_view p (dynsym_at self i))) (\<lambda>n. strcmp_at p nm (dynstr self + ucast n))"

partial_function (option) sysv_search :: "process \<Rightarrow> xdl_t \<Rightarrow> u8 list \<Rightarrow> u32 \<Rightarrow> u32 option res option" where
  "sysv_search p self nm i =
     (if i = 0 then Some (Inr None)
      else case dynsym_named p self nm i of
        Inl e \<Rightarrow> Some (Inl e)
      | Inr eq \<Rightarrow>
          if eq then Some (Inr (Some i))
          else (case load32 p (sysv_chains self + ucast i * 4) of Inl e \<Rightarrow> Some (Inl e) | Inr j \<Rightarrow> sysv_search p self nm j))"

definition xdl_dynsym_find_symbol_use_sysv_hash :: "process \<Rightarrow> xdl_t \<Rightarrow> u8 list \<Rightarrow> u32 option res option" where
  "xdl_dynsym_find_symbol_use_sysv_hash p self nm =
     (if sysv_buckets_cnt self = 0 then Some (Inl Div_Zero)
      else case load32 p (sysv_buckets self + ucast (xdl_sysv_hash nm mod sysv_buckets_cnt self) * 4) of
        Inl e \<Rightarrow> Some (Inl e) | Inr i \<Rightarrow> sysv_search p self nm i)"

text \<open>What an entry of the chain says: does the symbol match, and is it the last?\<close>

definition gnu_entry :: "process \<Rightarrow> xdl_t \<Rightarrow> u8 list \<Rightarrow> u32 \<Rightarrow> u32 \<Rightarrow> (bool \<times> u32) res" where
  "gnu_entry p self nm hash i =
     res_bind (load32 p (gnu_chains self + ucast (i - gnu_symoffset self) * 4)) (\<lambda>sym_hash.
       if hash OR 1 = sym_hash OR 1 then res_bind (dynsym_named p self nm i) (\<lambda>eq. Inr (eq, sym_hash))
       else Inr (False, sym_hash))"

partial_function (option) gnu_search :: "process \<Rightarrow> xdl_t \<Rightarrow> u8 list \<Rightarrow> u32 \<Rightarrow> u32 \<Rightarrow> u32 option res option" where
  "gnu_search p self nm hash i =
     (case gnu_entry p self nm hash i of
        Inl e \<Rightarrow> Some (Inl e)
      | Inr (eq, sym_hash) \<Rightarrow>
          if eq then Some (Inr (Some i))
          else if sym_hash AND 1 \<noteq> 0 then Some (Inr None)
          else gnu_search p self nm hash (i + 1))"

definition xdl_dynsym_find_symbol_use_gnu_hash :: "process \<Rightarrow> xdl_t \<Rightarrow> u8 list \<Rightarrow> u32 option res option" where
  "xdl_dynsym_find_symbol_use_gnu_hash p self nm =
     (let hash = xdl_gnu_hash nm in
      if gnu_bloom_cnt self = 0 then Some (Inl Div_Zero)
      else if 32 \<le> gnu_bloom_shift self then Some (Inl Bad_Shift)
      else case load64 p (gnu_bloom self + ucast ((hash div 64) mod gnu_bloom_cnt self) * 8) of
        Inl e \<Rightarrow> Some (Inl e)
      | Inr word \<Rightarrow>
          let bits = push_bit (unat (hash mod 64)) 1 OR
                push_bit (unat (drop_bit (unat (gnu_bloom_shift self)) hash mod 64)) (1 :: u64) in
          if word AND bits \<noteq> bits then Some (Inr None)
          else if gnu_buckets_cnt self = 0 then Some (Inl Div_Zero)
          else (case load32 p (gnu_buckets self + ucast (hash mod gnu_buckets_cnt self) * 4) of
             Inl e \<Rightarrow> Some (Inl e)
           | Inr i \<Rightarrow> if i < gnu_symoffset self then Some (Inr None) else gnu_search p self nm hash i))"

definition find_dynsym :: "process \<Rightarrow> xdl_t \<Rightarrow> u8 list \<Rightarrow> u32 option res option" where
  "find_dynsym p self nm =
     (case (if 0 < gnu_buckets_cnt self then xdl_dynsym_find_symbol_use_gnu_hash p self nm else Some (Inr None)) of
        Some (Inr None) \<Rightarrow>
          if 0 < sysv_buckets_cnt self then xdl_dynsym_find_symbol_use_sysv_hash p self nm else Some (Inr None)
      | r \<Rightarrow> r)"

text \<open>The address of an exported symbol, or null, and the handle afterwards.\<close>

definition xdl_sym :: "process \<Rightarrow> xdl_t \<Rightarrow> u8 list \<Rightarrow> (u64 \<times> xdl_t) res option" where
  "xdl_sym p self nm =
     (case load_dynsym_once p self of
        None \<Rightarrow> None
      | Some (Inl e) \<Rightarrow> Some (Inl e)
      | Some (Inr (r, s)) \<Rightarrow>
          if r \<noteq> 0 then Some (Inr (0, s))
          else if dynsym s = 0 then Some (Inr (0, s))
          else (case find_dynsym p s nm of
             None \<Rightarrow> None
           | Some (Inl e) \<Rightarrow> Some (Inl e)
           | Some (Inr None) \<Rightarrow> Some (Inr (0, s))
           | Some (Inr (Some i)) \<Rightarrow>
               let sym = mem_view p (dynsym_at s i) in
               Some (res_bind (st_shndx sym) (\<lambda>shndx. if shndx = 0 then Inr (0, s)
                 else res_bind (st_value sym) (\<lambda>v. Inr (load_bias s + v, s))))))"


section \<open>The searches keep the contract\<close>

definition next_sysv :: "process \<Rightarrow> xdl_t \<Rightarrow> u32 \<Rightarrow> u32 option res" where
  "next_sysv p self i = res_bind (load32 p (sysv_chains self + ucast i * 4)) (\<lambda>j. Inr (Some j))"

lemma sysv_search_hit:
  assumes "sysv_search p self nm i = Some r"
  shows "\<forall>j. r = Inr (Some j) \<longrightarrow> dynsym_named p self nm j = Inr True"
proof (rule sysv_search.raw_induct [OF _ assms])
  fix f and p :: process and self nm i and r :: "u32 option res"
  assume IH: "\<And>p self nm i r. f p self nm i = Some r \<Longrightarrow> \<forall>j. r = Inr (Some j) \<longrightarrow> dynsym_named p self nm j = Inr True"
    and eq: "(if i = 0 then Some (Inr None)
      else case dynsym_named p self nm i of
        Inl e \<Rightarrow> Some (Inl e)
      | Inr eq \<Rightarrow>
          if eq then Some (Inr (Some i))
          else (case load32 p (sysv_chains self + ucast i * 4) of Inl e \<Rightarrow> Some (Inl e) | Inr j \<Rightarrow> f p self nm j)) = Some r"
  then show "\<forall>j. r = Inr (Some j) \<longrightarrow> dynsym_named p self nm j = Inr True"
    by (auto split: if_splits sum.splits dest: IH)
qed

interpretation xdl_sysv: chain_search "\<lambda>i. i = 0" "dynsym_named p self nm" "next_sysv p self" "sysv_search p self nm"
  for p self nm
proof
  show "sysv_search p self nm i =
      (if i = 0 then Some (Inr None)
       else case dynsym_named p self nm i of
         Inl e \<Rightarrow> Some (Inl e)
       | Inr b \<Rightarrow>
           if b then Some (Inr (Some i))
           else (case next_sysv p self i of
              Inl e \<Rightarrow> Some (Inl e) | Inr None \<Rightarrow> Some (Inr None) | Inr (Some j) \<Rightarrow> sysv_search p self nm j))" for i
    by (subst sysv_search.simps) (simp add: next_sysv_def res_bind_def split: sum.splits)
  show "sysv_search p self nm i = Some (Inr (Some j)) \<Longrightarrow> dynsym_named p self nm j = Inr True" for i j
    using sysv_search_hit by blast
qed

definition gnu_matches :: "process \<Rightarrow> xdl_t \<Rightarrow> u8 list \<Rightarrow> u32 \<Rightarrow> u32 \<Rightarrow> bool res" where
  "gnu_matches p self nm hash i = res_bind (gnu_entry p self nm hash i) (\<lambda>(eq, sym_hash). Inr eq)"

definition next_gnu :: "process \<Rightarrow> xdl_t \<Rightarrow> u8 list \<Rightarrow> u32 \<Rightarrow> u32 \<Rightarrow> u32 option res" where
  "next_gnu p self nm hash i =
     res_bind (gnu_entry p self nm hash i) (\<lambda>(eq, sym_hash). Inr (if sym_hash AND 1 \<noteq> 0 then None else Some (i + 1)))"

lemma gnu_search_hit:
  assumes "gnu_search p self nm hash i = Some r"
  shows "\<forall>j. r = Inr (Some j) \<longrightarrow> gnu_matches p self nm hash j = Inr True"
proof (rule gnu_search.raw_induct [OF _ assms])
  fix f and p :: process and self nm hash i and r :: "u32 option res"
  assume IH: "\<And>p self nm hash i r. f p self nm hash i = Some r \<Longrightarrow> \<forall>j. r = Inr (Some j) \<longrightarrow> gnu_matches p self nm hash j = Inr True"
    and eq: "(case gnu_entry p self nm hash i of
        Inl e \<Rightarrow> Some (Inl e)
      | Inr (eq, sym_hash) \<Rightarrow>
          if eq then Some (Inr (Some i))
          else if sym_hash AND 1 \<noteq> 0 then Some (Inr None)
          else f p self nm hash (i + 1)) = Some r"
  then show "\<forall>j. r = Inr (Some j) \<longrightarrow> gnu_matches p self nm hash j = Inr True"
    by (auto simp: gnu_matches_def split: if_splits sum.splits dest: IH)
qed

interpretation xdl_gnu: chain_search "\<lambda>_. False" "gnu_matches p self nm hash" "next_gnu p self nm hash" "gnu_search p self nm hash"
  for p self nm hash
proof
  show "gnu_search p self nm hash i =
      (if False then Some (Inr None)
       else case gnu_matches p self nm hash i of
         Inl e \<Rightarrow> Some (Inl e)
       | Inr b \<Rightarrow>
           if b then Some (Inr (Some i))
           else (case next_gnu p self nm hash i of
              Inl e \<Rightarrow> Some (Inl e) | Inr None \<Rightarrow> Some (Inr None) | Inr (Some j) \<Rightarrow> gnu_search p self nm hash j))" for i
    by (cases "gnu_entry p self nm hash i"; subst gnu_search.simps) (auto simp: gnu_matches_def next_gnu_def split: prod.splits)
  show "gnu_search p self nm hash i = Some (Inr (Some j)) \<Longrightarrow> gnu_matches p self nm hash j = Inr True" for i j
    using gnu_search_hit by blast
qed

lemma gnu_matches_named: "gnu_matches p self nm hash i = Inr True \<Longrightarrow> dynsym_named p self nm i = Inr True"
  by (auto simp: gnu_matches_def gnu_entry_def res_bind_Inr_iff split: if_splits)

section \<open>Loading the dynamic section\<close>

text \<open>Reading the dynamic section does not touch what identifies the object.\<close>

definition same_object :: "xdl_t \<Rightarrow> xdl_t \<Rightarrow> bool" where
  "same_object s t \<longleftrightarrow> x_self s = x_self t \<and> x_pathname s = x_pathname t \<and> load_bias s = load_bias t \<and>
     x_phdr s = x_phdr t \<and> x_phnum s = x_phnum t \<and> x_debugdata s = x_debugdata t \<and> x_symtab s = x_symtab t \<and>
     x_strtab s = x_strtab t \<and> symtab_try_load s = symtab_try_load t \<and> x_symtab_cnt s = x_symtab_cnt t \<and>
     x_strtab_sz s = x_strtab_sz t"

lemma same_object_refl [simp]: "same_object s s" by (simp add: same_object_def)

lemma same_object_trans: "same_object s t \<Longrightarrow> same_object t u \<Longrightarrow> same_object s u" by (simp add: same_object_def)

lemma dyn_entry_same: "xdl_dyn_entry p entry d_tag self = Inr s \<Longrightarrow> same_object s self"
  by (auto simp: xdl_dyn_entry_def Let_def res_bind_Inr_iff same_object_def split: if_splits)

lemma dyn_loop_same:
  assumes "xdl_dyn_loop p entry self = Some r"
  shows "\<forall>s. r = Inr s \<longrightarrow> same_object s self"
proof (rule xdl_dyn_loop.raw_induct [OF _ assms])
  fix f and p :: process and entry self and r :: "xdl_t res"
  assume IH: "\<And>p entry self r. f p entry self = Some r \<Longrightarrow> \<forall>s. r = Inr s \<longrightarrow> same_object s self"
    and eq: "(if entry = 0 then Some (Inr self)
      else case load64 p entry of
        Inl e \<Rightarrow> Some (Inl e)
      | Inr d_tag \<Rightarrow>
          if d_tag = DT_NULL then Some (Inr self)
          else (case xdl_dyn_entry p entry d_tag self of
             Inl e \<Rightarrow> Some (Inl e) | Inr self' \<Rightarrow> f p (entry + 16) self')) = Some r"
  from eq show "\<forall>s. r = Inr s \<longrightarrow> same_object s self"
    by (auto split: if_splits sum.splits dest: IH intro: same_object_trans dyn_entry_same)
qed

lemma dynsym_load_same:
  assumes "xdl_dynsym_load p self = Some (Inr (r, s))"
  shows "same_object s self"
proof -
  have "same_object t self" if "xdl_dyn_loop p e self = Some (Inr t)" for t e
    using dyn_loop_same [OF that] by simp
  then show ?thesis using assms
    by (auto simp: xdl_dynsym_load_def Let_def split: sum.splits option.splits if_splits)
      (auto simp: same_object_def)
qed

lemma load_once_same: "load_dynsym_once p self = Some (Inr (r, s)) \<Longrightarrow> same_object s self"
  using dynsym_load_same [of p "self\<lparr>dynsym_try_load := True\<rparr>" r s]
  by (auto simp: load_dynsym_once_def same_object_def split: if_splits)

lemma find_dynsym_named:
  assumes "find_dynsym p self nm = Some (Inr (Some i))"
  shows "dynsym_named p self nm i = Inr True"
proof -
  have g: "dynsym_named p self nm i = Inr True" if "xdl_dynsym_find_symbol_use_gnu_hash p self nm = Some (Inr (Some i))"
    using that xdl_gnu.search_hit gnu_matches_named
    by (fastforce simp: xdl_dynsym_find_symbol_use_gnu_hash_def Let_def split: if_splits sum.splits)
  have s: "dynsym_named p self nm i = Inr True" if "xdl_dynsym_find_symbol_use_sysv_hash p self nm = Some (Inr (Some i))"
    using that xdl_sysv.search_hit
    by (fastforce simp: xdl_dynsym_find_symbol_use_sysv_hash_def split: if_splits sum.splits)
  show ?thesis using assms g s
    by (auto simp: find_dynsym_def split: if_splits option.splits sum.splits)
qed


lemma load_byte_field: "res_bind (load_bytes p a (Suc 0)) (\<lambda>bs. Inr (le_word bs)) = load8 p a"
proof -
  have "le_word [b] = b" for b :: u8 by (rule bit_word_eqI) (simp add: bit_le_word)
  then show ?thesis by (cases "load8 p a") simp_all
qed

section \<open>What is exported\<close>

text \<open>Symbol \<open>i\<close> is defined, at the address \<open>a\<close>.\<close>

definition exports :: "process \<Rightarrow> xdl_t \<Rightarrow> u32 \<Rightarrow> u64 \<Rightarrow> bool" where
  "exports p s i a \<longleftrightarrow> (\<exists>sh v. st_shndx (mem_view p (dynsym_at s i)) = Inr sh \<and> sh \<noteq> 0 \<and>
     st_value (mem_view p (dynsym_at s i)) = Inr v \<and> a = load_bias s + v)"

lemma sym_fields_mem [simp]:
  "st_name (mem_view p a) = load32 p a" "st_info (mem_view p a) = load8 p (a + 4)"
  "st_shndx (mem_view p a) = load16 p (a + 6)" "st_value (mem_view p a) = load64 p (a + 8)"
  "st_size (mem_view p a) = load64 p (a + 16)"
  by (simp_all add: st_name_def st_info_def st_shndx_def st_value_def st_size_def field_def mem_view_def
      load16_def load32_def load64_def load_byte_field [simplified])

text \<open>The entries the hash tables have for a name.\<close>

definition sysv_entries :: "process \<Rightarrow> xdl_t \<Rightarrow> u8 list \<Rightarrow> u32 list \<Rightarrow> bool" where
  "sysv_entries p s nm is \<longleftrightarrow> 0 < sysv_buckets_cnt s \<and>
     (\<exists>b. load32 p (sysv_buckets s + ucast (xdl_sysv_hash nm mod sysv_buckets_cnt s) * 4) = Inr b \<and> xdl_sysv.chain p s nm b is)"

definition bloom_bits :: "xdl_t \<Rightarrow> u32 \<Rightarrow> u64" where
  "bloom_bits s hash = push_bit (unat (hash mod 64)) 1 OR push_bit (unat (drop_bit (unat (gnu_bloom_shift s)) hash mod 64)) 1"

definition gnu_entries :: "process \<Rightarrow> xdl_t \<Rightarrow> u8 list \<Rightarrow> u32 list \<Rightarrow> bool" where
  "gnu_entries p s nm is \<longleftrightarrow> 0 < gnu_buckets_cnt s \<and> 0 < gnu_bloom_cnt s \<and> gnu_bloom_shift s < 32 \<and>
     (\<exists>w b. load64 p (gnu_bloom s + ucast ((xdl_gnu_hash nm div 64) mod gnu_bloom_cnt s) * 8) = Inr w \<and>
        w AND bloom_bits s (xdl_gnu_hash nm) = bloom_bits s (xdl_gnu_hash nm) \<and>
        load32 p (gnu_buckets s + ucast (xdl_gnu_hash nm mod gnu_buckets_cnt s) * 4) = Inr b \<and> gnu_symoffset s \<le> b \<and>
        xdl_gnu.chain p s nm (xdl_gnu_hash nm) b is)"

lemma sysv_entries_find:
  assumes "sysv_entries p s nm is"
  shows "xdl_dynsym_find_symbol_use_sysv_hash p s nm = Some (Inr (List.find (\<lambda>i. dynsym_named p s nm i = Inr True) is))"
  using assms xdl_sysv.search_chain by (auto simp: sysv_entries_def xdl_dynsym_find_symbol_use_sysv_hash_def)

lemma gnu_entries_find:
  assumes "gnu_entries p s nm is"
  shows "xdl_dynsym_find_symbol_use_gnu_hash p s nm =
    Some (Inr (List.find (\<lambda>i. gnu_matches p s nm (xdl_gnu_hash nm) i = Inr True) is))"
proof -
  from assms obtain w b where b: "load64 p (gnu_bloom s + ucast ((xdl_gnu_hash nm div 64) mod gnu_bloom_cnt s) * 8) = Inr w"
      "w AND bloom_bits s (xdl_gnu_hash nm) = bloom_bits s (xdl_gnu_hash nm)"
      "load32 p (gnu_buckets s + ucast (xdl_gnu_hash nm mod gnu_buckets_cnt s) * 4) = Inr b" "gnu_symoffset s \<le> b"
      "xdl_gnu.chain p s nm (xdl_gnu_hash nm) b is"
    and c: "gnu_buckets_cnt s \<noteq> 0" "gnu_bloom_cnt s \<noteq> 0" "\<not> 32 \<le> gnu_bloom_shift s"
    by (auto simp: gnu_entries_def)
  have "\<not> b < gnu_symoffset s" using b(4) by simp
  then show ?thesis
    using b(1,3) b(2) [unfolded bloom_bits_def] c xdl_gnu.search_chain [OF b(5)]
    unfolding xdl_dynsym_find_symbol_use_gnu_hash_def Let_def by simp
qed

lemma xdl_sym_exported:
  assumes "load_dynsym_once p self = Some (Inr (0, s))" and "dynsym s \<noteq> 0"
    and "find_dynsym p s nm = Some (Inr (Some i))" and "exports p s i a"
  shows "xdl_sym p self nm = Some (Inr (a, s))"
proof -
  obtain sh v where "st_shndx (mem_view p (dynsym_at s i)) = Inr sh" "sh \<noteq> 0"
      "st_value (mem_view p (dynsym_at s i)) = Inr v" "a = load_bias s + v"
    using assms(4) unfolding exports_def by blast
  then show ?thesis using assms(1-3) by (simp add: xdl_sym_def)
qed

text \<open>The first entry of a list of entries that is the only one to match.\<close>

lemma find_only:
  assumes "j \<in> set is" and "P j" and "\<forall>i\<in>set is. P i \<longrightarrow> i = j"
  shows "List.find P is = Some j"
proof -
  have "List.find P is \<noteq> None" using assms(1,2) by (auto simp: find_None_iff)
  then obtain k where k: "List.find P is = Some k" by blast
  then have "P k" "k \<in> set is" by (auto simp: find_Some_iff)
  then have "k = j" using assms(3) by blast
  with k show ?thesis by (simp only:)
qed

lemma load16_sparse_6:
  assumes "take_bit 3 (a - 6) = 0"
  shows "load16 (sparse ws) a = Inr (ucast (drop_bit 48 (word_map ws (a - 6))))"
  using load_bytes_sparse [OF assms, of 6 2 ws] part_word [of 2 6 "word_map ws (a - 6)", where 'a = 16]
  by (simp add: load16_def)

text \<open>The words of the sample library with a definition for its symbol 1.\<close>

definition xdl_words :: "(u64 \<times> u64) list" where
  "xdl_words = [(0x10068, 0x1000), (0x10418, 0x0001001200000008), (0x10420, 0x800), (0x10428, 0x40)] @ sample_words"

definition xdl_lib :: process where
  "xdl_lib = sparse xdl_words"

lemmas xdl_loads = sparse_loads [where ws = xdl_words, folded xdl_lib_def]

definition xdl_info :: dl_phdr_info where
  "xdl_info = \<lparr>dlpi_addr = 0x10000, dlpi_name = Some ''/l.so'', dlpi_phdr = 0x10040, dlpi_phnum = 2\<rparr>"

definition xdl_self :: xdl_t where
  "xdl_self = \<lparr>x_self = 0, x_pathname = (1, ''/l.so''), load_bias = 0x10000, x_phdr = 0x10040, x_phnum = 2,
     dynsym_try_load = False, dynsym = 0, dynstr = 0, sysv_buckets = 0, sysv_buckets_cnt = 0, sysv_chains = 0, sysv_chains_cnt = 0,
     gnu_buckets = 0, gnu_buckets_cnt = 0, gnu_chains = 0, gnu_symoffset = 0, gnu_bloom = 0, gnu_bloom_cnt = 0, gnu_bloom_shift = 0,
     symtab_try_load = False, x_base = 0, x_debugdata = None, x_symtab = None, x_symtab_cnt = 0, x_strtab = None, x_strtab_sz = 0\<rparr>"

definition xdl_loaded :: xdl_t where
  "xdl_loaded = xdl_self\<lparr>dynsym_try_load := True, dynsym := 0x10400, dynstr := 0x10300, sysv_buckets_cnt := 1,
     sysv_chains_cnt := 3, sysv_buckets := 0x10608, sysv_chains := 0x1060C\<rparr>"

lemma xdl_dyn_words:
  "load64 xdl_lib 0x10200 = Inr 5" "load64 xdl_lib 0x10208 = Inr 0x300" "load64 xdl_lib 0x10210 = Inr 6"
  "load64 xdl_lib 0x10218 = Inr 0x400" "load64 xdl_lib 0x10220 = Inr 20" "load64 xdl_lib 0x10230 = Inr 23"
  "load64 xdl_lib 0x10240 = Inr 2" "load64 xdl_lib 0x10250 = Inr 4" "load64 xdl_lib 0x10258 = Inr 0x600"
  "load64 xdl_lib 0x10260 = Inr 0" "load32 xdl_lib 0x10600 = Inr 1" "load32 xdl_lib 0x10604 = Inr 3"
  "load64 xdl_lib 0x10088 = Inr 0x200" "load32 xdl_lib 0x10040 = Inr 1" "load32 xdl_lib 0x10078 = Inr 2"
  "load32 xdl_lib 0x10608 = Inr 1" "load32 xdl_lib 0x10610 = Inr 0"
  by (simp_all add: xdl_loads word_map_def xdl_words_def sample_words_def)

lemma xdl_dyn_step:
  assumes "d \<noteq> 0" and "load64 p d = Inr t" and "t \<noteq> DT_NULL" and "xdl_dyn_entry p d t self = Inr self'"
  shows "xdl_dyn_loop p d self = xdl_dyn_loop p (d + 16) self'"
  using assms by (subst xdl_dyn_loop.simps) simp

lemma xdl_sample_load: "load_dynsym_once xdl_lib xdl_self = Some (Inr (0, xdl_loaded))"
proof -
  define s0 where "s0 = xdl_self\<lparr>dynsym_try_load := True\<rparr>"
  define s1 where "s1 = s0\<lparr>dynstr := 0x10300\<rparr>"
  define s2 where "s2 = s1\<lparr>dynsym := 0x10400\<rparr>"
  have b: "load_bias s0 = 0x10000" "load_bias s1 = 0x10000" "load_bias s2 = 0x10000"
    by (simp_all add: s0_def s1_def s2_def xdl_self_def)
  have e: "xdl_dyn_entry xdl_lib 0x10200 5 s0 = Inr s1" "xdl_dyn_entry xdl_lib 0x10210 6 s1 = Inr s2"
    "xdl_dyn_entry xdl_lib 0x10220 20 s2 = Inr s2" "xdl_dyn_entry xdl_lib 0x10230 23 s2 = Inr s2"
    "xdl_dyn_entry xdl_lib 0x10240 2 s2 = Inr s2" "xdl_dyn_entry xdl_lib 0x10250 4 s2 = Inr xdl_loaded"
    using b by (simp_all add: xdl_dyn_entry_def dt_defs xdl_dyn_words Let_def)
      (simp_all add: s0_def s1_def s2_def xdl_loaded_def)
  have "xdl_dyn_loop xdl_lib 0x10200 s0 = xdl_dyn_loop xdl_lib 0x10260 xdl_loaded"
    using e by (simp add: xdl_dyn_step [where d = "0x10200"] xdl_dyn_step [where d = "0x10210"] xdl_dyn_step [where d = "0x10220"]
      xdl_dyn_step [where d = "0x10230"] xdl_dyn_step [where d = "0x10240"] xdl_dyn_step [where d = "0x10250"]
      xdl_dyn_words dt_defs)
  also have "\<dots> = Some (Inr xdl_loaded)" by (subst xdl_dyn_loop.simps) (simp add: xdl_dyn_words dt_defs)
  finally have l: "xdl_dyn_loop xdl_lib 0x10200 s0 = Some (Inr xdl_loaded)" .
  have "segment_by_type xdl_lib PT_DYNAMIC 0x10040 2 = Inr (Some 0x10078)"
    by (simp add: segment_numeral xdl_dyn_words PT_DYNAMIC_def)
  then show ?thesis using l unfolding s0_def
    by (simp add: load_dynsym_once_def xdl_dynsym_load_def xdl_dyn_words xdl_self_def)
      (simp add: xdl_loaded_def xdl_self_def)
qed

lemma xdl_sample_symbol:
  "dynsym_named xdl_lib xdl_loaded sample_malloc 1 = Inr True" "exports xdl_lib xdl_loaded 1 0x10800"
proof -
  have n: "load32 xdl_lib 0x10418 = Inr 8" "load16 xdl_lib 0x1041E = Inr 1" "load64 xdl_lib 0x10420 = Inr 0x800"
    by (simp_all add: xdl_loads load16_sparse_6 [where ws = xdl_words, folded xdl_lib_def] word_map_def xdl_words_def sample_words_def)
  have s: "dynsym_at xdl_loaded 1 = 0x10418" "dynstr xdl_loaded = 0x10300" "load_bias xdl_loaded = 0x10000"
    by (simp_all add: dynsym_at_def xdl_loaded_def xdl_self_def)
  have "strcmp_at xdl_lib sample_malloc 0x10308 = Inr True"
    by (simp add: sample_malloc_def load8_sparse [where ws = xdl_words, folded xdl_lib_def] word_map_def xdl_words_def sample_words_def)
  then show "dynsym_named xdl_lib xdl_loaded sample_malloc 1 = Inr True"
    by (simp add: dynsym_named_def s n)
  show "exports xdl_lib xdl_loaded 1 0x10800"
    by (simp add: exports_def s n)
qed

lemma xdl_sample_entries: "sysv_entries xdl_lib xdl_loaded sample_malloc [1]"
proof -
  have c: "sysv_buckets_cnt xdl_loaded = 1" "sysv_buckets xdl_loaded = 0x10608" "sysv_chains xdl_loaded = 0x1060C"
    by (simp_all add: xdl_loaded_def)
  have "next_sysv xdl_lib xdl_loaded 1 = Inr (Some 0)" by (simp add: next_sysv_def c xdl_dyn_words)
  then have "xdl_sysv.chain xdl_lib xdl_loaded sample_malloc 1 [1]"
    using xdl_sample_symbol by (auto simp: xdl_sysv.entry_def)
  then show ?thesis by (simp add: sysv_entries_def c xdl_dyn_words)
qed

section \<open>Properties of the lookup by name\<close>

text \<open>The address \<open>xdl_sym\<close> returns is that of a defined symbol of the library with the name asked for.\<close>

theorem xdl_sym_sound:
  assumes "xdl_sym p self nm = Some (Inr (a, s))" and "a \<noteq> 0"
  shows "\<exists>i. dynsym_named p s nm i = Inr True \<and> exports p s i a \<and> load_bias s = load_bias self"
proof -
  from assms obtain i where l: "load_dynsym_once p self = Some (Inr (0, s))" and i: "find_dynsym p s nm = Some (Inr (Some i))"
    and "exports p s i a"
    by (auto simp: xdl_sym_def exports_def res_bind_Inr_iff Let_def split: option.splits sum.splits if_splits)
  moreover have "load_bias s = load_bias self" using load_once_same [OF l] by (simp add: same_object_def)
  ultimately show ?thesis using find_dynsym_named by blast
qed

text \<open>C33. A defined symbol is found: when the GNU table, or without one the ELF table, has the entries \<open>is\<close> for the
  bucket of the name, every entry can be read, and one of them, \<open>j\<close>, is the only one to match, then
  \<open>xdl_sym\<close> returns the address of \<open>j\<close>.\<close>

theorem xdl_sym_finds:
  assumes "load_dynsym_once p self = Some (Inr (0, s))" and "dynsym s \<noteq> 0"
    and "gnu_entries p s nm is \<and> test = gnu_matches p s nm (xdl_gnu_hash nm) \<or>
      gnu_buckets_cnt s = 0 \<and> sysv_entries p s nm is \<and> test = dynsym_named p s nm"
    and "j \<in> set is" and "test j = Inr True" and "\<forall>i\<in>set is. test i = Inr True \<longrightarrow> i = j" and "exports p s j a"
  shows "xdl_sym p self nm = Some (Inr (a, s))"
proof (rule xdl_sym_exported [OF assms(1,2) _ assms(7)])
  have f: "List.find (\<lambda>i. test i = Inr True) is = Some j" using assms(4-6) by (intro find_only)
  from assms(3) show "find_dynsym p s nm = Some (Inr (Some j))"
  proof
    assume "gnu_entries p s nm is \<and> test = gnu_matches p s nm (xdl_gnu_hash nm)"
    then show ?thesis using gnu_entries_find [of p s nm "is"] f by (auto simp: find_dynsym_def gnu_entries_def)
  next
    assume "gnu_buckets_cnt s = 0 \<and> sysv_entries p s nm is \<and> test = dynsym_named p s nm"
    then show ?thesis using sysv_entries_find [of p s nm "is"] f by (auto simp: find_dynsym_def sysv_entries_def)
  qed
qed

theorem xdl_sym_finds_witness: "xdl_sym xdl_lib xdl_self sample_malloc = Some (Inr (0x10800, xdl_loaded))"
  using xdl_sym_finds [OF xdl_sample_load, of sample_malloc "[1]" "dynsym_named xdl_lib xdl_loaded sample_malloc" 1 "0x10800"]
    xdl_sample_entries xdl_sample_symbol by (simp add: xdl_loaded_def xdl_self_def)

theorem xdl_sym_sound_witness: "\<exists>i. dynsym_named xdl_lib xdl_loaded sample_malloc i = Inr True \<and> exports xdl_lib xdl_loaded i 0x10800"
proof -
  have "find_dynsym xdl_lib xdl_loaded sample_malloc = Some (Inr (Some 1))"
    using sysv_entries_find [OF xdl_sample_entries] xdl_sample_symbol(1) by (simp add: find_dynsym_def) (simp add: xdl_loaded_def xdl_self_def)
  then have "xdl_sym xdl_lib xdl_self sample_malloc = Some (Inr (0x10800, xdl_loaded))"
    using xdl_sym_exported [OF xdl_sample_load _ _ xdl_sample_symbol(2)] by (simp add: xdl_loaded_def xdl_self_def)
  from xdl_sym_sound [OF this] show ?thesis by auto
qed


section \<open>The two libraries look symbols up alike\<close>

text \<open>The tables of a handle as \<open>xHook\<close> would have read them: the ELF table, and the GNU table.\<close>

definition xh_view :: "xdl_t \<Rightarrow> xh_elf_t" where
  "xh_view s = zero_elf\<lparr>symtab := dynsym s, strtab := dynstr s, bucket := sysv_buckets s, bucket_cnt := sysv_buckets_cnt s,
     hchain := sysv_chains s\<rparr>"

definition xh_gnu_view :: "xdl_t \<Rightarrow> xh_elf_t" where
  "xh_gnu_view s = zero_elf\<lparr>symtab := dynsym s, strtab := dynstr s, bucket := gnu_buckets s, bucket_cnt := gnu_buckets_cnt s,
     hchain := gnu_chains s, symoffset := gnu_symoffset s, bloom := gnu_bloom s, bloom_sz := gnu_bloom_cnt s,
     bloom_shift := gnu_bloom_shift s\<rparr>"

lemma sysv_hash_eq: "xdl_sysv_hash nm = xh_elf_hash nm"
proof -
  have "sysv_hash_loop h nm = elf_hash_loop h nm" for h by (induction nm arbitrary: h) (simp_all add: Let_def)
  then show ?thesis by (simp add: xdl_sysv_hash_def xh_elf_hash_def)
qed

lemma gnu_hash_eq: "xdl_gnu_hash nm = xh_elf_gnu_hash nm"
proof -
  have "foldl (\<lambda>h c. h + (push_bit 5 h + ucast c)) h nm = gnu_hash_loop h nm" for h :: u32
    by (induction nm arbitrary: h) simp_all
  then show ?thesis by (simp add: xdl_gnu_hash_def xh_elf_gnu_hash_def)
qed

lemma named_views:
  "res_bind (sym_name p (xh_view s) i) (strcmp_at p nm) = dynsym_named p s nm i"
  "res_bind (sym_name p (xh_gnu_view s) i) (strcmp_at p nm) = dynsym_named p s nm i"
  by (cases "load32 p (dynsym_at s i)";
      simp add: sym_name_def dynsym_named_def dynsym_at_def xh_view_def xh_gnu_view_def)+

lemma sysv_to_xh:
  assumes "sysv_search p s nm i = Some r"
  shows "hash_chain p (xh_view s) nm i = Some r"
proof (rule sysv_search.raw_induct [OF _ assms, where P = "\<lambda>p s nm i r. hash_chain p (xh_view s) nm i = Some r"])
  fix f and p :: process and s nm i and r :: "u32 option res"
  assume IH: "\<And>p s nm i r. f p s nm i = Some r \<Longrightarrow> hash_chain p (xh_view s) nm i = Some r"
    and eq: "(if i = 0 then Some (Inr None)
      else case dynsym_named p s nm i of
        Inl e \<Rightarrow> Some (Inl e)
      | Inr eq \<Rightarrow>
          if eq then Some (Inr (Some i))
          else (case load32 p (sysv_chains s + ucast i * 4) of Inl e \<Rightarrow> Some (Inl e) | Inr j \<Rightarrow> f p s nm j)) = Some r"
  have w: "word_at p (hchain (xh_view s)) i = load32 p (sysv_chains s + ucast i * 4)" by (simp add: word_at_def xh_view_def)
  from eq show "hash_chain p (xh_view s) nm i = Some r"
    by (subst hash_chain.simps) (auto simp: named_views w split: if_splits sum.splits dest: IH)
qed

lemma xh_to_sysv:
  assumes "hash_chain p t nm i = Some r"
  shows "\<forall>s. t = xh_view s \<longrightarrow> sysv_search p s nm i = Some r"
proof (rule hash_chain.raw_induct [OF _ assms])
  fix f and p :: process and t nm i and r :: "u32 option res"
  assume IH: "\<And>p t nm i r. f p t nm i = Some r \<Longrightarrow> \<forall>s. t = xh_view s \<longrightarrow> sysv_search p s nm i = Some r"
    and eq: "(if i = 0 then Some (Inr None)
      else case res_bind (sym_name p t i) (strcmp_at p nm) of
        Inl e \<Rightarrow> Some (Inl e)
      | Inr eq \<Rightarrow>
          if eq then Some (Inr (Some i))
          else (case word_at p (hchain t) i of Inl e \<Rightarrow> Some (Inl e) | Inr j \<Rightarrow> f p t nm j)) = Some r"
  show "\<forall>s. t = xh_view s \<longrightarrow> sysv_search p s nm i = Some r"
  proof (intro allI impI)
  fix s assume t: "t = xh_view s"
  have w: "word_at p (hchain (xh_view s)) i = load32 p (sysv_chains s + ucast i * 4)" by (simp add: word_at_def xh_view_def)
  from eq show "sysv_search p s nm i = Some r" unfolding t
    by (subst sysv_search.simps) (auto simp: named_views w split: if_splits sum.splits dest: IH)
  qed
qed

lemma sysv_search_eq: "sysv_search p s nm i = hash_chain p (xh_view s) nm i"
proof (cases "sysv_search p s nm i")
  case (Some r)
  then show ?thesis using sysv_to_xh by simp
next
  case None
  then show ?thesis using xh_to_sysv [of p "xh_view s" nm i] by (cases "hash_chain p (xh_view s) nm i") auto
qed

lemma xh_to_gnu:
  assumes "gnu_chain p t nm hash i = Some r"
  shows "\<forall>s. t = xh_gnu_view s \<longrightarrow> (\<exists>j. r = Inr j) \<longrightarrow> gnu_search p s nm hash i = Some r"
proof (rule gnu_chain.raw_induct [OF _ assms])
  fix f and p :: process and t nm hash i and r :: "u32 option res"
  assume IH: "\<And>p t nm hash i r. f p t nm hash i = Some r \<Longrightarrow>
      \<forall>s. t = xh_gnu_view s \<longrightarrow> (\<exists>j. r = Inr j) \<longrightarrow> gnu_search p s nm hash i = Some r"
    and eq: "(case res_bind (sym_name p t i) (\<lambda>symname. res_bind (word_at p (hchain t) (i - symoffset t)) (\<lambda>symhash.
        if hash OR 1 = symhash OR 1 then res_bind (strcmp_at p nm symname) (\<lambda>eq. Inr (symhash, eq))
        else Inr (symhash, False))) of
        Inl e \<Rightarrow> Some (Inl e)
      | Inr (symhash, eq) \<Rightarrow>
          if eq then Some (Inr (Some i))
          else if symhash AND 1 \<noteq> 0 then Some (Inr None)
          else f p t nm hash (i + 1)) = Some r"
  show "\<forall>s. t = xh_gnu_view s \<longrightarrow> (\<exists>j. r = Inr j) \<longrightarrow> gnu_search p s nm hash i = Some r"
  proof (intro allI impI)
  fix s assume t: "t = xh_gnu_view s" and r: "\<exists>j. r = Inr j"
  have w: "word_at p (hchain (xh_gnu_view s)) (i - symoffset (xh_gnu_view s)) =
      load32 p (gnu_chains s + ucast (i - gnu_symoffset s) * 4)" by (simp add: word_at_def xh_gnu_view_def)
  obtain a where a: "sym_name p (xh_gnu_view s) i = Inr a" using eq r unfolding t by (cases "sym_name p (xh_gnu_view s) i") auto
  have d: "dynsym_named p s nm i = strcmp_at p nm a" using named_views(2) [of p s i nm] a by simp
  obtain h where h: "load32 p (gnu_chains s + ucast (i - gnu_symoffset s) * 4) = Inr h"
    using eq r a w unfolding t by (cases "load32 p (gnu_chains s + ucast (i - gnu_symoffset s) * 4)") auto
  show "gnu_search p s nm hash i = Some r"
  proof (cases "hash OR 1 = h OR 1")
    case True
    then obtain b where "strcmp_at p nm a = Inr b" using eq r a w h unfolding t by (cases "strcmp_at p nm a") auto
    then show ?thesis using eq r a w h d True IH unfolding t
      by (subst gnu_search.simps) (auto simp: gnu_entry_def split: if_splits)
  next
    case False
    then show ?thesis using eq r a w h IH unfolding t
      by (subst gnu_search.simps) (auto simp: gnu_entry_def split: if_splits)
  qed
  qed
qed

text \<open>C34. \<open>xDL\<close> and \<open>xHook\<close>, which carry the same lookup twice, agree: in the ELF hash table the two searches have the
  same outcome on every memory and name, faults and endless chains included, and where the search of \<open>xHook\<close> in the
  GNU table ends without a fault, that of \<open>xDL\<close> ends with the same symbol.\<close>

theorem lookups_agree:
  shows "xdl_dynsym_find_symbol_use_sysv_hash p s nm = xh_elf_hash_lookup p (xh_view s) nm \<and>
    (\<forall>j. xh_elf_gnu_hash_lookup_def p (xh_gnu_view s) nm = Some (Inr j) \<longrightarrow>
      xdl_dynsym_find_symbol_use_gnu_hash p s nm = Some (Inr j))"
proof (intro conjI allI impI)
  have v: "bucket_cnt (xh_view s) = sysv_buckets_cnt s" "bucket (xh_view s) = sysv_buckets s" by (simp_all add: xh_view_def)
  show "xdl_dynsym_find_symbol_use_sysv_hash p s nm = xh_elf_hash_lookup p (xh_view s) nm"
    by (simp add: xdl_dynsym_find_symbol_use_sysv_hash_def xh_elf_hash_lookup_def sysv_search_eq sysv_hash_eq v word_at_def
        cong: sum.case_cong)
next
  fix j assume l: "xh_elf_gnu_hash_lookup_def p (xh_gnu_view s) nm = Some (Inr j)"
  have v: "bucket_cnt (xh_gnu_view s) = gnu_buckets_cnt s" "bucket (xh_gnu_view s) = gnu_buckets s"
    "bloom (xh_gnu_view s) = gnu_bloom s" "bloom_sz (xh_gnu_view s) = gnu_bloom_cnt s"
    "bloom_shift (xh_gnu_view s) = gnu_bloom_shift s" "symoffset (xh_gnu_view s) = gnu_symoffset s"
    by (simp_all add: xh_gnu_view_def)
  have g: "gnu_search p s nm h i = Some (Inr j)" if "gnu_chain p (xh_gnu_view s) nm h i = Some (Inr j)" for h i
    using xh_to_gnu [OF that] by simp
  show "xdl_dynsym_find_symbol_use_gnu_hash p s nm = Some (Inr j)"
    using l unfolding xh_elf_gnu_hash_lookup_def_def xdl_dynsym_find_symbol_use_gnu_hash_def v gnu_hash_eq word_at_def Let_def
    by (auto split: if_splits sum.splits dest: g)
qed

theorem lookups_agree_witness:
  "xdl_dynsym_find_symbol_use_sysv_hash xdl_lib xdl_loaded sample_malloc = Some (Inr (Some 1)) \<and>
   xh_elf_hash_lookup xdl_lib (xh_view xdl_loaded) sample_malloc = Some (Inr (Some 1))"
  using sysv_entries_find [OF xdl_sample_entries] xdl_sample_symbol(1)
    lookups_agree [of xdl_lib xdl_loaded sample_malloc] by simp


section \<open>Opening and closing\<close>

lemma name_matches_iff:
  assumes "filename \<noteq> []"
  shows "name_matches filename name \<longleftrightarrow>
    (if hd filename = CHR ''/'' \<or> hd filename = CHR ''['' then name = filename else \<exists>dir. name = dir @ CHR ''/'' # filename)"
proof (cases "hd filename = CHR ''/'' \<or> hd filename = CHR ''[''")
  case True
  then show ?thesis using assms by (simp add: name_matches_def)
next
  case False
  define n where "n = length name - length filename"
  have "(1 + length filename \<le> length name \<and> drop n name = filename \<and> name ! (n - 1) = CHR ''/'') \<longleftrightarrow>
      (\<exists>dir. name = dir @ CHR ''/'' # filename)"
  proof
    assume a: "1 + length filename \<le> length name \<and> drop n name = filename \<and> name ! (n - 1) = CHR ''/''"
    then have "n - 1 < length name" "Suc (n - 1) = n" by (auto simp: n_def)
    then have "name = take (n - 1) name @ name ! (n - 1) # drop n name" by (metis id_take_nth_drop)
    then show "\<exists>dir. name = dir @ CHR ''/'' # filename" using a by metis
  next
    assume "\<exists>dir. name = dir @ CHR ''/'' # filename"
    then show "1 + length filename \<le> length name \<and> drop n name = filename \<and> name ! (n - 1) = CHR ''/''"
      by (auto simp: n_def)
  qed
  then show ?thesis using False by (auto simp: name_matches_def Let_def n_def)
qed

text \<open>A handle for an object: it has the name, the address and the program headers of the object. What is on the heap for
  it: closing it gives back exactly these blocks.\<close>

definition handle_of :: "dl_phdr_info \<Rightarrow> c_heap \<Rightarrow> c_heap \<Rightarrow> xdl_t \<Rightarrow> bool" where
  "handle_of info h h' self \<longleftrightarrow> dlpi_name info = Some (snd (x_pathname self)) \<and> load_bias self = dlpi_addr info \<and>
     x_phdr self = dlpi_phdr info \<and> x_phnum self = dlpi_phnum info \<and>
     (\<exists>h2. xdl_close (Some self) h' = Inr h2 \<and> h_blocks h2 = h_blocks h)"

lemma new_handle_blocks:
  assumes "new_handle grant info h = Inr (self, h')" and "\<forall>n\<ge>h_next h. h_blocks h n = None"
  shows "case self of None \<Rightarrow> h_blocks h' = h_blocks h | Some s \<Rightarrow> handle_of info h h' s"
proof -
  define a where "a = h_next h"
  have u: "h_blocks h a = None" "h_blocks h (Suc a) = None" using assms(2) by (simp_all add: a_def)
  then have e: "(h_blocks h)(a := None) = h_blocks h" "(h_blocks h)(Suc a := None) = h_blocks h" by auto
  define h1 where "h1 = h\<lparr>h_next := Suc a, h_blocks := (h_blocks h)(a \<mapsto> replicate 192 0)\<rparr>"
  have m: "h_malloc grant (replicate 192 0) h = (if grant a then (Some a, h1) else (None, h\<lparr>h_next := Suc a\<rparr>))"
    by (simp add: h_malloc_def h1_def a_def Let_def)
  show ?thesis
  proof (cases "grant a")
    case False
    then show ?thesis using assms(1) m by (auto simp: new_handle_def)
  next
    case True
    then obtain name where n: "dlpi_name info = Some name" using assms(1) m by (cases "dlpi_name info") (auto simp: new_handle_def)
    obtain p h2 where p: "h_malloc grant (map of_char name @ [0]) h1 = (p, h2)" by fastforce
    show ?thesis
    proof (cases p)
      case None
      then have "h_blocks h2 = (h_blocks h)(a \<mapsto> replicate 192 0)" using p by (auto simp: h_malloc_def h1_def Let_def split: if_splits)
      moreover from this have "self = None \<and> h' = h2\<lparr>h_blocks := (h_blocks h2)(a := None)\<rparr>"
        using assms(1) True n m p None by (simp add: new_handle_def h_free_def)
      ultimately show ?thesis using e by simp
    next
      case (Some c)
      then have c: "c = Suc a" "h_blocks h2 = (h_blocks h)(a \<mapsto> replicate 192 0, Suc a \<mapsto> map of_char name @ [0])"
        using p by (auto simp: h_malloc_def h1_def Let_def split: if_splits)
      obtain s where s: "self = Some s" "h' = h2" "x_self s = a" "x_pathname s = (Suc a, name)" "load_bias s = dlpi_addr info"
        "x_phdr s = dlpi_phdr info" "x_phnum s = dlpi_phnum info" "x_debugdata s = None" "x_symtab s = None" "x_strtab s = None"
        using assms(1) True n m p Some c(1) by (auto simp: new_handle_def)
      have "xdl_close (Some s) h2 = Inr (h2\<lparr>h_blocks := (h_blocks h2)(Suc a := None, a := None)\<rparr>)"
        using s c by (simp add: xdl_close_def h_free_def h_free_ptr_def)
      moreover have "(h_blocks h2)(Suc a := None, a := None) = h_blocks h" using c(2) u by (auto simp: fun_eq_iff)
      ultimately show ?thesis using s n by (simp add: handle_of_def)
    qed
  qed
qed

text \<open>C35. The handle that \<open>xdl_open\<close> gives is one of a loaded object with the name asked for, by its full path or the
  last part of it: it has the load bias, the name and the program headers of an object the linker
  reports, the headers from the ELF header of the object where the linker tells none (\<open>reported\<close>), or of the linker itself as found in the maps;
  closing the handle gives back all memory that was taken; and when there is no handle none is held.\<close>

theorem xdl_open_close:
  assumes "xdl_open grant os dl p (Some name) h = Some (Inr (handle, h', opened))" and "name \<noteq> []"
    and "\<forall>n\<ge>h_next h. h_blocks h n = None"
  shows "case handle of
      None \<Rightarrow> h_blocks h' = h_blocks h
    | Some self \<Rightarrow> load_bias self \<noteq> 0 \<and>
        (\<exists>fl. reported os dl fl p \<lparr>dlpi_addr = load_bias self, dlpi_name = Some (snd (x_pathname self)),
           dlpi_phdr = x_phdr self, dlpi_phnum = x_phnum self\<rparr>) \<and>
        (if hd name = CHR ''/'' \<or> hd name = CHR ''['' then snd (x_pathname self) = name
         else \<exists>dir. snd (x_pathname self) = dir @ CHR ''/'' # name) \<and>
        (\<exists>h2. xdl_close (Some self) h' = Inr h2 \<and> h_blocks h2 = h_blocks h)"
proof -
  define fl where "fl = (if xdl_util_ends_with name XDL_CONST_BASENAME_LINKER then XDL_FULL_PATHNAME OR XDL_WITH_LINKER else XDL_FULL_PATHNAME)"
  let ?I = "\<lambda>s. op_mem s = p \<and> op_heap s = h \<and> op_self s = None"
  let ?Q = "\<lambda>s. case op_self s of None \<Rightarrow> h_blocks (op_heap s) = h_blocks h
    | Some self \<Rightarrow> \<exists>info. reported os dl fl p info \<and> handle_of info h (op_heap s) self \<and> dlpi_addr info \<noteq> 0 \<and>
        name_matches name (snd (x_pathname self))"
  have cb: "if r = 0 then ?I s' else ?Q s'"
    if "?I s" "reported os dl fl (op_mem s) info" "xdl_open_iterate_cb grant name info s = Some (Inr r, s')" for info s r s'
  proof -
    note th = that
    consider "r = 0 \<and> s' = s" | nm where "dlpi_name info = Some nm" "dlpi_addr info \<noteq> 0" "name_matches name nm" "found grant info s = Some (Inr r, s')"
      using th(3) by (cases "dlpi_name info") (auto simp: xdl_open_iterate_cb_def split: if_splits)
    then show ?thesis
    proof cases
      case 1
      then show ?thesis using th(1) by simp
    next
      case 2
      then obtain self h1 where n: "new_handle grant info h = Inr (self, h1)" "r = 1" "s' = s\<lparr>op_heap := h1, op_self := self\<rparr>"
        using th(1) by (auto simp: found_def split: sum.splits)
      have "reported os dl fl p info" using th(1,2) by simp
      with new_handle_blocks [OF n(1) assms(3)] show ?thesis using n(2,3) 2(1-3)
        by (cases self) (auto simp: handle_of_def)
    qed
  qed
  from assms(1) obtain s r where w: "xdl_iterate_phdr os dl op_mem (xdl_open_iterate_cb grant name) fl
      \<lparr>op_mem = p, op_heap = h, op_self = None\<rparr> = Some (Inr r, s, opened)" "op_self s = handle" "op_heap s = h'"
    unfolding fl_def by (auto simp: xdl_open_def Let_def split: option.splits sum.splits)
  have "?I s \<or> ?Q s" by (rule iterate_rule [where I = ?I and Q = ?Q, OF cb _ w(1)]) simp_all
  then consider "handle = None" "h_blocks h' = h_blocks h"
    | self info where "handle = Some self" "reported os dl fl p info" "handle_of info h h' self" "dlpi_addr info \<noteq> 0"
      "name_matches name (snd (x_pathname self))"
    using w(2,3) by (cases handle) auto
  then show ?thesis
  proof cases
    case 1
    then show ?thesis by simp
  next
    case 2
    have "info = \<lparr>dlpi_addr = load_bias self, dlpi_name = Some (snd (x_pathname self)), dlpi_phdr = x_phdr self, dlpi_phnum = x_phnum self\<rparr>"
      using 2(3) by (cases info) (simp add: handle_of_def)
    then have "\<exists>fl. reported os dl fl p \<lparr>dlpi_addr = load_bias self, dlpi_name = Some (snd (x_pathname self)), dlpi_phdr = x_phdr self, dlpi_phnum = x_phnum self\<rparr>"
      using 2(2) by blast
    moreover have "load_bias self \<noteq> 0" "\<exists>h2. xdl_close (Some self) h' = Inr h2 \<and> h_blocks h2 = h_blocks h"
      using 2(3,4) by (auto simp: handle_of_def)
    ultimately show ?thesis using 2(1,5) name_matches_iff [OF assms(2)] by (simp split: if_splits)
  qed
qed

theorem xdl_open_close_witness:
  "\<exists>self h' h2. xdl_open (\<lambda>_. True) walk_os (walk_env\<lparr>dl_objects := Some [xdl_info]\<rparr>) xdl_lib (Some ''l.so'') \<lparr>h_blocks = \<lambda>_. None, h_next = 0\<rparr> =
       Some (Inr (Some self, h', False)) \<and>
     (\<exists>dir. snd (x_pathname self) = dir @ ''/l.so'') \<and> load_bias self \<noteq> 0 \<and> xdl_close (Some self) h' = Inr h2 \<and> h_blocks h2 = (\<lambda>_. None)"
proof -
  let ?h = "\<lparr>h_blocks = \<lambda>_. None, h_next = 0\<rparr>"
  let ?dl = "walk_env\<lparr>dl_objects := Some [xdl_info]\<rparr>"
  have i: "dlpi_addr xdl_info = 0x10000" "dlpi_name xdl_info = Some ''/l.so''" "dlpi_phdr xdl_info = 0x10040" "dlpi_phnum xdl_info = 2"
    by (simp_all add: xdl_info_def)
  have f: "fix_phdrs xdl_lib xdl_info = Inr xdl_info" "fix_name walk_os xdl_lib fl xdl_info o1 = (Inr (Some xdl_info), o1)" for fl o1
    by (simp_all add: fix_phdrs_def fix_name_def i)
  obtain self h' where n: "new_handle (\<lambda>_. True) xdl_info ?h = Inr (Some self, h')"
    by (auto simp: new_handle_def h_malloc_def i)
  have c: "xdl_open_iterate_cb (\<lambda>_. True) ''l.so'' xdl_info \<lparr>op_mem = xdl_lib, op_heap = ?h, op_self = None\<rparr> =
      Some (Inr 1, \<lparr>op_mem = xdl_lib, op_heap = h', op_self = Some self\<rparr>)"
    by (simp add: xdl_open_iterate_cb_def i name_matches_def found_def n)
  have b: "\<not> xdl_util_ends_with ''l.so'' XDL_CONST_BASENAME_LINKER" "XDL_FULL_PATHNAME AND XDL_WITH_LINKER = 0"
    by (simp_all add: xdl_util_ends_with_def XDL_CONST_BASENAME_LINKER_def XDL_FULL_PATHNAME_def XDL_WITH_LINKER_def)
  have "xdl_open (\<lambda>_. True) walk_os ?dl xdl_lib (Some ''l.so'') ?h = Some (Inr (Some self, h', False))"
    by (simp add: xdl_open_def xdl_iterate_phdr_def xdl_iterate_by_linker_def b xdl_iterate_by_linker_cb_def i f c)
  from this xdl_open_close [OF this] show ?thesis by auto
qed

end
