(* ===== verification/Xdl_Lzma.thy ===== *)
theory Xdl_Lzma
  imports Xdl_Handle
begin

text \<open>
  Unpacking \<open>.gnu_debugdata\<close> (\<open>xDL/xdl_lzma.c\<close>): the entry points of the system's \<open>liblzma\<close> are found by
  name, and a loop feeds the packed bytes to the decoder into a buffer that doubles. The decoder is a
  parameter: from its state, the room left and the bytes left it gives a result, the bytes it took and
  made, a status and its new state.
\<close>

section \<open>Finding the decoder\<close>

record lzma_fns =
  lzma_construct :: u64
  lzma_isfinished :: u64
  lzma_free :: u64
  lzma_code :: u64

definition ascii :: "string \<Rightarrow> u8 list" where
  "ascii s = map of_char s"

definition XDL_CONST_PATHNAME_LZMA :: string where "XDL_CONST_PATHNAME_LZMA = ''/system/lib64/liblzma.so''"

text \<open>A lookup that stops at the first symbol that is not there; \<open>upd\<close> stores the address.\<close>

definition lzma_sym ::
    "process \<Rightarrow> string \<Rightarrow> (u64 \<Rightarrow> lzma_fns \<Rightarrow> lzma_fns) \<Rightarrow> xdl_t \<times> lzma_fns \<times> bool \<Rightarrow> (xdl_t \<times> lzma_fns \<times> bool) res option" where
  "lzma_sym p nm upd = (\<lambda>(self, fns, ok).
     if \<not> ok then Some (Inr (self, fns, ok))
     else case xdl_sym p self (ascii nm) of
       None \<Rightarrow> None
     | Some (Inl e) \<Rightarrow> Some (Inl e)
     | Some (Inr (a, self')) \<Rightarrow> Some (Inr (self', upd a fns, a \<noteq> 0)))"

fun lzma_syms ::
    "process \<Rightarrow> (string \<times> (u64 \<Rightarrow> lzma_fns \<Rightarrow> lzma_fns)) list \<Rightarrow> xdl_t \<times> lzma_fns \<times> bool \<Rightarrow> (xdl_t \<times> lzma_fns \<times> bool) res option" where
  "lzma_syms p [] x = Some (Inr x)"
| "lzma_syms p ((nm, upd) # nms) x =
     (case lzma_sym p nm upd x of None \<Rightarrow> None | Some (Inl e) \<Rightarrow> Some (Inl e) | Some (Inr y) \<Rightarrow> lzma_syms p nms y)"

definition lzma_names :: "(string \<times> (u64 \<Rightarrow> lzma_fns \<Rightarrow> lzma_fns)) list" where
  "lzma_names = [(''CrcGenerateTable'', \<lambda>a. id), (''Crc64GenerateTable'', \<lambda>a. id),
     (''XzUnpacker_Construct'', \<lambda>a. lzma_construct_update (\<lambda>_. a)),
     (''XzUnpacker_IsStreamWasFinished'', \<lambda>a. lzma_isfinished_update (\<lambda>_. a)),
     (''XzUnpacker_Free'', \<lambda>a. lzma_free_update (\<lambda>_. a)), (''XzUnpacker_Code'', \<lambda>a. lzma_code_update (\<lambda>_. a))]"

definition xdl_lzma_init ::
    "(nat \<Rightarrow> bool) \<Rightarrow> xh_os \<Rightarrow> dl_env \<Rightarrow> process \<Rightarrow> lzma_fns \<Rightarrow> c_heap \<Rightarrow> (lzma_fns \<times> c_heap) res option" where
  "xdl_lzma_init grant os dl p fns h =
     (case xdl_open grant os dl p (Some XDL_CONST_PATHNAME_LZMA) h of
        None \<Rightarrow> None
      | Some (Inl e) \<Rightarrow> Some (Inl e)
      | Some (Inr (None, h1, opened)) \<Rightarrow> Some (Inr (fns, h1))
      | Some (Inr (Some lzma, h1, opened)) \<Rightarrow>
          (case lzma_syms p lzma_names (lzma, fns, True) of
             None \<Rightarrow> None
           | Some (Inl e) \<Rightarrow> Some (Inl e)
           | Some (Inr (lzma', fns', ok)) \<Rightarrow>
               (case xdl_close (Some lzma') h1 of Inl e \<Rightarrow> Some (Inl e) | Inr h2 \<Rightarrow> Some (Inr (fns', h2)))))"

section \<open>Unpacking\<close>

datatype coder_status = Not_Specified | Finished_With_Mark | Not_Finished | Needs_More_Input

record 'z lzma =
  dec_start :: 'z
  dec_code :: "'z \<Rightarrow> nat \<Rightarrow> u8 list \<Rightarrow> int \<times> nat \<times> u8 list \<times> coder_status \<times> 'z"
  dec_finished :: "'z \<Rightarrow> bool"

text \<open>
  \<open>realloc\<close> to \<open>n\<close> bytes. Without an old block it is \<open>malloc\<close>; to size 0 it frees the old block and gives
  null; when the request is refused the old block stays. The bytes behind the old ones are
  zeros here; the loop writes the decoded bytes over them from the front.
\<close>

definition resize :: "u8 list \<Rightarrow> u64 \<Rightarrow> u8 list" where
  "resize bs n = take (unat n) (bs @ replicate (unat n) 0)"

definition h_realloc :: "(nat \<Rightarrow> bool) \<Rightarrow> nat option \<Rightarrow> u64 \<Rightarrow> c_heap \<Rightarrow> (nat option \<times> c_heap) res" where
  "h_realloc grant ptr n h =
     (case ptr of
        None \<Rightarrow> Inr (h_malloc grant (resize [] n) h)
      | Some b \<Rightarrow>
          (case h_blocks h b of
             None \<Rightarrow> Inl Double_Free
           | Some bs \<Rightarrow>
               if n = 0 then res_bind (h_free b h) (\<lambda>h1. Inr (None, h1))
               else (case h_malloc grant (resize bs n) h of
                  (None, h1) \<Rightarrow> Inr (None, h1)
                | (Some c, h1) \<Rightarrow> res_bind (h_free b h1) (\<lambda>h2. Inr (Some c, h2)))))"

definition h_write :: "nat \<Rightarrow> nat \<Rightarrow> u8 list \<Rightarrow> c_heap \<Rightarrow> c_heap res" where
  "h_write b k new h =
     (case h_blocks h b of
        None \<Rightarrow> Inl Wild_Access
      | Some bs \<Rightarrow>
          if k + length new \<le> length bs
          then Inr (h\<lparr>h_blocks := (h_blocks h)(b \<mapsto> take k bs @ new @ drop (k + length new) bs)\<rparr>)
          else Inl Array_Overflow)"

text \<open>The variables of the loop; \<open>dst\<close> is the caller's pointer, written through as the C code does.\<close>

record 'z unpack =
  un_dst :: "nat option"
  un_size :: u64
  un_src_off :: nat
  un_dst_off :: nat
  un_state :: 'z
  un_heap :: c_heap

text \<open>One round either ends the call with \<open>- 1\<close> (\<open>Return\<close>), asks for another round or leaves the loop. The offset into the
  packed bytes is a number: a decoder of \<open>liblzma\<close> takes no more bytes than it is given, so \<open>src_size - src_offset\<close> does not
  wrap. With one that claimed to have taken more, the subtraction of the C code would wrap to a huge count; the model gives it
  no bytes from then on.\<close>

datatype round = Return | Again | Leave

definition unpack_round :: "(nat \<Rightarrow> bool) \<Rightarrow> 'z lzma \<Rightarrow> u8 list \<Rightarrow> 'z unpack \<Rightarrow> (round \<times> 'z unpack) res" where
  "unpack_round grant lz src u =
     (let n = 2 * un_size u in
      res_bind (h_realloc grant (un_dst u) n (un_heap u)) (\<lambda>(dst, h1).
        let u1 = u\<lparr>un_size := n, un_dst := dst, un_heap := h1\<rparr> in
        case dst of
          None \<Rightarrow> Inr (Return, u1)
        | Some b \<Rightarrow>
            (case dec_code lz (un_state u) (unat n - un_dst_off u) (drop (un_src_off u) src) of
               (result, used, made, status, z) \<Rightarrow>
                 res_bind (h_write b (un_dst_off u) made h1) (\<lambda>h2.
                   if result \<noteq> 0 then res_bind (h_free b h2) (\<lambda>h3. Inr (Return, u1\<lparr>un_state := z, un_heap := h3\<rparr>))
                   else Inr (if status = Not_Finished then Again else Leave,
                     u1\<lparr>un_state := z, un_heap := h2, un_src_off := un_src_off u + used, un_dst_off := un_dst_off u + length made\<rparr>)))))"

fun unpack_loop :: "nat \<Rightarrow> (nat \<Rightarrow> bool) \<Rightarrow> 'z lzma \<Rightarrow> u8 list \<Rightarrow> 'z unpack \<Rightarrow> (round \<times> 'z unpack) res" where
  "unpack_loop 0 grant lz src u = Inl No_Return"
| "unpack_loop (Suc n) grant lz src u =
     res_bind (unpack_round grant lz src u) (\<lambda>(r, u').
       if r = Again then unpack_loop n grant lz src u' else Inr (r, u'))"

text \<open>
  The result, the pointer and the size handed back, and the heap. The buffer doubles with every round, so
  after 64 rounds its size has wrapped to 0 and \<open>realloc\<close> ends the loop: fuel of 66 rounds is enough.
\<close>

definition xdl_lzma_decompress ::
    "(nat \<Rightarrow> bool) \<Rightarrow> 'z lzma option \<Rightarrow> u8 list \<Rightarrow> c_heap \<Rightarrow> (int \<times> nat option \<times> u64 \<times> c_heap) res" where
  "xdl_lzma_decompress grant code src h =
     (case code of
        None \<Rightarrow> Inr (- 1, None, 0, h)
      | Some lz \<Rightarrow>
          res_bind (unpack_loop 66 grant lz src
              \<lparr>un_dst = None, un_size = 2 * word_of_nat (length src), un_src_off = 0, un_dst_off = 0,
               un_state = dec_start lz, un_heap = h\<rparr>) (\<lambda>(r, u).
            if r = Return then Inr (- 1, un_dst u, un_size u, un_heap u)
            else case un_dst u of
              None \<Rightarrow> Inl Null_Deref
            | Some b \<Rightarrow>
                if \<not> dec_finished lz (un_state u)
                then res_bind (h_free b (un_heap u)) (\<lambda>h1. Inr (- 1, Some b, un_size u, h1))
                else let n = word_of_nat (un_dst_off u) in
                  res_bind (h_realloc grant (Some b) n (un_heap u)) (\<lambda>(dst, h1). Inr (0, dst, n, h1))))"


section \<open>Unpacking ends\<close>

text \<open>What the decoder promises: it makes no more bytes than there is room for.\<close>

definition decoder_ok :: "'z lzma \<Rightarrow> bool" where
  "decoder_ok lz \<longleftrightarrow> (\<forall>z room src. case dec_code lz z room src of (result, used, made, status, z') \<Rightarrow> length made \<le> room)"

definition fresh_above :: "c_heap \<Rightarrow> bool" where
  "fresh_above h \<longleftrightarrow> (\<forall>n\<ge>h_next h. h_blocks h n = None)"

text \<open>The invariant of the loop: the buffer is a block of the size on record, filled no further than its end.\<close>

definition buffer_ok :: "'z unpack \<Rightarrow> bool" where
  "buffer_ok u \<longleftrightarrow> fresh_above (un_heap u) \<and> unat (un_size u) < 2 ^ 63 \<and>
     (case un_dst u of
        None \<Rightarrow> un_dst_off u = 0
      | Some b \<Rightarrow> \<exists>bs. h_blocks (un_heap u) b = Some bs \<and> length bs = unat (un_size u) \<and> un_dst_off u \<le> length bs)"

lemma fresh_malloc: "fresh_above h \<Longrightarrow> h_malloc grant bs h = (p, h1) \<Longrightarrow>
    fresh_above h1 \<and> (\<forall>b. p = Some b \<longrightarrow> h_blocks h b = None \<and> h_blocks h1 = (h_blocks h)(b \<mapsto> bs) \<and> length bs < 2 ^ 63) \<and>
    (p = None \<longrightarrow> h_blocks h1 = h_blocks h)"
  by (auto simp: h_malloc_def fresh_above_def Let_def split: if_splits)

lemma length_resize [simp]: "length (resize bs n) = unat n"
  by (simp add: resize_def)

lemma double_size: "unat (s :: u64) < 2 ^ 63 \<Longrightarrow> unat (2 * s) = 2 * unat s"
proof -
  assume "unat s < 2 ^ 63"
  then have "unat (2 :: u64) * unat s < 2 ^ LENGTH(64)" by simp
  then show ?thesis by (subst unat_mult_lem [THEN iffD1]) simp_all
qed

text \<open>A reallocation of the buffer of the loop, when it is granted, gives a block of the new size.\<close>

lemma realloc_buffer:
  assumes "buffer_ok u"
  shows "\<exists>p h1. h_realloc grant (un_dst u) n (un_heap u) = Inr (p, h1) \<and> fresh_above h1 \<and>
    (\<forall>b. p = Some b \<longrightarrow> unat n < 2 ^ 63 \<and> (\<exists>bs. h_blocks h1 b = Some bs \<and> length bs = unat n)) \<and>
    (un_dst u \<noteq> None \<and> n = 0 \<longrightarrow> p = None)"
proof (cases "un_dst u")
  case None
  obtain p h1 where m: "h_malloc grant (resize [] n) (un_heap u) = (p, h1)" by fastforce
  from fresh_malloc [OF _ m] assms show ?thesis using None m by (auto simp: h_realloc_def buffer_ok_def)
next
  case (Some b)
  then obtain bs where bs: "h_blocks (un_heap u) b = Some bs" using assms by (auto simp: buffer_ok_def)
  show ?thesis
  proof (cases "n = 0")
    case True
    then show ?thesis using Some bs assms by (auto simp: h_realloc_def h_free_def buffer_ok_def fresh_above_def)
  next
    case False
    obtain p h1 where m: "h_malloc grant (resize bs n) (un_heap u) = (p, h1)" by fastforce
    have f: "fresh_above h1" "p = None \<longrightarrow> h_blocks h1 = h_blocks (un_heap u)"
      "\<And>c. p = Some c \<Longrightarrow> h_blocks (un_heap u) c = None \<and> h_blocks h1 = (h_blocks (un_heap u))(c \<mapsto> resize bs n) \<and> unat n < 2 ^ 63"
      using fresh_malloc [OF _ m] assms by (auto simp: buffer_ok_def)
    show ?thesis
    proof (cases p)
      case None
      then show ?thesis using Some bs False m f by (simp add: h_realloc_def)
    next
      case (Some c)
      have "c \<noteq> b" using f(3) [OF Some] bs by auto
      moreover have "h_blocks h1 b = Some bs" using f(3) [OF Some] bs \<open>c \<noteq> b\<close> by simp
      ultimately have "h_realloc grant (un_dst u) n (un_heap u) = Inr (Some c, h1\<lparr>h_blocks := (h_blocks h1)(b := None)\<rparr>)"
        using \<open>un_dst u = Some b\<close> bs False m Some by (simp add: h_realloc_def h_free_def)
      moreover have "fresh_above (h1\<lparr>h_blocks := (h_blocks h1)(b := None)\<rparr>)" using f(1) by (simp add: fresh_above_def)
      ultimately show ?thesis using f(3) [OF Some] \<open>c \<noteq> b\<close> False by auto
    qed
  qed
qed

lemma unpack_round_ok:
  assumes "buffer_ok u" and "decoder_ok lz"
  shows "\<exists>r u'. unpack_round grant lz src u = Inr (r, u') \<and>
    (r \<noteq> Return \<longrightarrow> buffer_ok u' \<and> un_dst u' \<noteq> None \<and> unat (un_size u') = 2 * unat (un_size u) \<and>
      (un_dst u = None \<or> unat (un_size u) \<noteq> 0))"
proof -
  let ?n = "2 * un_size u"
  have n: "unat ?n = 2 * unat (un_size u)" using assms(1) by (intro double_size) (simp add: buffer_ok_def)
  from realloc_buffer [OF assms(1), of grant ?n] obtain p h1 where
    r: "h_realloc grant (un_dst u) ?n (un_heap u) = Inr (p, h1)" and f: "fresh_above h1"
    and b: "\<And>b. p = Some b \<Longrightarrow> unat ?n < 2 ^ 63 \<and> (\<exists>bs. h_blocks h1 b = Some bs \<and> length bs = unat ?n)"
    and z: "un_dst u \<noteq> None \<and> ?n = 0 \<longrightarrow> p = None" by blast
  show ?thesis
  proof (cases p)
    case None
    then show ?thesis using r by (simp add: unpack_round_def Let_def)
  next
    case (Some c)
    from b [OF Some] obtain bs where bs: "unat ?n < 2 ^ 63" "h_blocks h1 c = Some bs" "length bs = unat ?n" by auto
    obtain result used made status z' where d: "dec_code lz (un_state u) (unat ?n - un_dst_off u) (drop (un_src_off u) src) =
        (result, used, made, status, z')" by (metis prod_cases5)
    have made: "length made \<le> unat ?n - un_dst_off u"
      using assms(2) d unfolding decoder_ok_def by (metis (mono_tags, lifting) case_prod_conv)
    have off: "un_dst_off u \<le> unat ?n" using assms(1) n by (auto simp: buffer_ok_def split: option.splits)
    define bs2 where "bs2 = take (un_dst_off u) bs @ made @ drop (un_dst_off u + length made) bs"
    define h2 where "h2 = h1\<lparr>h_blocks := (h_blocks h1)(c \<mapsto> bs2)\<rparr>"
    have w: "h_write c (un_dst_off u) made h1 = Inr h2"
      using bs made off by (simp add: h_write_def h2_def bs2_def)
    have l: "length bs2 = unat ?n" using bs made off by (simp add: bs2_def)
    have f2: "fresh_above h2" using f bs(2) by (auto simp: h2_def fresh_above_def)
    have q: "un_dst u = None \<or> unat (un_size u) \<noteq> 0" using z Some by (auto simp: unat_eq_0)
    show ?thesis
    proof (cases "result = 0")
      case True
      have "buffer_ok (u\<lparr>un_size := ?n, un_dst := Some c, un_state := z', un_heap := h2,
          un_src_off := un_src_off u + used, un_dst_off := un_dst_off u + length made\<rparr>)"
        using bs f2 l made off by (simp add: buffer_ok_def h2_def)
      then show ?thesis using r Some d w True n q
        by (simp add: unpack_round_def Let_def)
    next
      case False
      moreover have "h_free c h2 = Inr (h2\<lparr>h_blocks := (h_blocks h2)(c := None)\<rparr>)" by (simp add: h_free_def h2_def)
      ultimately show ?thesis using r Some d w by (simp add: unpack_round_def Let_def)
    qed
  qed
qed

definition rounds_left :: "nat \<Rightarrow> 'z unpack \<Rightarrow> bool" where
  "rounds_left n u \<longleftrightarrow>
     (if unat (un_size u) = 0 then (if un_dst u = None then 2 \<le> n else 1 \<le> n) else 2 ^ 63 \<le> unat (un_size u) * 2 ^ n \<and> 1 \<le> n)"

lemma unpack_loop_ok:
  assumes "buffer_ok u" and "decoder_ok lz" and "rounds_left n u"
  shows "\<exists>r u'. unpack_loop n grant lz src u = Inr (r, u') \<and> (r \<noteq> Return \<longrightarrow> buffer_ok u' \<and> un_dst u' \<noteq> None)"
  using assms(1,3)
proof (induction n arbitrary: u)
  case 0
  then show ?case by (simp add: rounds_left_def split: if_splits)
next
  case (Suc n)
  from unpack_round_ok [OF Suc.prems(1) assms(2), of grant src] obtain r u' where r: "unpack_round grant lz src u = Inr (r, u')"
    and k: "r \<noteq> Return \<longrightarrow> buffer_ok u' \<and> un_dst u' \<noteq> None \<and> unat (un_size u') = 2 * unat (un_size u) \<and>
      (un_dst u = None \<or> unat (un_size u) \<noteq> 0)" by blast
  show ?case
  proof (cases "r = Again")
    case True
    with k have u': "buffer_ok u'" "un_dst u' \<noteq> None" "unat (un_size u') = 2 * unat (un_size u)"
      and q: "un_dst u = None \<or> unat (un_size u) \<noteq> 0" by simp_all
    have lt: "unat (un_size u') < 2 ^ 63" using u'(1) by (simp add: buffer_ok_def)
    have "rounds_left n u'"
    proof (cases "unat (un_size u) = 0")
      case True
      then have "un_dst u = None" using q by simp
      then have "1 \<le> n" using Suc.prems(2) True by (simp add: rounds_left_def)
      then show ?thesis using True u'(2,3) by (auto simp: rounds_left_def)
    next
      case False
      then have "2 ^ 63 \<le> unat (un_size u') * 2 ^ n" using Suc.prems(2) u'(3) by (simp add: rounds_left_def mult.assoc)
      moreover from this have "n \<noteq> 0" using lt by (cases n) simp_all
      ultimately show ?thesis using False u'(3) by (simp add: rounds_left_def)
    qed
    with Suc.IH [OF u'(1)] r True show ?thesis by simp
  next
    case False
    then show ?thesis using r k by simp
  qed
qed

text \<open>C37. Unpacking always returns and never touches memory it does not own: with a decoder that stays within its room,
  packed data of less than \<open>2 ^ 62\<close> bytes and any pattern of refused allocations, the loop ends (at the
  latest when the doubled buffer is too large to be had) and no block is overrun, used after it was freed or freed twice.\<close>

theorem decompress_returns:
  assumes "decoder_ok lz" and "length src < 2 ^ 62" and "fresh_above h"
  shows "\<exists>r dst n h'. xdl_lzma_decompress grant (Some lz) src h = Inr (r, dst, n, h')"
proof -
  define u where "u = \<lparr>un_dst = None, un_size = 2 * word_of_nat (length src), un_src_off = 0, un_dst_off = 0,
      un_state = dec_start lz, un_heap = h\<rparr>"
  have len: "unat (word_of_nat (length src) :: u64) = length src" using assms(2) by (simp add: unat_of_nat)
  then have sz: "unat (un_size u) = 2 * length src" using assms(2) by (simp add: u_def double_size)
  have b: "buffer_ok u" using assms(2,3) sz by (simp add: buffer_ok_def) (simp add: u_def)
  have "rounds_left 66 u" using sz by (cases "length src") (simp_all add: rounds_left_def)
  from unpack_loop_ok [OF b assms(1) this, of grant src] obtain r u' where
    l: "unpack_loop 66 grant lz src u = Inr (r, u')" and k: "r \<noteq> Return \<longrightarrow> buffer_ok u' \<and> un_dst u' \<noteq> None" by blast
  have e: "xdl_lzma_decompress grant (Some lz) src h = (if r = Return then Inr (- 1, un_dst u', un_size u', un_heap u')
      else case un_dst u' of
        None \<Rightarrow> Inl Null_Deref
      | Some b \<Rightarrow>
          if \<not> dec_finished lz (un_state u')
          then res_bind (h_free b (un_heap u')) (\<lambda>h1. Inr (- 1, Some b, un_size u', h1))
          else let n = word_of_nat (un_dst_off u') in
            res_bind (h_realloc grant (Some b) n (un_heap u')) (\<lambda>(dst, h1). Inr (0, dst, n, h1)))"
    using l by (simp add: xdl_lzma_decompress_def u_def)
  show ?thesis
  proof (cases "r = Return")
    case True
    then show ?thesis using e by simp
  next
    case False
    then have bo: "buffer_ok u'" and "un_dst u' \<noteq> None" using k by simp_all
    then obtain d where d: "un_dst u' = Some d" by blast
    then have "\<exists>bs. h_blocks (un_heap u') d = Some bs" using bo by (auto simp: buffer_ok_def)
    then obtain c bs where c: "buffer_ok u'" "un_dst u' = Some c" "h_blocks (un_heap u') c = Some bs" using bo d by blast
    obtain p h1 where "h_realloc grant (Some c) (word_of_nat (un_dst_off u')) (un_heap u') = Inr (p, h1)"
      using realloc_buffer [OF c(1), of grant "word_of_nat (un_dst_off u')"] c(2) by auto
    then show ?thesis using e False c by (simp add: h_free_def)
  qed
qed

text \<open>A decoder that copies its input four bytes at a time.\<close>

definition copy_decoder :: "unit lzma" where
  "copy_decoder = \<lparr>dec_start = (), dec_code = (\<lambda>z room bs. let k = min (min room 4) (length bs) in
     (0, k, take k bs, if length bs \<le> k then Finished_With_Mark else Not_Finished, ())), dec_finished = \<lambda>_. True\<rparr>"

theorem decompress_returns_witness:
  "\<exists>r dst n h'. xdl_lzma_decompress (\<lambda>_. True) (Some copy_decoder) [1, 2, 3, 4, 5, 6] \<lparr>h_blocks = \<lambda>_. None, h_next = 0\<rparr> = Inr (r, dst, n, h')"
  by (rule decompress_returns) (simp_all add: decoder_ok_def copy_decoder_def Let_def fresh_above_def min.coboundedI1)

end
