(* ===== verification/Xdl_Symtab.thy ===== *)
theory Xdl_Symtab
  imports Xdl_Lzma
begin

text \<open>
  The full symbol table of a library (\<open>xDL/xdl.c\<close>): \<open>.symtab\<close> read from the file of the library or from its packed
  \<open>.gnu_debugdata\<close>, and the lookup of a symbol in it. The contents of files are an input.
\<close>

section \<open>Reading sections\<close>

text \<open>The whole range must lie in the file; \<open>data_offset + data_len\<close> may wrap, and then the read falls short.\<close>

definition xdl_read_file_to_heap :: "(nat \<Rightarrow> bool) \<Rightarrow> u8 list \<Rightarrow> u64 \<Rightarrow> u64 \<Rightarrow> c_heap \<Rightarrow> (nat option \<times> c_heap) res" where
  "xdl_read_file_to_heap grant file data_offset data_len h =
     (let file_sz = word_of_nat (length file) in
      if data_len = 0 then Inr (None, h)
      else if file_sz \<le> data_offset then Inr (None, h)
      else if file_sz < data_offset + data_len then Inr (None, h)
      else let bytes = take (unat data_len) (drop (unat data_offset) file)
        in (case h_malloc grant (bytes @ replicate (unat data_len - length bytes) 0) h of
             (None, h1) \<Rightarrow> Inr (None, h1)
           | (Some b, h1) \<Rightarrow>
               if length bytes = unat data_len then Inr (Some b, h1)
               else res_bind (h_free b h1) (\<lambda>h2. Inr (None, h2))))"

definition xdl_read_memory :: "nat \<Rightarrow> u64 \<Rightarrow> u64 \<Rightarrow> u64 \<Rightarrow> (nat \<times> nat) option" where
  "xdl_read_memory b mem_sz data_offset data_len =
     (if data_len = 0 then None
      else if mem_sz \<le> data_offset then None
      else if mem_sz < data_offset + data_len then None
      else Some (b, unat data_offset))"

text \<open>The fields of \<open>Elf64_Shdr\<close> (64 bytes), of the ELF header, and a string on the heap compared with a name.\<close>

definition sh_name :: "view \<Rightarrow> u32 res" where "sh_name v = field v 0 4"
definition sh_type :: "view \<Rightarrow> u32 res" where "sh_type v = field v 4 4"
definition sh_offset :: "view \<Rightarrow> u64 res" where "sh_offset v = field v 24 8"
definition sh_size :: "view \<Rightarrow> u64 res" where "sh_size v = field v 32 8"
definition sh_link :: "view \<Rightarrow> u32 res" where "sh_link v = field v 40 4"
definition sh_entsize :: "view \<Rightarrow> u64 res" where "sh_entsize v = field v 56 8"

definition e_shoff :: "view \<Rightarrow> u64 res" where "e_shoff v = field v 40 8"
definition e_shentsize :: "view \<Rightarrow> u16 res" where "e_shentsize v = field v 58 2"
definition e_shnum :: "view \<Rightarrow> u16 res" where "e_shnum v = field v 60 2"
definition e_shstrndx :: "view \<Rightarrow> u16 res" where "e_shstrndx v = field v 62 2"

fun strcmp_view :: "view \<Rightarrow> nat \<Rightarrow> u8 list \<Rightarrow> bool res" where
  "strcmp_view v k [] = res_bind (v k 1) (\<lambda>c. Inr (c = [0]))"
| "strcmp_view v k (b # bs) = res_bind (v k 1) (\<lambda>c. if c = [b] then strcmp_view v (Suc k) bs else Inr False)"

definition SHT_PROGBITS :: u32 where "SHT_PROGBITS = 1"
definition SHT_SYMTAB :: u32 where "SHT_SYMTAB = 2"
definition SHT_STRTAB :: u32 where "SHT_STRTAB = 3"

section \<open>Sections of a table\<close>

text \<open>The header of section \<open>i\<close> of the table a pointer leads to, and of the first section of it from \<open>i\<close> on that
  serves as the symbol table together with its string table. \<open>get\<close> fetches the contents of a section.\<close>

definition shdr_view :: "c_heap \<Rightarrow> nat \<times> nat \<Rightarrow> nat \<Rightarrow> view" where
  "shdr_view h shdrs i = heap_view h (fst shdrs, snd shdrs + 64 * i)"

definition is_section :: "c_heap \<Rightarrow> nat \<times> nat \<Rightarrow> nat \<times> nat \<Rightarrow> nat \<Rightarrow> u32 \<Rightarrow> string \<Rightarrow> bool res" where
  "is_section h shdrs shstrtab i ty nm =
     res_bind (sh_type (shdr_view h shdrs i)) (\<lambda>t.
       if t \<noteq> ty then Inr False
       else res_bind (sh_name (shdr_view h shdrs i)) (\<lambda>n.
         strcmp_view (heap_view h shstrtab) (unat n) (ascii nm)))"

text \<open>The string table that goes with a symbol table.\<close>

definition strtab_of :: "c_heap \<Rightarrow> nat \<times> nat \<Rightarrow> u16 \<Rightarrow> nat \<Rightarrow> nat option res" where
  "strtab_of h shdrs shnum i =
     res_bind (sh_link (shdr_view h shdrs i)) (\<lambda>link.
       if unat shnum \<le> unat link then Inr None
       else res_bind (sh_type (shdr_view h shdrs (unat link))) (\<lambda>t.
         Inr (if t \<noteq> SHT_STRTAB then None else Some (unat link))))"

text \<open>What is kept of a symbol table: its place, the number of its entries, and the place and size of its strings.\<close>

definition set_symtab :: "c_heap \<Rightarrow> nat \<times> nat \<Rightarrow> nat \<Rightarrow> nat \<Rightarrow> nat \<times> nat \<Rightarrow> nat \<times> nat \<Rightarrow> xdl_t \<Rightarrow> xdl_t res" where
  "set_symtab h shdrs i j sy st self =
     res_bind (sh_size (shdr_view h shdrs i)) (\<lambda>sz.
     res_bind (sh_entsize (shdr_view h shdrs i)) (\<lambda>ent.
     if ent = 0 then Inl Div_Zero
     else res_bind (sh_size (shdr_view h shdrs j)) (\<lambda>strsz.
       Inr (self\<lparr>x_symtab := Some sy, x_symtab_cnt := sz div ent, x_strtab := Some st, x_strtab_sz := strsz\<rparr>))))"

section \<open>Packed debug data\<close>

definition read_memory_by_section :: "c_heap \<Rightarrow> nat \<Rightarrow> u64 \<Rightarrow> nat \<times> nat \<Rightarrow> nat \<Rightarrow> (nat \<times> nat) option res" where
  "read_memory_by_section h b sz shdrs i =
     res_bind (sh_offset (shdr_view h shdrs i)) (\<lambda>off. res_bind (sh_size (shdr_view h shdrs i)) (\<lambda>len.
       Inr (xdl_read_memory b sz off len)))"

fun debug_loop :: "c_heap \<Rightarrow> nat \<Rightarrow> u64 \<Rightarrow> nat \<times> nat \<Rightarrow> nat \<times> nat \<Rightarrow> u16 \<Rightarrow> nat list \<Rightarrow> xdl_t \<Rightarrow> (bool \<times> xdl_t) res" where
  "debug_loop h b sz shdrs shstrtab shnum [] self = Inr (False, self)"
| "debug_loop h b sz shdrs shstrtab shnum (i # is) self =
     res_bind (is_section h shdrs shstrtab i SHT_SYMTAB ''.symtab'') (\<lambda>hit.
       if \<not> hit then debug_loop h b sz shdrs shstrtab shnum is self
       else res_bind (strtab_of h shdrs shnum i) (\<lambda>link.
         case link of
           None \<Rightarrow> debug_loop h b sz shdrs shstrtab shnum is self
         | Some j \<Rightarrow>
             res_bind (read_memory_by_section h b sz shdrs i) (\<lambda>sy.
               case sy of
                 None \<Rightarrow> debug_loop h b sz shdrs shstrtab shnum is self
               | Some sy \<Rightarrow>
                   res_bind (read_memory_by_section h b sz shdrs j) (\<lambda>st.
                     case st of
                       None \<Rightarrow> debug_loop h b sz shdrs shstrtab shnum is self
                     | Some st \<Rightarrow> res_bind (set_symtab h shdrs i j sy st self) (\<lambda>s. Inr (True, s))))))"

text \<open>The checks of the unpacked ELF file, up to the search of its sections. The flag tells success.\<close>

definition debug_sections :: "c_heap \<Rightarrow> nat \<Rightarrow> u64 \<Rightarrow> xdl_t \<Rightarrow> (bool \<times> xdl_t) res" where
  "debug_sections h b sz self =
     (let eh = heap_view h (b, 0) in
      res_bind (e_shnum eh) (\<lambda>shnum. if shnum = 0 then Inr (False, self) else
      res_bind (e_shentsize eh) (\<lambda>shentsize. if shentsize \<noteq> 64 then Inr (False, self) else
      res_bind (e_shoff eh) (\<lambda>shoff.
        case xdl_read_memory b sz shoff (ucast shentsize * ucast shnum) of
          None \<Rightarrow> Inr (False, self)
        | Some shdrs \<Rightarrow>
            res_bind (e_shstrndx eh) (\<lambda>ndx.
              if ndx = 0 \<or> shnum \<le> ndx then Inr (False, self)
              else res_bind (read_memory_by_section h b sz shdrs (unat ndx)) (\<lambda>shstrtab.
                case shstrtab of
                  None \<Rightarrow> Inr (False, self)
                | Some shstrtab \<Rightarrow> debug_loop h b sz shdrs shstrtab shnum [0..<unat shnum] self))))))"

definition xdl_symtab_load_from_debugdata ::
    "(nat \<Rightarrow> bool) \<Rightarrow> 'z lzma option \<Rightarrow> u8 list \<Rightarrow> nat \<times> nat \<Rightarrow> nat \<Rightarrow> xdl_t \<Rightarrow> c_heap \<Rightarrow> (bool \<times> xdl_t \<times> c_heap) res" where
  "xdl_symtab_load_from_debugdata grant code file shdrs i self h =
     res_bind (sh_offset (shdr_view h shdrs i)) (\<lambda>off. res_bind (sh_size (shdr_view h shdrs i)) (\<lambda>len.
     res_bind (xdl_read_file_to_heap grant file off len h) (\<lambda>(zip, h1).
       case zip of
         None \<Rightarrow> Inr (False, self, h1)
       | Some z \<Rightarrow>
           (case h_blocks h1 z of
              None \<Rightarrow> Inl Wild_Access
            | Some packed \<Rightarrow>
                res_bind (xdl_lzma_decompress grant code packed h1) (\<lambda>(r, dst, sz, h2).
                  let self1 = self\<lparr>x_debugdata := dst\<rparr> in
                  res_bind (if r \<noteq> 0 then Inr (False, self1)
                    else case dst of None \<Rightarrow> Inl Null_Deref | Some b \<Rightarrow> debug_sections h2 b sz self1) (\<lambda>(ok, self2).
                  res_bind (h_free z h2) (\<lambda>h3.
                    if \<not> ok \<and> x_debugdata self2 \<noteq> None
                    then res_bind (h_free (the (x_debugdata self2)) h3) (\<lambda>h4. Inr (False, self2\<lparr>x_debugdata := None\<rparr>, h4))
                    else Inr (ok, self2, h3))))))))"

section \<open>Loading the table from the file\<close>

definition read_file_by_section ::
    "(nat \<Rightarrow> bool) \<Rightarrow> u8 list \<Rightarrow> nat \<times> nat \<Rightarrow> nat \<Rightarrow> c_heap \<Rightarrow> (nat option \<times> c_heap) res" where
  "read_file_by_section grant file shdrs i h =
     res_bind (sh_offset (shdr_view h shdrs i)) (\<lambda>off. res_bind (sh_size (shdr_view h shdrs i)) (\<lambda>len.
       xdl_read_file_to_heap grant file off len h))"

text \<open>One section of the file: \<open>Some\<close> the handle when the table is loaded.\<close>

definition symtab_section :: "(nat \<Rightarrow> bool) \<Rightarrow> 'z lzma option \<Rightarrow> u8 list \<Rightarrow> nat \<times> nat \<Rightarrow> nat \<times> nat \<Rightarrow> u16 \<Rightarrow> nat \<Rightarrow>
    xdl_t \<Rightarrow> c_heap \<Rightarrow> (bool \<times> xdl_t \<times> c_heap) res" where
  "symtab_section grant code file shdrs shstrtab shnum i self h =
     res_bind (is_section h shdrs shstrtab i SHT_SYMTAB ''.symtab'') (\<lambda>hit.
       if hit then
         res_bind (strtab_of h shdrs shnum i) (\<lambda>link.
           case link of
             None \<Rightarrow> Inr (False, self, h)
           | Some j \<Rightarrow>
               res_bind (read_file_by_section grant file shdrs i h) (\<lambda>(sy, h1).
                 case sy of
                   None \<Rightarrow> Inr (False, self, h1)
                 | Some sy \<Rightarrow>
                     res_bind (read_file_by_section grant file shdrs j h1) (\<lambda>(st, h2).
                       case st of
                         None \<Rightarrow> res_bind (h_free sy h2) (\<lambda>h3. Inr (False, self, h3))
                       | Some st \<Rightarrow> res_bind (set_symtab h2 shdrs i j (sy, 0) (st, 0) self) (\<lambda>s. Inr (True, s, h2)))))
       else
         res_bind (is_section h shdrs shstrtab i SHT_PROGBITS ''.gnu_debugdata'') (\<lambda>dbg.
           if dbg then xdl_symtab_load_from_debugdata grant code file shdrs i self h else Inr (False, self, h)))"

fun symtab_loop :: "(nat \<Rightarrow> bool) \<Rightarrow> 'z lzma option \<Rightarrow> u8 list \<Rightarrow> nat \<times> nat \<Rightarrow> nat \<times> nat \<Rightarrow> u16 \<Rightarrow> nat list \<Rightarrow>
    xdl_t \<Rightarrow> c_heap \<Rightarrow> (bool \<times> xdl_t \<times> c_heap) res" where
  "symtab_loop grant code file shdrs shstrtab shnum [] self h = Inr (False, self, h)"
| "symtab_loop grant code file shdrs shstrtab shnum (i # is) self h =
     res_bind (symtab_section grant code file shdrs shstrtab shnum i self h) (\<lambda>(ok, self', h').
       if ok then Inr (True, self', h') else symtab_loop grant code file shdrs shstrtab shnum is self' h')"

definition free_opt :: "nat option \<Rightarrow> c_heap \<Rightarrow> c_heap res" where
  "free_opt b h = (case b of None \<Rightarrow> Inr h | Some b \<Rightarrow> h_free b h)"

definition xdl_symtab_load ::
    "(nat \<Rightarrow> bool) \<Rightarrow> 'z lzma option \<Rightarrow> (string \<Rightarrow> u8 list option) \<Rightarrow> process \<Rightarrow> xdl_t \<Rightarrow> c_heap \<Rightarrow> (int \<times> xdl_t \<times> c_heap) res" where
  "xdl_symtab_load grant code files p self h =
     res_bind (min_load_vaddr p (x_phdr self) (unat (x_phnum self)) UINTPTR_MAX) (\<lambda>vaddr_min.
       if vaddr_min = UINTPTR_MAX then Inr (- 1, self, h)
       else let self1 = self\<lparr>x_base := load_bias self + vaddr_min\<rparr>; eh = mem_view p (x_base self1) in
         case files (snd (x_pathname self)) of
           None \<Rightarrow> Inr (- 1, self1, h)
         | Some file \<Rightarrow>
             res_bind (e_shnum eh) (\<lambda>shnum. if shnum = 0 then Inr (- 1, self1, h) else
             res_bind (e_shentsize eh) (\<lambda>shentsize. if shentsize \<noteq> 64 then Inr (- 1, self1, h) else
             res_bind (e_shoff eh) (\<lambda>shoff.
             res_bind (xdl_read_file_to_heap grant file shoff (ucast shentsize * ucast shnum) h) (\<lambda>(shdrs, h1).
               case shdrs of
                 None \<Rightarrow> Inr (- 1, self1, h1)
               | Some sh \<Rightarrow>
                   res_bind (e_shstrndx eh) (\<lambda>ndx.
                     if ndx = 0 \<or> shnum \<le> ndx then res_bind (h_free sh h1) (\<lambda>h2. Inr (- 1, self1, h2))
                     else res_bind (read_file_by_section grant file (sh, 0) (unat ndx) h1) (\<lambda>(str, h2).
                       case str of
                         None \<Rightarrow> res_bind (h_free sh h2) (\<lambda>h3. Inr (- 1, self1, h3))
                       | Some st \<Rightarrow>
                           res_bind (symtab_loop grant code file (sh, 0) (st, 0) shnum [0..<unat shnum] self1 h2) (\<lambda>(ok, self2, h3).
                           res_bind (h_free sh h3) (\<lambda>h4. res_bind (h_free st h4) (\<lambda>h5.
                             Inr (if ok then 0 else - 1, self2, h5)))))))))))"

section \<open>Symbols by name\<close>

definition xdl_symtab_is_export :: "u16 \<Rightarrow> bool" where
  "xdl_symtab_is_export shndx \<longleftrightarrow> shndx \<noteq> 0 \<and> \<not> 0xFF00 \<le> shndx"

text \<open>\<open>strncmp\<close> of a string on the heap with a name, \<open>n\<close> bytes at most.\<close>

fun strncmp_view :: "view \<Rightarrow> nat \<Rightarrow> u8 list \<Rightarrow> nat \<Rightarrow> bool res" where
  "strncmp_view v k bs 0 = Inr True"
| "strncmp_view v k [] (Suc n) = res_bind (v k 1) (\<lambda>c. Inr (c = [0]))"
| "strncmp_view v k (b # bs) (Suc n) = res_bind (v k 1) (\<lambda>c. if c = [b] then strncmp_view v (Suc k) bs n else Inr False)"

definition sym_view :: "c_heap \<Rightarrow> nat \<times> nat \<Rightarrow> nat \<Rightarrow> view" where
  "sym_view h sy i = heap_view h (fst sy, snd sy + 24 * i)"

definition load_symtab_once ::
    "(nat \<Rightarrow> bool) \<Rightarrow> 'z lzma option \<Rightarrow> (string \<Rightarrow> u8 list option) \<Rightarrow> process \<Rightarrow> xdl_t \<Rightarrow> c_heap \<Rightarrow> (int \<times> xdl_t \<times> c_heap) res" where
  "load_symtab_once grant code files p self h =
     (if symtab_try_load self then Inr (0, self, h)
      else xdl_symtab_load grant code files p (self\<lparr>symtab_try_load := True\<rparr>) h)"

fun dsym_loop :: "c_heap \<Rightarrow> nat \<times> nat \<Rightarrow> (nat \<times> nat) option \<Rightarrow> u64 \<Rightarrow> u8 list \<Rightarrow> nat list \<Rightarrow> nat option res" where
  "dsym_loop h sy st strtab_sz nm [] = Inr None"
| "dsym_loop h sy st strtab_sz nm (i # is) =
     res_bind (st_shndx (sym_view h sy i)) (\<lambda>shndx.
       if \<not> xdl_symtab_is_export shndx then dsym_loop h sy st strtab_sz nm is
       else res_bind (st_name (sym_view h sy i)) (\<lambda>n.
         case st of
           None \<Rightarrow> Inl Null_Deref
         | Some st \<Rightarrow>
             res_bind (strncmp_view (heap_view h st) (unat n) nm (unat (strtab_sz - ucast n))) (\<lambda>eq.
               if eq then Inr (Some i) else dsym_loop h sy (Some st) strtab_sz nm is)))"


section \<open>Properties of the full symbol table\<close>

text \<open>C38. A library with broken debug data crashes the process: when the decoder rejects the packed section at its
  first call, memory being granted, \<open>xdl_lzma_decompress\<close> frees the buffer but leaves the pointer to it behind,
  and \<open>xdl_symtab_load_from_debugdata\<close> frees it a second time.\<close>

theorem debugdata_double_free:
  assumes "sh_offset (shdr_view h shdrs i) = Inr off" and "sh_size (shdr_view h shdrs i) = Inr len"
    and "0 < len" and "unat off + unat len \<le> length elf_file" and "length elf_file < 2 ^ 61" and "\<And>n. grant n"
    and "dec_code lz (dec_start lz) (4 * unat len) (take (unat len) (drop (unat off) elf_file)) = (result, used, made, status, z)"
    and "result \<noteq> 0" and "length made \<le> 4 * unat len" and "x_debugdata self = None"
  shows "xdl_symtab_load_from_debugdata grant (Some lz) elf_file shdrs i self h = Inl Double_Free"
proof -
  define packed where "packed = take (unat len) (drop (unat off) elf_file)"
  define z0 where "z0 = h_next h"
  define h1 where "h1 = h\<lparr>h_next := Suc z0, h_blocks := (h_blocks h)(z0 \<mapsto> packed)\<rparr>"
  have lp: "length packed = unat len" using assms(4) by (simp add: packed_def)
  have fs: "unat (word_of_nat (length elf_file) :: u64) = length elf_file" using assms(5) by (simp add: unat_of_nat)
  have sum: "unat (off + len) = unat off + unat len" using assms(4,5) by (subst unat_add_lem [THEN iffD1]) simp_all
  have pos: "0 < unat len" using assms(3) by (simp add: word_less_nat_alt)
  have small: "unat len < 2 ^ 61" using assms(4,5) by simp
  have "len \<noteq> 0" "\<not> word_of_nat (length elf_file) \<le> off" "\<not> word_of_nat (length elf_file) < off + len"
    using assms(3,4) fs sum pos by (auto simp: word_le_nat_alt word_less_nat_alt)
  then have rd: "xdl_read_file_to_heap grant elf_file off len h = Inr (Some z0, h1)"
    using lp small assms(6) by (simp add: xdl_read_file_to_heap_def Let_def h_malloc_def z0_def h1_def flip: packed_def)
  define n :: u64 where "n = 2 * (2 * word_of_nat (unat len))"
  have n: "unat n = 4 * unat len"
    using small double_size [of "word_of_nat (unat len)"] double_size [of "2 * word_of_nat (unat len)"] by (simp add: n_def)
  define c where "c = Suc z0"
  define h2 where "h2 = h1\<lparr>h_next := Suc c, h_blocks := (h_blocks h1)(c \<mapsto> resize [] n)\<rparr>"
  have re: "h_realloc grant None n h1 = Inr (Some c, h2)"
    using n small assms(6) by (simp add: h_realloc_def h_malloc_def Let_def h1_def c_def h2_def)
  define h3 where "h3 = h2\<lparr>h_blocks := (h_blocks h2)(c \<mapsto> made @ drop (length made) (resize [] n))\<rparr>"
  have wr: "h_write c 0 made h2 = Inr h3" using n assms(9) by (simp add: h_write_def h2_def h3_def)
  define h4 where "h4 = h3\<lparr>h_blocks := (h_blocks h3)(c := None)\<rparr>"
  have fr: "h_free c h3 = Inr h4" by (simp add: h_free_def h3_def h4_def)
  have dc: "dec_code lz (dec_start lz) (unat n) packed = (result, used, made, status, z)"
    using assms(7) n by (simp add: packed_def)
  have lz: "xdl_lzma_decompress grant (Some lz) packed h1 = Inr (- 1, Some c, n, h4)"
  proof -
    have "unpack_round grant lz packed \<lparr>un_dst = None, un_size = 2 * word_of_nat (length packed), un_src_off = 0,
        un_dst_off = 0, un_state = dec_start lz, un_heap = h1\<rparr> =
      Inr (Return, \<lparr>un_dst = Some c, un_size = n, un_src_off = 0, un_dst_off = 0, un_state = z, un_heap = h4\<rparr>)"
      using re wr fr dc assms(8) lp by (simp add: unpack_round_def Let_def n_def)
    then show ?thesis
      by (simp add: xdl_lzma_decompress_def numeral_eq_Suc)
  qed
  have zc: "h_blocks h1 z0 = Some packed" "z0 \<noteq> c" by (simp_all add: h1_def c_def)
  then have "h_free z0 h4 = Inr (h4\<lparr>h_blocks := (h_blocks h4)(z0 := None)\<rparr>)"
    by (simp add: h_free_def h4_def h3_def h2_def)
  moreover have "h_free c (h4\<lparr>h_blocks := (h_blocks h4)(z0 := None)\<rparr>) = Inl Double_Free"
    using zc by (simp add: h_free_def h4_def)
  ultimately show ?thesis
    using assms(1,2) rd zc(1) lz by (simp add: xdl_symtab_load_from_debugdata_def Let_def)
qed

text \<open>A section header on the heap, a decoder that rejects everything.\<close>

definition bad_decoder :: "unit lzma" where
  "bad_decoder = \<lparr>dec_start = (), dec_code = (\<lambda>z room bs. (1, 0, [], Not_Specified, ())), dec_finished = \<lambda>_. False\<rparr>"

definition bad_shdr :: "u8 list" where
  "bad_shdr = replicate 32 0 @ le64 4 @ replicate 24 0"

theorem debugdata_double_free_witness:
  "xdl_symtab_load_from_debugdata (\<lambda>_. True) (Some bad_decoder) [1, 2, 3, 4] (0, 0) 0 xdl_self
     \<lparr>h_blocks = [0 \<mapsto> bad_shdr], h_next = 1\<rparr> = Inl Double_Free"
proof -
  have l: "take 8 (drop 24 bad_shdr) = [0, 0, 0, 0, 0, 0, 0, 0]" "take 8 (drop 32 bad_shdr) = [4, 0, 0, 0, 0, 0, 0, 0]"
    "length bad_shdr = 64" by code_simp+
  have w: "(le_word [0, 0, 0, 0, 0, 0, 0, 0] :: u64) = 0" "(le_word [4, 0, 0, 0, 0, 0, 0, 0] :: u64) = 4" by code_simp+
  have "sh_offset (shdr_view \<lparr>h_blocks = [0 \<mapsto> bad_shdr], h_next = 1\<rparr> (0, 0) 0) = Inr 0"
    "sh_size (shdr_view \<lparr>h_blocks = [0 \<mapsto> bad_shdr], h_next = 1\<rparr> (0, 0) 0) = Inr 4"
    by (simp_all add: sh_offset_def sh_size_def field_def shdr_view_def heap_view_def l w)
  then show ?thesis
    by (rule debugdata_double_free [where result = 1 and used = 0 and made = "[]" and status = Not_Specified and z = "()"])
      (simp_all add: bad_decoder_def xdl_self_def)
qed

end
