(* ===== verification/Xdl_Addr.thy ===== *)
theory Xdl_Addr
  imports Xdl_Symtab
begin

text \<open>
  From an address to its library and symbol (\<open>xDL/xdl.c\<close>), with the cache of handles the report writer keeps; and
  the lookup of a name in the full symbol table.
\<close>

section \<open>Symbols of the full table by name\<close>

definition xdl_dsym :: "(nat \<Rightarrow> bool) \<Rightarrow> 'z lzma option \<Rightarrow> (string \<Rightarrow> u8 list option) \<Rightarrow> process \<Rightarrow> xdl_t \<Rightarrow> u8 list \<Rightarrow> c_heap \<Rightarrow>
    (u64 \<times> xdl_t \<times> c_heap) res" where
  "xdl_dsym grant code files p self nm h =
     res_bind (load_symtab_once grant code files p self h) (\<lambda>(r, s, h1).
       if r \<noteq> 0 then Inr (0, s, h1)
       else case x_symtab s of
         None \<Rightarrow> Inr (0, s, h1)
       | Some sy \<Rightarrow>
           res_bind (dsym_loop h1 sy (x_strtab s) (x_strtab_sz s) nm [0..<unat (x_symtab_cnt s)]) (\<lambda>hit.
             case hit of
               None \<Rightarrow> Inr (0, s, h1)
             | Some i \<Rightarrow> res_bind (st_value (sym_view h1 sy i)) (\<lambda>v. Inr (load_bias s + v, s, h1))))"

section \<open>Libraries by address\<close>

fun elf_match_loop :: "process \<Rightarrow> u64 \<Rightarrow> nat \<Rightarrow> u64 \<Rightarrow> bool res" where
  "elf_match_loop p ph 0 vaddr = Inr False"
| "elf_match_loop p ph (Suc n) vaddr =
     res_bind (load32 p ph) (\<lambda>p_type.
       if p_type \<noteq> PT_LOAD then elf_match_loop p (ph + 56) n vaddr
       else res_bind (load64 p (ph + 16)) (\<lambda>p_vaddr.
         if \<not> p_vaddr \<le> vaddr then elf_match_loop p (ph + 56) n vaddr
         else res_bind (load64 p (ph + 40)) (\<lambda>p_memsz.
           if vaddr < p_vaddr + p_memsz then Inr True else elf_match_loop p (ph + 56) n vaddr)))"

definition xdl_elf_is_match :: "process \<Rightarrow> u64 \<Rightarrow> u64 \<Rightarrow> u16 \<Rightarrow> u64 \<Rightarrow> bool res" where
  "xdl_elf_is_match p bias ph phnum addr =
     (if addr < bias then Inr False else elf_match_loop p ph (unat phnum) (addr - bias))"

definition xdl_open_by_addr_iterate_cb :: "(nat \<Rightarrow> bool) \<Rightarrow> u64 \<Rightarrow> open_state callback" where
  "xdl_open_by_addr_iterate_cb grant addr info s =
     (case xdl_elf_is_match (op_mem s) (dlpi_addr info) (dlpi_phdr info) (dlpi_phnum info) addr of
        Inl e \<Rightarrow> Some (Inl e, s)
      | Inr eq \<Rightarrow> if eq then found grant info s else Some (Inr 0, s))"

definition xdl_open_by_addr :: "(nat \<Rightarrow> bool) \<Rightarrow> xh_os \<Rightarrow> dl_env \<Rightarrow> process \<Rightarrow> u64 \<Rightarrow> c_heap \<Rightarrow>
    (xdl_t option \<times> c_heap \<times> bool) res option" where
  "xdl_open_by_addr grant os dl p addr h =
     (if addr = 0 then Some (Inr (None, h, False))
      else case xdl_iterate_phdr os dl op_mem (xdl_open_by_addr_iterate_cb grant addr) (XDL_FULL_PATHNAME OR XDL_WITH_LINKER)
             \<lparr>op_mem = p, op_heap = h, op_self = None\<rparr> of
        None \<Rightarrow> None
      | Some (Inl e, s, opened) \<Rightarrow> Some (Inl e)
      | Some (Inr r, s, opened) \<Rightarrow> Some (Inr (op_self s, op_heap s, opened)))"

section \<open>Symbols by address\<close>

definition STT_TLS :: u8 where "STT_TLS = 6"

text \<open>The statements that should turn undefined symbols away are expressions without effect.\<close>

definition xdl_sym_is_match :: "view \<Rightarrow> u64 \<Rightarrow> bool \<Rightarrow> bool res" where
  "xdl_sym_is_match symb offset is_symtab =
     res_bind (st_shndx symb) (\<lambda>shndx.
     res_bind (st_info symb) (\<lambda>info.
       if info AND 0xF = STT_TLS then Inr False
       else res_bind (st_value symb) (\<lambda>v.
         if \<not> v \<le> offset then Inr False
         else res_bind (st_size symb) (\<lambda>sz. Inr (offset < v + sz)))))"

text \<open>A bucket of the GNU table: symbols from \<open>n\<close> on, up to the one whose hash has the lowest bit set. \<open>syms\<close> is the
  symbol table and \<open>chains_all\<close> where the hash of symbol 0 would be.\<close>

partial_function (option) bucket_by_addr :: "process \<Rightarrow> u64 \<Rightarrow> u64 \<Rightarrow> u64 \<Rightarrow> u32 \<Rightarrow> u32 option res option" where
  "bucket_by_addr p syms chains_all offset n =
     (case xdl_sym_is_match (mem_view p (syms + ucast n * 24)) offset False of
        Inl e \<Rightarrow> Some (Inl e)
      | Inr eq \<Rightarrow>
          if eq then Some (Inr (Some n))
          else (case load32 p (chains_all + ucast n * 4) of
             Inl e \<Rightarrow> Some (Inl e)
           | Inr w \<Rightarrow> if w AND 1 = 0 then bucket_by_addr p syms chains_all offset (n + 1) else Some (Inr None)))"

fun gnu_by_addr :: "process \<Rightarrow> xdl_t \<Rightarrow> u64 \<Rightarrow> nat list \<Rightarrow> u32 option res option" where
  "gnu_by_addr p self offset [] = Some (Inr None)"
| "gnu_by_addr p self offset (i # is) =
     (case load32 p (gnu_buckets self + word_of_nat i * 4) of
        Inl e \<Rightarrow> Some (Inl e)
      | Inr n \<Rightarrow>
          if n < gnu_symoffset self then gnu_by_addr p self offset is
          else (case bucket_by_addr p (dynsym self) (gnu_chains self - ucast (gnu_symoffset self) * 4) offset n of
             None \<Rightarrow> None
           | Some (Inr None) \<Rightarrow> gnu_by_addr p self offset is
           | r \<Rightarrow> r))"

fun sysv_by_addr :: "process \<Rightarrow> xdl_t \<Rightarrow> u64 \<Rightarrow> nat list \<Rightarrow> u32 option res" where
  "sysv_by_addr p self offset [] = Inr None"
| "sysv_by_addr p self offset (i # is) =
     res_bind (xdl_sym_is_match (mem_view p (dynsym_at self (word_of_nat i))) offset False) (\<lambda>eq.
       if eq then Inr (Some (word_of_nat i)) else sysv_by_addr p self offset is)"

definition search_by_addr :: "process \<Rightarrow> xdl_t \<Rightarrow> u64 \<Rightarrow> u32 option res option" where
  "search_by_addr p s offset =
     (if 0 < gnu_buckets_cnt s then gnu_by_addr p s offset [0..<unat (gnu_buckets_cnt s)]
      else if 0 < sysv_chains_cnt s then Some (sysv_by_addr p s offset [0..<unat (sysv_chains_cnt s)])
      else Some (Inr None))"

definition xdl_sym_by_addr :: "process \<Rightarrow> xdl_t \<Rightarrow> u64 \<Rightarrow> (u32 option \<times> xdl_t) res option" where
  "xdl_sym_by_addr p self addr =
     (case load_dynsym_once p self of
        None \<Rightarrow> None
      | Some (Inl e) \<Rightarrow> Some (Inl e)
      | Some (Inr (r, s)) \<Rightarrow>
          if r \<noteq> 0 then Some (Inr (None, s))
          else if dynsym s = 0 then Some (Inr (None, s))
          else (case search_by_addr p s (addr - load_bias s) of
             None \<Rightarrow> None | Some (Inl e) \<Rightarrow> Some (Inl e) | Some (Inr hit) \<Rightarrow> Some (Inr (hit, s))))"

fun dsym_by_addr_loop :: "c_heap \<Rightarrow> nat \<times> nat \<Rightarrow> u64 \<Rightarrow> nat list \<Rightarrow> nat option res" where
  "dsym_by_addr_loop h sy offset [] = Inr None"
| "dsym_by_addr_loop h sy offset (i # is) =
     res_bind (xdl_sym_is_match (sym_view h sy i) offset True) (\<lambda>eq.
       if eq then Inr (Some i) else dsym_by_addr_loop h sy offset is)"

definition xdl_dsym_by_addr :: "(nat \<Rightarrow> bool) \<Rightarrow> 'z lzma option \<Rightarrow> (string \<Rightarrow> u8 list option) \<Rightarrow> process \<Rightarrow> xdl_t \<Rightarrow> u64 \<Rightarrow> c_heap \<Rightarrow>
    ((nat \<times> nat \<times> nat) option \<times> xdl_t \<times> c_heap) res" where
  "xdl_dsym_by_addr grant code files p self addr h =
     res_bind (load_symtab_once grant code files p self h) (\<lambda>(r, s, h1).
       if r \<noteq> 0 then Inr (None, s, h1)
       else case x_symtab s of
         None \<Rightarrow> Inr (None, s, h1)
       | Some sy \<Rightarrow>
           res_bind (dsym_by_addr_loop h1 sy (addr - load_bias s) [0..<unat (x_symtab_cnt s)]) (\<lambda>hit.
             Inr (map_option (\<lambda>i. (fst sy, snd sy, i)) hit, s, h1)))"

section \<open>\<open>xdl_addr\<close>\<close>

text \<open>Where the name of a symbol is: in memory, or on the heap.\<close>

datatype name_at = No_Name | Name_In_Memory u64 | Name_On_Heap "nat \<times> nat"

record addr_info =
  ai_fname :: string
  ai_fbase :: u64
  ai_sname :: name_at
  ai_saddr :: u64

definition symbol_info :: "(nat \<Rightarrow> bool) \<Rightarrow> 'z lzma option \<Rightarrow> (string \<Rightarrow> u8 list option) \<Rightarrow> process \<Rightarrow> xdl_t \<Rightarrow> u64 \<Rightarrow> c_heap \<Rightarrow>
    (addr_info \<times> xdl_t \<times> c_heap) res option" where
  "symbol_info grant code files p self addr h =
     (let info = \<lparr>ai_fname = snd (x_pathname self), ai_fbase = load_bias self, ai_sname = No_Name, ai_saddr = 0\<rparr> in
      case xdl_sym_by_addr p self addr of
        None \<Rightarrow> None
      | Some (Inl e) \<Rightarrow> Some (Inl e)
      | Some (Inr (Some i, s)) \<Rightarrow>
          let sym = mem_view p (dynsym_at s i) in
          Some (res_bind (st_name sym) (\<lambda>n. res_bind (st_value sym) (\<lambda>v.
            Inr (info\<lparr>ai_sname := Name_In_Memory (dynstr s + ucast n), ai_saddr := load_bias s + v\<rparr>, s, h))))
      | Some (Inr (None, s)) \<Rightarrow>
          Some (res_bind (xdl_dsym_by_addr grant code files p s addr h) (\<lambda>(hit, s', h').
            case hit of
              None \<Rightarrow> Inr (info, s', h')
            | Some (b, k, i) \<Rightarrow>
                let sym = sym_view h' (b, k) i in
                res_bind (st_name sym) (\<lambda>n. res_bind (st_value sym) (\<lambda>v.
                  case x_strtab s' of
                    None \<Rightarrow> Inl Null_Deref
                  | Some st \<Rightarrow>
                      Inr (info\<lparr>ai_sname := Name_On_Heap (fst st, snd st + unat n), ai_saddr := load_bias s' + v\<rparr>, s', h'))))))"

fun find_cached :: "process \<Rightarrow> u64 \<Rightarrow> xdl_t list \<Rightarrow> nat option res" where
  "find_cached p addr [] = Inr None"
| "find_cached p addr (self # selfs) =
     res_bind (xdl_elf_is_match p (load_bias self) (x_phdr self) (x_phnum self) addr) (\<lambda>eq.
       if eq then Inr (Some 0) else res_bind (find_cached p addr selfs) (\<lambda>k. Inr (map_option Suc k)))"

text \<open>The cache is the list of handles, the newest first. The result is the information, or \<open>None\<close> for 0, with the cache
  and the heap, and whether the maps file is left open.\<close>

definition lookup_in :: "(nat \<Rightarrow> bool) \<Rightarrow> 'z lzma option \<Rightarrow> (string \<Rightarrow> u8 list option) \<Rightarrow> process \<Rightarrow> u64 \<Rightarrow> xdl_t list \<Rightarrow> c_heap \<Rightarrow> bool \<Rightarrow>
    nat \<Rightarrow> (addr_info option \<times> xdl_t list \<times> c_heap \<times> bool) res option" where
  "lookup_in grant code files p addr selfs h opened k =
     (case symbol_info grant code files p (selfs ! k) addr h of
        None \<Rightarrow> None
      | Some (Inl e) \<Rightarrow> Some (Inl e)
      | Some (Inr (info, s, h')) \<Rightarrow> Some (Inr (Some info, selfs[k := s], h', opened)))"

definition xdl_addr :: "(nat \<Rightarrow> bool) \<Rightarrow> 'z lzma option \<Rightarrow> (string \<Rightarrow> u8 list option) \<Rightarrow> xh_os \<Rightarrow> dl_env \<Rightarrow> process \<Rightarrow> u64 \<Rightarrow>
    xdl_t list \<Rightarrow> c_heap \<Rightarrow> (addr_info option \<times> xdl_t list \<times> c_heap \<times> bool) res option" where
  "xdl_addr grant code files os dl p addr selfs h =
     (if addr = 0 then Some (Inr (None, selfs, h, False))
      else case find_cached p addr selfs of
        Inl e \<Rightarrow> Some (Inl e)
      | Inr (Some k) \<Rightarrow> lookup_in grant code files p addr selfs h False k
      | Inr None \<Rightarrow>
          (case xdl_open_by_addr grant os dl p addr h of
             None \<Rightarrow> None
           | Some (Inl e) \<Rightarrow> Some (Inl e)
           | Some (Inr (None, h1, opened)) \<Rightarrow> Some (Inr (None, selfs, h1, opened))
           | Some (Inr (Some self, h1, opened)) \<Rightarrow> lookup_in grant code files p addr (self # selfs) h1 opened 0))"

fun xdl_addr_clean :: "xdl_t list \<Rightarrow> c_heap \<Rightarrow> c_heap res" where
  "xdl_addr_clean [] h = Inr h"
| "xdl_addr_clean (self # selfs) h = res_bind (xdl_close (Some self) h) (xdl_addr_clean selfs)"


section \<open>What a computation yields\<close>

text \<open>\<open>yields P x\<close>: if \<open>x\<close> is no fault, \<open>P\<close> holds of its value. The rules take a computation apart.\<close>

definition yields :: "('a \<Rightarrow> bool) \<Rightarrow> 'a res \<Rightarrow> bool" where
  "yields P x \<longleftrightarrow> (\<forall>y. x = Inr y \<longrightarrow> P y)"

named_theorems yields_intros

lemma yieldsD: "yields P x \<Longrightarrow> x = Inr y \<Longrightarrow> P y" by (simp add: yields_def)

lemma yields_leaf [yields_intros]: "yields P (Inl e)" "P y \<Longrightarrow> yields P (Inr y)" by (simp_all add: yields_def)

lemma yields_bind [yields_intros]: "(\<And>y. x = Inr y \<Longrightarrow> yields P (f y)) \<Longrightarrow> yields P (res_bind x f)"
  by (cases x) (auto simp: yields_def)

lemma yields_if [yields_intros]: "(c \<Longrightarrow> yields P x) \<Longrightarrow> (\<not> c \<Longrightarrow> yields P y) \<Longrightarrow> yields P (if c then x else y)"
  by simp

lemma yields_option [yields_intros]:
  "(m = None \<Longrightarrow> yields P x) \<Longrightarrow> (\<And>y. m = Some y \<Longrightarrow> yields P (f y)) \<Longrightarrow> yields P (case m of None \<Rightarrow> x | Some y \<Rightarrow> f y)"
  by (cases m) auto

lemma yields_prod [yields_intros]: "(\<And>a b. z = (a, b) \<Longrightarrow> yields P (f a b)) \<Longrightarrow> yields P (case z of (a, b) \<Rightarrow> f a b)"
  by (cases z) auto

section \<open>What stays of a handle\<close>

text \<open>\<open>same_id\<close>: the object a handle stands for; \<open>same_dyn\<close>: what has been read of its dynamic section.\<close>

definition same_id :: "xdl_t \<Rightarrow> xdl_t \<Rightarrow> bool" where
  "same_id s t \<longleftrightarrow> x_self s = x_self t \<and> x_pathname s = x_pathname t \<and> load_bias s = load_bias t \<and>
     x_phdr s = x_phdr t \<and> x_phnum s = x_phnum t"

definition same_dyn :: "xdl_t \<Rightarrow> xdl_t \<Rightarrow> bool" where
  "same_dyn s t \<longleftrightarrow> same_id s t \<and> dynsym_try_load s = dynsym_try_load t \<and> dynsym s = dynsym t \<and> dynstr s = dynstr t \<and>
     sysv_chains_cnt s = sysv_chains_cnt t \<and> gnu_buckets s = gnu_buckets t \<and> gnu_buckets_cnt s = gnu_buckets_cnt t \<and>
     gnu_chains s = gnu_chains t \<and> gnu_symoffset s = gnu_symoffset t"

text \<open>A handle that has not been loaded has nothing to search in.\<close>

definition handle_ok :: "xdl_t \<Rightarrow> bool" where
  "handle_ok s \<longleftrightarrow> (\<not> dynsym_try_load s \<longrightarrow> dynsym s = 0) \<and> (\<not> symtab_try_load s \<longrightarrow> x_symtab s = None)"

lemma same_dyn_refl [simp]: "same_dyn s s" by (simp add: same_dyn_def same_id_def)
lemma same_dyn_trans: "same_dyn s t \<Longrightarrow> same_dyn t u \<Longrightarrow> same_dyn s u" by (simp add: same_dyn_def same_id_def)
lemma same_object_id: "same_object s t \<Longrightarrow> same_id s t" by (simp add: same_object_def same_id_def)
lemma same_dyn_id: "same_dyn s t \<Longrightarrow> same_id s t" by (simp add: same_dyn_def)
lemma same_id_trans: "same_id s t \<Longrightarrow> same_id t u \<Longrightarrow> same_id s u" by (simp add: same_id_def)

subsection \<open>Reading the dynamic section\<close>

lemma dyn_entry_flag: "xdl_dyn_entry p entry d_tag self = Inr s \<Longrightarrow> dynsym_try_load s = dynsym_try_load self"
  by (auto simp: xdl_dyn_entry_def Let_def res_bind_Inr_iff split: if_splits)

lemma dyn_loop_flag:
  assumes "xdl_dyn_loop p entry self = Some r"
  shows "\<forall>s. r = Inr s \<longrightarrow> dynsym_try_load s = dynsym_try_load self"
proof (rule xdl_dyn_loop.raw_induct [OF _ assms])
  fix f and p :: process and entry self and r :: "xdl_t res"
  assume IH: "\<And>p entry self r. f p entry self = Some r \<Longrightarrow> \<forall>s. r = Inr s \<longrightarrow> dynsym_try_load s = dynsym_try_load self"
    and eq: "(if entry = 0 then Some (Inr self)
      else case load64 p entry of
        Inl e \<Rightarrow> Some (Inl e)
      | Inr d_tag \<Rightarrow>
          if d_tag = DT_NULL then Some (Inr self)
          else (case xdl_dyn_entry p entry d_tag self of
             Inl e \<Rightarrow> Some (Inl e) | Inr self' \<Rightarrow> f p (entry + 16) self')) = Some r"
  from eq show "\<forall>s. r = Inr s \<longrightarrow> dynsym_try_load s = dynsym_try_load self"
    by (auto split: if_splits sum.splits dest: IH dyn_entry_flag)
qed

lemma load_once_done:
  assumes "load_dynsym_once p self = Some (Inr (r, s))" and "handle_ok self"
  shows "dynsym_try_load s \<and> (r \<noteq> 0 \<longrightarrow> dynsym s = 0) \<and> handle_ok s \<and> load_dynsym_once p s = Some (Inr (0, s))"
proof (cases "dynsym_try_load self")
  case True
  then show ?thesis using assms by (auto simp: load_dynsym_once_def)
next
  case False
  define self1 where "self1 = self\<lparr>dynsym_try_load := True\<rparr>"
  have l: "xdl_dynsym_load p self1 = Some (Inr (r, s))" using assms(1) False by (simp add: load_dynsym_once_def self1_def)
  have t: "dynsym_try_load self1" "dynsym self1 = 0" using assms(2) False by (auto simp: self1_def handle_ok_def)
  have "dynsym_try_load u" if "xdl_dyn_loop p e self1 = Some (Inr u)" for u e using dyn_loop_flag [OF that] t(1) by simp
  then have "dynsym_try_load s \<and> (r \<noteq> 0 \<longrightarrow> dynsym s = 0)" using l t
    by (auto simp: xdl_dynsym_load_def split: sum.splits option.splits if_splits)
  moreover have "symtab_try_load s = symtab_try_load self \<and> x_symtab s = x_symtab self"
    using load_once_same [OF assms(1)] by (simp add: same_object_def)
  ultimately show ?thesis using assms(2) by (simp add: handle_ok_def load_dynsym_once_def)
qed

subsection \<open>Reading the symbol table\<close>

text \<open>Failing to load a table leaves the table of the handle as it was.\<close>

definition kept :: "bool \<Rightarrow> xdl_t \<Rightarrow> xdl_t \<Rightarrow> bool" where
  "kept ok s t \<longleftrightarrow> same_dyn s t \<and> symtab_try_load s = symtab_try_load t \<and> (\<not> ok \<longrightarrow> x_symtab s = x_symtab t)"

lemma kept_refl [simp]: "kept ok s s" by (simp add: kept_def)

lemma kept_trans: "kept False t u \<Longrightarrow> kept ok s t \<Longrightarrow> kept ok s u"
  by (auto simp: kept_def intro: same_dyn_trans)

lemma kept_upd [simp]:
  "kept ok s (t\<lparr>x_debugdata := d\<rparr>) = kept ok s t" "kept ok (s\<lparr>x_debugdata := d\<rparr>) t = kept ok s t"
  "kept ok s (t\<lparr>x_base := b\<rparr>) = kept ok s t" "kept ok (s\<lparr>x_base := b\<rparr>) t = kept ok s t"
  by (simp_all add: kept_def same_dyn_def same_id_def)

lemma set_symtab_kept: "yields (\<lambda>s. kept True s self) (set_symtab h shdrs i j sy st self)"
  unfolding set_symtab_def by (intro yields_intros) (auto simp: kept_def same_dyn_def same_id_def)

lemma debug_loop_kept: "yields (\<lambda>(ok, s). kept ok s self) (debug_loop h b sz shdrs shstrtab shnum is self)"
proof (induction "is")
  case (Cons i "is")
  have "kept True s self" if "set_symtab h shdrs i j sy st self = Inr s" for j sy st s
    using yieldsD [OF set_symtab_kept that] .
  then show ?case using Cons unfolding debug_loop.simps by (intro yields_intros) auto
qed (simp add: yields_def)

lemma debug_sections_kept: "yields (\<lambda>(ok, s). kept ok s self) (debug_sections h b sz self)"
  unfolding debug_sections_def Let_def by (intro yields_intros debug_loop_kept) auto

lemma debugdata_kept:
  "yields (\<lambda>(ok, s, h'). kept ok s self) (xdl_symtab_load_from_debugdata grant code elf_file shdrs i self h)"
proof -
  have "kept ok s self"
    if "(if r \<noteq> 0 then Inr (False, self\<lparr>x_debugdata := dst\<rparr>)
       else case dst of None \<Rightarrow> Inl Null_Deref | Some b \<Rightarrow> debug_sections h2 b sz (self\<lparr>x_debugdata := dst\<rparr>)) = Inr (ok, s)"
    for r :: int and dst h2 sz ok s
    using that yieldsD [OF debug_sections_kept] by (fastforce split: if_splits option.splits)
  then show ?thesis unfolding xdl_symtab_load_from_debugdata_def Let_def
    by (intro yields_intros) auto
qed

lemma symtab_section_kept:
  "yields (\<lambda>(ok, s, h'). kept ok s self) (symtab_section grant code elf_file shdrs shstrtab shnum i self h)"
proof -
  have "kept True s self" if "set_symtab h2 shdrs i j sy st self = Inr s" for h2 j sy st s
    using yieldsD [OF set_symtab_kept that] .
  then show ?thesis unfolding symtab_section_def by (intro yields_intros debugdata_kept) auto
qed

lemma symtab_loop_kept:
  "yields (\<lambda>(ok, s, h'). kept ok s self) (symtab_loop grant code elf_file shdrs shstrtab shnum is self h)"
proof (induction "is" arbitrary: self h)
  case (Cons i "is")
  have s: "kept ok s1 self" if "symtab_section grant code elf_file shdrs shstrtab shnum i self h = Inr (ok, s1, h1)" for ok s1 h1
    using yieldsD [OF symtab_section_kept that] by simp
  have l: "kept ok s self" if "kept False s1 self" "symtab_loop grant code elf_file shdrs shstrtab shnum is s1 h1 = Inr (ok, s, h2)"
    for s1 h1 ok s h2
    using kept_trans [OF that(1)] yieldsD [OF Cons.IH that(2)] by simp
  show ?case unfolding yields_def
  proof clarsimp
    fix ok s h' assume "res_bind (symtab_section grant code elf_file shdrs shstrtab shnum i self h) (\<lambda>(ok, self', h').
        if ok then Inr (True, self', h') else symtab_loop grant code elf_file shdrs shstrtab shnum is self' h') = Inr (ok, s, h')"
    then obtain ok1 s1 h1 where 1: "symtab_section grant code elf_file shdrs shstrtab shnum i self h = Inr (ok1, s1, h1)"
      and 2: "(if ok1 then Inr (True, s1, h1) else symtab_loop grant code elf_file shdrs shstrtab shnum is s1 h1) = Inr (ok, s, h')"
      by (auto simp: res_bind_Inr_iff)
    show "kept ok s self"
    proof (cases ok1)
      case True
      then show ?thesis using s [OF 1] 2 by simp
    next
      case False
      then show ?thesis using l [of s1 h1 ok s h'] s [OF 1] 2 by simp
    qed
  qed
qed (simp add: yields_def)

lemma symtab_load_kept: "yields (\<lambda>(r, s, h'). kept (r = 0) s self) (xdl_symtab_load grant code files p self h)"
proof -
  have "kept ok s self" if "symtab_loop grant code elf_file shdrs shstrtab shnum is (self\<lparr>x_base := b\<rparr>) h2 = Inr (ok, s, h3)"
    for elf_file shdrs shstrtab shnum "is" b h2 ok s h3
    using yieldsD [OF symtab_loop_kept that] by simp
  then show ?thesis unfolding xdl_symtab_load_def Let_def by (intro yields_intros) auto
qed

lemma load_symtab_done:
  assumes "load_symtab_once grant code files p self h = Inr (r, s, h')" and "handle_ok self"
  shows "same_dyn s self \<and> symtab_try_load s \<and> (r \<noteq> 0 \<longrightarrow> x_symtab s = None) \<and> handle_ok s \<and>
    load_symtab_once grant code files p s h' = Inr (0, s, h')"
proof (cases "symtab_try_load self")
  case True
  then show ?thesis using assms by (simp add: load_symtab_once_def)
next
  case False
  have "kept (r = 0) s (self\<lparr>symtab_try_load := True\<rparr>)"
    using yieldsD [OF symtab_load_kept, of grant code files p _ h "(r, s, h')"] assms(1) False by (simp add: load_symtab_once_def)
  then show ?thesis using assms(2) False
    by (auto simp: kept_def handle_ok_def load_symtab_once_def same_dyn_def same_id_def)
qed

subsection \<open>Searching depends on what was read\<close>

lemma search_same:
  assumes "same_dyn s t"
  shows "search_by_addr p s offset = search_by_addr p t offset"
proof -
  have d: "dynsym s = dynsym t" "gnu_buckets s = gnu_buckets t" "gnu_symoffset s = gnu_symoffset t" "gnu_chains s = gnu_chains t"
    "gnu_buckets_cnt s = gnu_buckets_cnt t" "sysv_chains_cnt s = sysv_chains_cnt t"
    using assms by (simp_all add: same_dyn_def)
  have "gnu_by_addr p s offset is = gnu_by_addr p t offset is" for "is"
    by (induction "is") (simp_all add: d cong: sum.case_cong option.case_cong if_cong)
  moreover have "sysv_by_addr p s offset is = sysv_by_addr p t offset is" for "is"
    by (induction "is") (simp_all add: d dynsym_at_def cong: if_cong)
  ultimately show ?thesis by (simp add: search_by_addr_def d)
qed

text \<open>The symbols of a bucket that starts with \<open>n\<close>: up to the first whose hash word has the lowest bit set.\<close>

inductive in_bucket :: "process \<Rightarrow> u64 \<Rightarrow> u32 \<Rightarrow> u32 \<Rightarrow> bool" for p chains_all where
  here: "in_bucket p chains_all n n"
| behind: "load32 p (chains_all + ucast n * 4) = Inr w \<Longrightarrow> w AND 1 = 0 \<Longrightarrow> in_bucket p chains_all (n + 1) i \<Longrightarrow> in_bucket p chains_all n i"

text \<open>The entries of the dynamic symbol table, as far as the hash table of the object tells which there are.\<close>

definition in_dynsym :: "process \<Rightarrow> xdl_t \<Rightarrow> u32 \<Rightarrow> bool" where
  "in_dynsym p s i \<longleftrightarrow>
     (if 0 < gnu_buckets_cnt s
      then \<exists>b<unat (gnu_buckets_cnt s). \<exists>n. load32 p (gnu_buckets s + word_of_nat b * 4) = Inr n \<and> gnu_symoffset s \<le> n \<and>
        in_bucket p (gnu_chains s - ucast (gnu_symoffset s) * 4) n i
      else i < sysv_chains_cnt s)"

lemma bucket_by_addr_hit:
  assumes "bucket_by_addr p syms chains_all offset n = Some r"
  shows "\<forall>i. r = Inr (Some i) \<longrightarrow> xdl_sym_is_match (mem_view p (syms + ucast i * 24)) offset False = Inr True \<and> in_bucket p chains_all n i"
proof (rule bucket_by_addr.raw_induct [OF _ assms])
  fix f and p :: process and syms chains_all offset n and r :: "u32 option res"
  assume IH: "\<And>p syms chains_all offset n r. f p syms chains_all offset n = Some r \<Longrightarrow>
      \<forall>i. r = Inr (Some i) \<longrightarrow> xdl_sym_is_match (mem_view p (syms + ucast i * 24)) offset False = Inr True \<and> in_bucket p chains_all n i"
    and eq: "(case xdl_sym_is_match (mem_view p (syms + ucast n * 24)) offset False of
        Inl e \<Rightarrow> Some (Inl e)
      | Inr eq \<Rightarrow>
          if eq then Some (Inr (Some n))
          else (case load32 p (chains_all + ucast n * 4) of
             Inl e \<Rightarrow> Some (Inl e)
           | Inr w \<Rightarrow> if w AND 1 = 0 then f p syms chains_all offset (n + 1) else Some (Inr None))) = Some r"
  then show "\<forall>i. r = Inr (Some i) \<longrightarrow> xdl_sym_is_match (mem_view p (syms + ucast i * 24)) offset False = Inr True \<and> in_bucket p chains_all n i"
    by (auto split: if_splits sum.splits dest: IH intro: in_bucket.intros)
qed

lemma gnu_by_addr_hit:
  "gnu_by_addr p s offset is = Some (Inr (Some i)) \<Longrightarrow> xdl_sym_is_match (mem_view p (dynsym_at s i)) offset False = Inr True \<and>
    (\<exists>b\<in>set is. \<exists>n. load32 p (gnu_buckets s + word_of_nat b * 4) = Inr n \<and> gnu_symoffset s \<le> n \<and>
       in_bucket p (gnu_chains s - ucast (gnu_symoffset s) * 4) n i)"
proof (induction "is")
  case (Cons k "is")
  obtain n where n: "load32 p (gnu_buckets s + word_of_nat k * 4) = Inr n" using Cons.prems by (auto split: sum.splits)
  show ?case
  proof (cases "n < gnu_symoffset s")
    case True
    then show ?thesis using Cons n by auto
  next
    case False
    then obtain r where r: "bucket_by_addr p (dynsym s) (gnu_chains s - ucast (gnu_symoffset s) * 4) offset n = Some r"
      using Cons.prems n by (auto split: option.splits)
    show ?thesis
    proof (cases "r = Inr None")
      case True
      then show ?thesis using Cons n r False by auto
    next
      case False
      then have "r = Inr (Some i)" using Cons.prems n r \<open>\<not> n < gnu_symoffset s\<close> by (auto split: sum.splits option.splits)
      then show ?thesis using bucket_by_addr_hit [OF r] n \<open>\<not> n < gnu_symoffset s\<close> by (auto simp: dynsym_at_def not_less)
    qed
  qed
qed simp

lemma sysv_by_addr_hit:
  "sysv_by_addr p s offset is = Inr (Some i) \<Longrightarrow>
    xdl_sym_is_match (mem_view p (dynsym_at s i)) offset False = Inr True \<and> (\<exists>k\<in>set is. i = word_of_nat k)"
  by (induction "is") (auto simp: res_bind_Inr_iff split: if_splits)

lemma search_hit:
  assumes "search_by_addr p s offset = Some (Inr (Some i))"
  shows "xdl_sym_is_match (mem_view p (dynsym_at s i)) offset False = Inr True \<and> in_dynsym p s i"
proof (cases "0 < gnu_buckets_cnt s")
  case True
  then have "gnu_by_addr p s offset [0..<unat (gnu_buckets_cnt s)] = Some (Inr (Some i))" using assms by (simp add: search_by_addr_def)
  from gnu_by_addr_hit [OF this] True show ?thesis by (auto simp: in_dynsym_def)
next
  case False
  then have "sysv_by_addr p s offset [0..<unat (sysv_chains_cnt s)] = Inr (Some i)"
    using assms by (auto simp: search_by_addr_def split: if_splits)
  from sysv_by_addr_hit [OF this] obtain k where "xdl_sym_is_match (mem_view p (dynsym_at s i)) offset False = Inr True"
    "k < unat (sysv_chains_cnt s)" "i = word_of_nat k" by auto
  then show ?thesis using False unsigned_less [of "sysv_chains_cnt s", where 'a = nat]
    by (simp add: in_dynsym_def word_less_nat_alt unat_of_nat)
qed


section \<open>The answers of \<open>xdl_addr\<close>\<close>

abbreviation covers :: "process \<Rightarrow> xdl_t \<Rightarrow> u64 \<Rightarrow> bool res" where
  "covers p s addr \<equiv> xdl_elf_is_match p (load_bias s) (x_phdr s) (x_phnum s) addr"

text \<open>A symbol table entry (\<open>st_name\<close> is \<open>n\<close>, \<open>st_value\<close> is \<open>v\<close>) that is not for thread-local storage and whose range,
  \<open>st_size\<close> bytes from \<open>st_value\<close> on, holds \<open>offset\<close>.\<close>

definition entry_holds :: "view \<Rightarrow> u64 \<Rightarrow> u32 \<Rightarrow> u64 \<Rightarrow> bool" where
  "entry_holds e offset n v \<longleftrightarrow> st_name e = Inr n \<and> st_value e = Inr v \<and>
     (\<exists>sz inf. st_size e = Inr sz \<and> st_info e = Inr inf \<and> inf AND 0xF \<noteq> STT_TLS \<and> v \<le> offset \<and> offset < v + sz)"

text \<open>What is said of the symbol, with the tables of the handle \<open>s\<close> in memory and on the heap: none, or the name and address of
  an entry of the dynamic symbol table, or of the full one, whose range holds the address.\<close>

definition symbol_holds :: "process \<Rightarrow> c_heap \<Rightarrow> xdl_t \<Rightarrow> addr_info \<Rightarrow> u64 \<Rightarrow> bool" where
  "symbol_holds p h s info addr \<longleftrightarrow> ai_sname info = No_Name \<and> ai_saddr info = 0 \<or>
     (\<exists>n v. ai_saddr info = load_bias s + v \<and>
       ((\<exists>i. in_dynsym p s i \<and> entry_holds (mem_view p (dynsym_at s i)) (addr - load_bias s) n v \<and>
           ai_sname info = Name_In_Memory (dynstr s + ucast n)) \<or>
        (\<exists>sy st i. x_symtab s = Some sy \<and> x_strtab s = Some st \<and> i < unat (x_symtab_cnt s) \<and>
           entry_holds (sym_view h sy i) (addr - load_bias s) n v \<and>
           ai_sname info = Name_On_Heap (fst st, snd st + unat n))))"

lemma match_range:
  assumes "xdl_sym_is_match e offset is_symtab = Inr True" and "st_name e = Inr n" and "st_value e = Inr v"
  shows "entry_holds e offset n v"
  using assms by (auto simp: xdl_sym_is_match_def entry_holds_def res_bind_Inr_iff split: if_splits)

text \<open>The address is in a loaded segment of the object of the handle: \<open>p_vaddr\<close> at 16 and \<open>p_memsz\<close> at 40 of a program header.\<close>

definition in_segment :: "process \<Rightarrow> xdl_t \<Rightarrow> u64 \<Rightarrow> bool" where
  "in_segment p s addr \<longleftrightarrow> load_bias s \<le> addr \<and>
     (\<exists>i<unat (x_phnum s). \<exists>va sz. load32 p (x_phdr s + word_of_nat i * 56) = Inr PT_LOAD \<and>
        load64 p (x_phdr s + word_of_nat i * 56 + 16) = Inr va \<and> load64 p (x_phdr s + word_of_nat i * 56 + 40) = Inr sz \<and>
        va \<le> addr - load_bias s \<and> addr - load_bias s < va + sz)"

lemma elf_match_loop_segment:
  "elf_match_loop p ph n vaddr = Inr True \<Longrightarrow>
    \<exists>i<n. \<exists>va sz. load32 p (ph + word_of_nat i * 56) = Inr PT_LOAD \<and> load64 p (ph + word_of_nat i * 56 + 16) = Inr va \<and>
      load64 p (ph + word_of_nat i * 56 + 40) = Inr sz \<and> va \<le> vaddr \<and> vaddr < va + sz"
proof (induction n arbitrary: ph)
  case (Suc n)
  have sh: "ph + word_of_nat (Suc i) * 56 = ph + 56 + word_of_nat i * 56" for i by (simp add: algebra_simps)
  consider va sz where "load32 p ph = Inr PT_LOAD" "load64 p (ph + 16) = Inr va" "load64 p (ph + 40) = Inr sz"
      "va \<le> vaddr" "vaddr < va + sz"
    | "elf_match_loop p (ph + 56) n vaddr = Inr True"
    using Suc.prems by (auto simp: res_bind_Inr_iff split: if_splits)
  then show ?case
  proof cases
    case 1
    then show ?thesis by (intro exI [of _ 0]) auto
  next
    case 2
    from Suc.IH [OF this] show ?thesis unfolding Ex_less_Suc2 sh by blast
  qed
qed simp

lemma covers_segment: "covers p s addr = Inr True \<Longrightarrow> in_segment p s addr"
  using elf_match_loop_segment by (fastforce simp: xdl_elf_is_match_def in_segment_def not_less split: if_splits)

lemma dsym_loop_hit:
  "dsym_by_addr_loop h sy offset is = Inr (Some i) \<Longrightarrow> xdl_sym_is_match (sym_view h sy i) offset True = Inr True \<and> i \<in> set is"
  by (induction "is") (auto simp: res_bind_Inr_iff split: if_splits)

lemma sym_by_addr_done:
  assumes "xdl_sym_by_addr p self addr = Some (Inr (hit, s))" and "handle_ok self"
  shows "same_id s self \<and> handle_ok s \<and> (\<forall>t. same_dyn t s \<longrightarrow> xdl_sym_by_addr p t addr = Some (Inr (hit, t))) \<and>
    (\<forall>i. hit = Some i \<longrightarrow> xdl_sym_is_match (mem_view p (dynsym_at s i)) (addr - load_bias s) False = Inr True \<and> in_dynsym p s i)"
proof -
  from assms(1) obtain r where l: "load_dynsym_once p self = Some (Inr (r, s))"
    and k: "(if r \<noteq> 0 then Some (Inr (None, s))
          else if dynsym s = 0 then Some (Inr (None, s))
          else (case search_by_addr p s (addr - load_bias s) of
             None \<Rightarrow> None | Some (Inl e) \<Rightarrow> Some (Inl e) | Some (Inr hit) \<Rightarrow> Some (Inr (hit, s)))) = Some (Inr (hit, s))"
    by (auto simp: xdl_sym_by_addr_def split: option.splits sum.splits if_splits)
  note d = load_once_done [OF l assms(2)]
  have h: "hit = None \<and> dynsym s = 0 \<or> dynsym s \<noteq> 0 \<and> search_by_addr p s (addr - load_bias s) = Some (Inr hit)"
    using k d by (auto split: if_splits option.splits sum.splits)
  have "xdl_sym_by_addr p t addr = Some (Inr (hit, t))" if "same_dyn t s" for t
  proof -
    have "dynsym_try_load t" "dynsym t = dynsym s" "load_bias t = load_bias s"
      using that d by (simp_all add: same_dyn_def same_id_def)
    then show ?thesis using h search_same [OF that] by (auto simp: xdl_sym_by_addr_def load_dynsym_once_def)
  qed
  moreover have "same_id s self" using load_once_same [OF l] by (rule same_object_id)
  ultimately show ?thesis using d h search_hit by auto
qed

text \<open>The information on a symbol names the object of the handle, is true of the address, and is found again with the
  handle as it is left.\<close>

lemma symbol_info_done:
  assumes "symbol_info grant code files p self addr h = Some (Inr (info, s, h'))" and "handle_ok self"
  shows "same_id s self \<and> handle_ok s \<and> ai_fname info = snd (x_pathname self) \<and> ai_fbase info = load_bias self \<and>
    symbol_holds p h' s info addr \<and> symbol_info grant code files p s addr h' = Some (Inr (info, s, h'))"
proof -
  let ?base = "\<lparr>ai_fname = snd (x_pathname self), ai_fbase = load_bias self, ai_sname = No_Name, ai_saddr = 0\<rparr>"
  from assms(1) obtain hit s1 where 1: "xdl_sym_by_addr p self addr = Some (Inr (hit, s1))"
    by (auto simp: symbol_info_def Let_def split: option.splits sum.splits)
  note d1 = sym_by_addr_done [OF 1 assms(2)]
  show ?thesis
  proof (cases hit)
    case (Some i)
    then obtain n v where n: "st_name (mem_view p (dynsym_at s1 i)) = Inr n" "st_value (mem_view p (dynsym_at s1 i)) = Inr v"
      and info: "info = ?base\<lparr>ai_sname := Name_In_Memory (dynstr s1 + ucast n), ai_saddr := load_bias s1 + v\<rparr>" "s = s1" "h' = h"
      using assms(1) 1 by (auto simp: symbol_info_def Let_def res_bind_Inr_iff simp del: sym_fields_mem)
    have b: "load_bias s1 = load_bias self" "x_pathname s1 = x_pathname self" using d1 by (auto simp: same_id_def)
    have "xdl_sym_is_match (mem_view p (dynsym_at s1 i)) (addr - load_bias s1) False = Inr True" "in_dynsym p s1 i" using d1 Some by blast+
    from match_range [OF this(1) n] this(2) have "symbol_holds p h' s info addr"
      unfolding symbol_holds_def info by (intro disjI2 exI [of _ n] exI [of _ v] conjI disjI1 exI [of _ i]) simp_all
    moreover have "symbol_info grant code files p s addr h' = Some (Inr (info, s, h'))"
      using d1 Some n info b by (simp add: symbol_info_def Let_def del: sym_fields_mem)
    ultimately show ?thesis using d1 info b by simp
  next
    case None
    then obtain hit2 h2 where 2: "xdl_dsym_by_addr grant code files p s1 addr h = Inr (hit2, s, h2)" "h2 = h'"
      and k: "(case hit2 of None \<Rightarrow> Inr (?base, s, h')
        | Some (b, k, i) \<Rightarrow>
            res_bind (st_name (sym_view h' (b, k) i)) (\<lambda>n. res_bind (st_value (sym_view h' (b, k) i)) (\<lambda>v.
              case x_strtab s of None \<Rightarrow> Inl Null_Deref
              | Some st \<Rightarrow> Inr (?base\<lparr>ai_sname := Name_On_Heap (fst st, snd st + unat n), ai_saddr := load_bias s + v\<rparr>, s, h')))) =
        Inr (info, s, h')"
    proof -
      assume *: "\<And>hit2 h2. xdl_dsym_by_addr grant code files p s1 addr h = Inr (hit2, s, h2) \<Longrightarrow> h2 = h' \<Longrightarrow>
        (case hit2 of None \<Rightarrow> Inr (?base, s, h')
        | Some (b, k, i) \<Rightarrow>
            res_bind (st_name (sym_view h' (b, k) i)) (\<lambda>n. res_bind (st_value (sym_view h' (b, k) i)) (\<lambda>v.
              case x_strtab s of None \<Rightarrow> Inl Null_Deref
              | Some st \<Rightarrow> Inr (?base\<lparr>ai_sname := Name_On_Heap (fst st, snd st + unat n), ai_saddr := load_bias s + v\<rparr>, s, h')))) =
        Inr (info, s, h') \<Longrightarrow> thesis"
      obtain hit2 s2 h2 where d: "xdl_dsym_by_addr grant code files p s1 addr h = Inr (hit2, s2, h2)"
        using assms(1) 1 None by (cases "xdl_dsym_by_addr grant code files p s1 addr h") (auto simp: symbol_info_def)
      then have e: "s2 = s" "h2 = h'"
        using assms(1) 1 None by (auto simp: symbol_info_def Let_def res_bind_Inr_iff split: option.splits)
      show thesis by (rule * [OF d [unfolded e]]) (use assms(1) [unfolded symbol_info_def Let_def] 1 None d e in simp_all)
    qed
    obtain r where l: "load_symtab_once grant code files p s1 h = Inr (r, s, h')"
      and hit2: "hit2 = None \<and> (r \<noteq> 0 \<or> x_symtab s = None) \<or>
        (\<exists>sy k. r = 0 \<and> x_symtab s = Some sy \<and> dsym_by_addr_loop h' sy (addr - load_bias s) [0..<unat (x_symtab_cnt s)] = Inr k \<and>
          hit2 = map_option (\<lambda>i. (fst sy, snd sy, i)) k)"
      using 2 by (auto simp: xdl_dsym_by_addr_def res_bind_Inr_iff split: if_splits option.splits)
    note d2 = load_symtab_done [OF l d1 [THEN conjunct2, THEN conjunct1]]
    have id: "same_id s self" using d1 d2 same_id_trans same_dyn_id by blast
    have b: "load_bias s = load_bias self" "x_pathname s = x_pathname self" using id by (simp_all add: same_id_def)
    have again: "xdl_sym_by_addr p s addr = Some (Inr (None, s))" using d1 d2 None by blast
    have "xdl_dsym_by_addr grant code files p s addr h' = Inr (hit2, s, h')"
      using d2 hit2 by (auto simp: xdl_dsym_by_addr_def)
    then have i: "symbol_info grant code files p s addr h' = Some (Inr (info, s, h'))"
      using again k [folded b] unfolding symbol_info_def Let_def by simp
    have "symbol_holds p h' s info addr \<and> ai_fname info = snd (x_pathname self) \<and> ai_fbase info = load_bias self"
    proof (cases hit2)
      case None
      then show ?thesis using k by (auto simp: symbol_holds_def)
    next
      case (Some x)
      then obtain sy i where sy: "dsym_by_addr_loop h' sy (addr - load_bias s) [0..<unat (x_symtab_cnt s)] = Inr (Some i)"
        "x = (fst sy, snd sy, i)" "x_symtab s = Some sy" using hit2 by (auto simp: eq_commute [of "Some x"])
      then obtain n v st where n: "st_name (sym_view h' sy i) = Inr n" "st_value (sym_view h' sy i) = Inr v"
        and st: "x_strtab s = Some st"
        and info: "info = ?base\<lparr>ai_sname := Name_On_Heap (fst st, snd st + unat n), ai_saddr := load_bias s + v\<rparr>"
        using k Some by (auto simp: res_bind_Inr_iff split: option.splits)
      have sx: "x_symtab s = Some sy" using sy(3) .
      from dsym_loop_hit [OF sy(1)] match_range [OF _ n] have "entry_holds (sym_view h' sy i) (addr - load_bias s) n v"
        "i < unat (x_symtab_cnt s)" by auto
      then have "symbol_holds p h' s info addr" unfolding symbol_holds_def info
        by (intro disjI2 exI [of _ n] exI [of _ v] conjI disjI2 exI [of _ sy] exI [of _ st] exI [of _ i]) (simp_all add: sx st)
      then show ?thesis using info b by simp
    qed
    then show ?thesis using id d2 i by simp
  qed
qed

lemma find_cached_some:
  "find_cached p addr selfs = Inr (Some k) \<Longrightarrow> k < length selfs \<and> covers p (selfs ! k) addr = Inr True \<and>
    (\<forall>s. same_id s (selfs ! k) \<longrightarrow> find_cached p addr (selfs[k := s]) = Inr (Some k))"
proof (induction selfs arbitrary: k)
  case (Cons self selfs)
  show ?case
  proof (cases "covers p self addr = Inr True")
    case True
    then show ?thesis using Cons.prems by (auto simp: same_id_def)
  next
    case False
    then obtain j where "covers p self addr = Inr False" "find_cached p addr selfs = Inr (Some j)" "k = Suc j"
      using Cons.prems by (auto simp: res_bind_Inr_iff split: if_splits)
    then show ?thesis using Cons.IH [of j] by auto
  qed
qed simp

lemma open_by_addr_covers:
  assumes "xdl_open_by_addr grant os dl p addr h = Some (Inr (Some self, h', opened))"
  shows "covers p self addr = Inr True \<and> handle_ok self"
proof -
  let ?I = "\<lambda>s. op_mem s = p \<and> op_self s = None"
  let ?Q = "\<lambda>s. op_self s = None \<or> covers p (the (op_self s)) addr = Inr True \<and> handle_ok (the (op_self s))"
  from assms obtain s r where w: "xdl_iterate_phdr os dl op_mem (xdl_open_by_addr_iterate_cb grant addr)
      (XDL_FULL_PATHNAME OR XDL_WITH_LINKER) \<lparr>op_mem = p, op_heap = h, op_self = None\<rparr> = Some (Inr r, s, opened)" "op_self s = Some self"
    by (auto simp: xdl_open_by_addr_def split: if_splits option.splits sum.splits)
  have cb: "if r = 0 then ?I s' else ?Q s'"
    if "?I s" "reported os dl (XDL_FULL_PATHNAME OR XDL_WITH_LINKER) (op_mem s) info"
      "xdl_open_by_addr_iterate_cb grant addr info s = Some (Inr r, s')" for info s r s'
    using that(1,3)
    by (auto simp: xdl_open_by_addr_iterate_cb_def found_def new_handle_def handle_ok_def res_bind_Inr_iff
        split: sum.splits option.splits if_splits prod.splits)
  have "?I s \<or> ?Q s" by (rule iterate_rule [where I = ?I and Q = ?Q, OF cb _ w(1)]) simp_all
  with w(2) show ?thesis by auto
qed

lemma lookup_in_done:
  assumes "lookup_in grant code files p addr selfs h o1 k = Some (Inr (oi, selfs', h', o2))"
    and "k < length selfs" and "handle_ok (selfs ! k)" and "covers p (selfs ! k) addr = Inr True"
  shows "\<exists>info s. oi = Some info \<and> selfs' = selfs[k := s] \<and> same_id s (selfs ! k) \<and> handle_ok s \<and> o2 = o1 \<and>
    ai_fname info = snd (x_pathname s) \<and> ai_fbase info = load_bias s \<and> symbol_holds p h' s info addr \<and>
    covers p s addr = Inr True \<and> load_bias s \<le> addr \<and>
    lookup_in grant code files p addr selfs' h' False k = Some (Inr (Some info, selfs', h', False))"
proof -
  from assms(1) obtain info s where s: "symbol_info grant code files p (selfs ! k) addr h = Some (Inr (info, s, h'))"
    and r: "oi = Some info" "selfs' = selfs[k := s]" "o2 = o1"
    by (auto simp: lookup_in_def split: option.splits sum.splits prod.splits)
  note d = symbol_info_done [OF s assms(3)]
  have id: "load_bias s = load_bias (selfs ! k)" "x_pathname s = x_pathname (selfs ! k)" "covers p s addr = Inr True"
    using d assms(4) by (simp_all add: same_id_def)
  have "load_bias s \<le> addr" using id(3) by (auto simp: xdl_elf_is_match_def split: if_splits)
  moreover have "lookup_in grant code files p addr selfs' h' False k = Some (Inr (Some info, selfs', h', False))"
    using d r assms(2) by (simp add: lookup_in_def)
  ultimately show ?thesis using d r id by auto
qed

lemma xdl_addr_cases:
  assumes "xdl_addr grant code files os dl p addr selfs h = Some (Inr (Some info, selfs', h', opened))"
    and "\<forall>s\<in>set selfs. handle_ok s"
  obtains selfs1 h1 o1 k where "lookup_in grant code files p addr selfs1 h1 o1 k = Some (Inr (Some info, selfs', h', opened))"
    and "addr \<noteq> 0" and "k < length selfs1" and "\<forall>s\<in>set selfs1. handle_ok s" and "covers p (selfs1 ! k) addr = Inr True"
    and "\<forall>s. same_id s (selfs1 ! k) \<longrightarrow> find_cached p addr (selfs1[k := s]) = Inr (Some k)"
proof -
  have a: "addr \<noteq> 0" using assms(1) by (auto simp: xdl_addr_def)
  show thesis
  proof (cases "\<exists>k. find_cached p addr selfs = Inr (Some k)")
    case True
    then obtain k where k: "find_cached p addr selfs = Inr (Some k)" by blast
    then have "lookup_in grant code files p addr selfs h False k = Some (Inr (Some info, selfs', h', opened))"
      using assms(1) a by (simp add: xdl_addr_def)
    then show thesis by (rule that) (use a assms(2) find_cached_some [OF k] in auto)
  next
    case False
    then obtain self h1 o1 where op: "xdl_open_by_addr grant os dl p addr h = Some (Inr (Some self, h1, o1))"
      and l: "lookup_in grant code files p addr (self # selfs) h1 o1 0 = Some (Inr (Some info, selfs', h', opened))"
      using assms(1) a by (auto simp: xdl_addr_def split: sum.splits option.splits)
    from open_by_addr_covers [OF op] have c: "covers p self addr = Inr True" "handle_ok self" by auto
    have "find_cached p addr ((self # selfs)[0 := s]) = Inr (Some 0)" if "same_id s self" for s
      using c(1) that by (simp add: same_id_def)
    then show thesis by (intro that [OF l]) (use a assms(2) c in auto)
  qed
qed

section \<open>Properties of the lookup by address\<close>

text \<open>C39. What \<open>xdl_addr\<close> says of an address is true: the name and the base are those of a handle of the cache that has the address in
  one of its loaded segments, and the base is not above it; if a symbol is given, its name and address are those of an entry of the
  dynamic symbol table of the object, or of its full one, whose \<open>st_size\<close> bytes hold the address.\<close>

theorem xdl_addr_sound:
  assumes "xdl_addr grant code files os dl p addr selfs h = Some (Inr (Some info, selfs', h', opened))"
    and "\<forall>s\<in>set selfs. handle_ok s"
  shows "\<exists>s\<in>set selfs'. in_segment p s addr \<and> ai_fname info = snd (x_pathname s) \<and> ai_fbase info = load_bias s \<and>
    load_bias s \<le> addr \<and> symbol_holds p h' s info addr"
proof -
  from xdl_addr_cases [OF assms] obtain selfs1 h1 o1 k where
    l: "lookup_in grant code files p addr selfs1 h1 o1 k = Some (Inr (Some info, selfs', h', opened))"
    and k: "k < length selfs1" "handle_ok (selfs1 ! k)" "covers p (selfs1 ! k) addr = Inr True" by (metis nth_mem)
  from lookup_in_done [OF l k] obtain s where s: "selfs' = selfs1[k := s]" "covers p s addr = Inr True"
    "ai_fname info = snd (x_pathname s)" "ai_fbase info = load_bias s" "load_bias s \<le> addr" "symbol_holds p h' s info addr" by auto
  then have "s \<in> set selfs'" using k(1) by (simp add: set_update_memI)
  with s covers_segment show ?thesis by blast
qed

text \<open>C40. The cache of handles is coherent: asking again for an address that was resolved gives the same answer from the
  cache, without a new handle, a file or the memory map being opened, and changes neither the cache nor the heap.\<close>

theorem xdl_addr_cached:
  assumes "xdl_addr grant code files os dl p addr selfs h = Some (Inr (Some info, selfs', h', opened))"
    and "\<forall>s\<in>set selfs. handle_ok s"
  shows "xdl_addr grant code files os dl p addr selfs' h' = Some (Inr (Some info, selfs', h', False)) \<and>
    (\<forall>s\<in>set selfs'. handle_ok s)"
proof -
  from xdl_addr_cases [OF assms] obtain selfs1 h1 o1 k where
    l: "lookup_in grant code files p addr selfs1 h1 o1 k = Some (Inr (Some info, selfs', h', opened))" and a: "addr \<noteq> 0"
    and k: "k < length selfs1" "covers p (selfs1 ! k) addr = Inr True" and ok: "\<forall>s\<in>set selfs1. handle_ok s"
    and f: "\<forall>s. same_id s (selfs1 ! k) \<longrightarrow> find_cached p addr (selfs1[k := s]) = Inr (Some k)" by metis
  have "handle_ok (selfs1 ! k)" using ok k(1) by simp
  from lookup_in_done [OF l k(1) this k(2)] obtain s where s: "selfs' = selfs1[k := s]" "same_id s (selfs1 ! k)" "handle_ok s"
    "lookup_in grant code files p addr selfs' h' False k = Some (Inr (Some info, selfs', h', False))" by auto
  have "\<forall>t\<in>set selfs'. handle_ok t" using s(1,3) ok set_update_subset_insert [of selfs1 k s] by auto
  moreover have "find_cached p addr selfs' = Inr (Some k)" using f s(1,2) by simp
  ultimately show ?thesis using a s(4) by (simp add: xdl_addr_def)
qed


subsection \<open>An address of the sample library\<close>

definition xdl_env :: dl_env where
  "xdl_env = \<lparr>dl_objects = Some [xdl_info], device_level = 30, build_prop = None\<rparr>"

definition empty_heap :: c_heap where
  "empty_heap = \<lparr>h_blocks = \<lambda>_. None, h_next = 0\<rparr>"

definition xdl_sample_heap :: c_heap where
  "xdl_sample_heap = \<lparr>h_blocks = [0 \<mapsto> replicate 192 0, 1 \<mapsto> map of_char ''/l.so'' @ [0]], h_next = 2\<rparr>"

definition xdl_sample_info :: addr_info where
  "xdl_sample_info = \<lparr>ai_fname = ''/l.so'', ai_fbase = 0x10000, ai_sname = Name_In_Memory 0x10308, ai_saddr = 0x10800\<rparr>"

lemma xdl_sample_match: "xdl_elf_is_match xdl_lib 0x10000 0x10040 2 0x10810 = Inr True"
proof -
  have l: "load64 xdl_lib 0x10050 = Inr 0" "load64 xdl_lib 0x10068 = Inr 0x1000"
    by (simp_all add: xdl_loads word_map_def xdl_words_def sample_words_def)
  have "elf_match_loop xdl_lib 0x10040 (Suc (Suc 0)) 0x810 = Inr True" by (simp add: xdl_dyn_words PT_LOAD_def l)
  then show ?thesis by (simp add: xdl_elf_is_match_def flip: numeral_2_eq_2)
qed

lemma xdl_sample_new: "new_handle (\<lambda>_. True) xdl_info empty_heap = Inr (Some xdl_self, xdl_sample_heap)"
  by (simp add: new_handle_def h_malloc_def empty_heap_def xdl_info_def xdl_self_def xdl_sample_heap_def)

lemma xdl_sample_open: "xdl_open_by_addr (\<lambda>_. True) walk_os xdl_env xdl_lib 0x10810 empty_heap =
    Some (Inr (Some xdl_self, xdl_sample_heap, False))"
proof -
  have lvl: "api_level_of xdl_env = 30" by (simp add: api_level_of_def xdl_env_def xdl_util_get_api_level_def)
  have i: "dlpi_addr xdl_info = 0x10000" "dlpi_name xdl_info = Some ''/l.so''" "dlpi_phdr xdl_info = 0x10040" "dlpi_phnum xdl_info = 2"
    by (simp_all add: xdl_info_def)
  have f: "fix_phdrs xdl_lib xdl_info = Inr xdl_info" "fix_name walk_os xdl_lib fl xdl_info o1 = (Inr (Some xdl_info), o1)" for fl o1
    by (simp_all add: fix_phdrs_def fix_name_def i)
  have c: "xdl_open_by_addr_iterate_cb (\<lambda>_. True) 0x10810 xdl_info \<lparr>op_mem = xdl_lib, op_heap = empty_heap, op_self = None\<rparr> =
      Some (Inr 1, \<lparr>op_mem = xdl_lib, op_heap = xdl_sample_heap, op_self = Some xdl_self\<rparr>)"
    by (simp add: xdl_open_by_addr_iterate_cb_def xdl_sample_match i found_def xdl_sample_new)
  have o: "dl_objects xdl_env = Some [xdl_info]" by (simp add: xdl_env_def)
  show ?thesis
    by (simp add: xdl_open_by_addr_def xdl_iterate_phdr_def xdl_iterate_by_linker_def lvl o xdl_iterate_by_linker_cb_def i f c)
qed

lemma xdl_sample_by_addr: "xdl_sym_by_addr xdl_lib xdl_self 0x10810 = Some (Inr (Some 1, xdl_loaded))"
proof -
  have b: "load_bias xdl_loaded = 0x10000" "dynsym xdl_loaded = 0x10400" "sysv_chains_cnt xdl_loaded = 3" "gnu_buckets_cnt xdl_loaded = 0"
    by (simp_all add: xdl_loaded_def xdl_self_def)
  have m: "xdl_sym_is_match (mem_view xdl_lib 0x10400) 0x810 False = Inr False"
    "xdl_sym_is_match (mem_view xdl_lib 0x10418) 0x810 False = Inr True"
  proof -
    have l: "load16 xdl_lib 0x10406 = Inr 0" "load8 xdl_lib 0x10404 = Inr 0" "load64 xdl_lib 0x10408 = Inr 0" "load64 xdl_lib 0x10410 = Inr 0"
      "load16 xdl_lib 0x1041E = Inr 1" "load8 xdl_lib 0x1041C = Inr 0x12" "load64 xdl_lib 0x10420 = Inr 0x800" "load64 xdl_lib 0x10428 = Inr 0x40"
      by (simp_all add: xdl_loads load16_sparse_6 [where ws = xdl_words, folded xdl_lib_def] word_map_def xdl_words_def sample_words_def)
    show "xdl_sym_is_match (mem_view xdl_lib 0x10400) 0x810 False = Inr False"
      "xdl_sym_is_match (mem_view xdl_lib 0x10418) 0x810 False = Inr True"
      by (simp_all add: xdl_sym_is_match_def l STT_TLS_def)
  qed
  have "[0..<3] = [0, 1, 2 :: nat]" by (simp add: upt_rec)
  then have "sysv_by_addr xdl_lib xdl_loaded 0x810 [0..<3] = Inr (Some 1)"
    by (simp add: dynsym_at_def b m)
  then show ?thesis by (simp add: xdl_sym_by_addr_def xdl_sample_load b search_by_addr_def)
qed

lemma xdl_sample_addr:
  "xdl_addr (\<lambda>_. True) (None :: unit lzma option) (\<lambda>_. None) walk_os xdl_env xdl_lib 0x10810 [] empty_heap =
     Some (Inr (Some xdl_sample_info, [xdl_loaded], xdl_sample_heap, False))"
proof -
  have d: "dynsym_at xdl_loaded 1 = 0x10418" "dynstr xdl_loaded = 0x10300" "load_bias xdl_loaded = 0x10000" "load_bias xdl_self = 0x10000"
    "snd (x_pathname xdl_self) = ''/l.so''" by (simp_all add: dynsym_at_def xdl_loaded_def xdl_self_def)
  have n: "load32 xdl_lib 0x10418 = Inr 8" "load64 xdl_lib 0x10420 = Inr 0x800"
    by (simp_all add: xdl_loads word_map_def xdl_words_def sample_words_def)
  have "symbol_info (\<lambda>_. True) (None :: unit lzma option) (\<lambda>_. None) xdl_lib xdl_self 0x10810 xdl_sample_heap =
      Some (Inr (xdl_sample_info, xdl_loaded, xdl_sample_heap))"
    by (simp add: symbol_info_def xdl_sample_by_addr d n xdl_sample_info_def)
  then show ?thesis by (simp add: xdl_addr_def xdl_sample_open lookup_in_def)
qed

theorem xdl_addr_sound_witness:
  "in_segment xdl_lib xdl_loaded 0x10810 \<and> ai_fbase xdl_sample_info = load_bias xdl_loaded \<and>
   symbol_holds xdl_lib xdl_sample_heap xdl_loaded xdl_sample_info 0x10810"
  using xdl_addr_sound [OF xdl_sample_addr] by auto

theorem xdl_addr_cached_witness:
  "xdl_addr (\<lambda>_. True) (None :: unit lzma option) (\<lambda>_. None) walk_os xdl_env xdl_lib 0x10810 [xdl_loaded] xdl_sample_heap =
     Some (Inr (Some xdl_sample_info, [xdl_loaded], xdl_sample_heap, False))"
  using xdl_addr_cached [OF xdl_sample_addr] by auto

end
