(* ===== verification/Soload_Hooks.thy ===== *)
theory Soload_Hooks
  imports Xdl_Lzma
begin

text \<open>
  PLT hooks that follow the loading of libraries (\<open>cpp/PltGotHookProxy.h\<close>, 64-bit build): when tracking starts
  with a pattern every loaded library whose name matches has its imports of the allocation functions
  redirected to the proxies, and so has every library that is loaded later, because the loading functions
  themselves are hooked. Where the linker has put the functions and variables of \<open>libraphael.so\<close> is a
  parameter, from their names in the sources; the loading functions that are wrapped are another, and the
  regular expressions are one, as in the core of xHook. Locking the linker's mutex has no effect on the model.
\<close>

section \<open>Names\<close>

text \<open>A null name is none of these.\<close>

definition is_so_name :: "string option \<Rightarrow> bool" where
  "is_so_name name =
     (case name of
        None \<Rightarrow> False
      | Some s \<Rightarrow> let len = length s in
          if len > 3 then s ! (len - 1) = CHR ''o'' \<and> s ! (len - 2) = CHR ''s'' \<and> s ! (len - 3) = CHR ''.'' else False)"

definition is_self_so :: "string option \<Rightarrow> bool" where
  "is_self_so name = (case name of None \<Rightarrow> False | Some s \<Rightarrow> strstr s ''libraphael.so'')"

text \<open>The loop goes down to the position behind the last slash; the result begins with the slash.\<close>

fun slash_index :: "string \<Rightarrow> nat \<Rightarrow> nat" where
  "slash_index s 0 = 0"
| "slash_index s (Suc i) = (if s ! i = CHR ''/'' then Suc i else slash_index s i)"

definition pretty_name :: "string \<Rightarrow> string" where
  "pretty_name filename =
     (if strchr filename (CHR ''/'') = None then filename
      else drop (slash_index filename (length filename) - 1) filename)"

definition INTPTR_MAX :: u64 where "INTPTR_MAX = 0x7FFFFFFFFFFFFFFF"

definition get_so_base :: "process \<Rightarrow> dl_phdr_info \<Rightarrow> u64 res" where
  "get_so_base p info =
     res_bind (min_load_vaddr p (dlpi_phdr info) (unat (dlpi_phnum info)) INTPTR_MAX) (\<lambda>min_vaddr.
       Inr (if min_vaddr = INTPTR_MAX then 0 else dlpi_addr info + min_vaddr))"

section \<open>State\<close>

text \<open>Where the names of \<open>libraphael.so\<close> are.\<close>

type_synonym link_map = "string \<Rightarrow> u64"

record so_env =
  so_os :: xh_os
  so_link :: link_map
  so_grant :: "nat \<Rightarrow> bool"
  rx_compiles :: "string \<Rightarrow> bool"
  rx_matches :: "string \<Rightarrow> string \<Rightarrow> bool"

record so_world =
  so_mem :: process
  so_dl :: dl_env
  so_heap :: c_heap
  so_api_level :: int
  so_regex :: string
  use_regex :: bool
  is_hook_libdl_success :: bool
  so_dl_mutex :: u64
  dlopen_ext_N :: u64

section \<open>The tables of hooks\<close>

text \<open>The symbol to redirect, its proxy and the variable for the old function.\<close>

definition sPltGot :: "(string \<times> string) list" where
  "sPltGot = [(''malloc'', ''malloc_proxy''), (''calloc'', ''calloc_proxy''), (''realloc'', ''realloc_proxy''),
     (''memalign'', ''memalign_proxy''), (''free'', ''free_proxy''), (''mmap'', ''mmap_proxy''),
     (''mmap64'', ''mmap64_proxy''), (''munmap'', ''munmap_proxy''), (''pthread_exit'', ''pthread_exit_proxy'')]"

definition sSoLoad_O :: "(string \<times> string \<times> string) list" where
  "sSoLoad_O = [(''__loader_android_dlopen_ext'', ''android_dlopen_proxy_O'', ''android_dlopen_origin_O''),
     (''__loader_dlopen'', ''dlopen_proxy_O'', ''dlopen_origin_O'')]"

definition sSoLoad_N :: "(string \<times> string \<times> string) list" where
  "sSoLoad_N = [(''android_dlopen_ext'', ''android_dlopen_proxy_N'', ''android_dlopen_origin_N''),
     (''dlopen'', ''dlopen_proxy_N'', ''dlopen_origin_N'')]"

definition sSoLoad :: "(string \<times> string \<times> string) list" where
  "sSoLoad = [(''dlopen'', ''dlopen_proxy'', ''dlopen_origin'')]"

section \<open>Hooking one library\<close>

text \<open>The calls of \<open>xh_elf_hook\<close> for the entries of a table; their error numbers are ignored.\<close>

fun hook_table :: "xh_os \<Rightarrow> xh_elf_t \<Rightarrow> (string \<times> u64 \<times> u64) list \<Rightarrow> process \<Rightarrow> (unit res \<times> process) option" where
  "hook_table os elf [] p = Some (Inr (), p)"
| "hook_table os elf ((sy, new, old) # tab) p =
     (case xh_elf_hook os elf (Some (ascii sy)) new old p of
        None \<Rightarrow> None
      | Some (Inl e, p') \<Rightarrow> Some (Inl e, p')
      | Some (Inr code, p') \<Rightarrow> hook_table os elf tab p')"

definition alloc_table :: "link_map \<Rightarrow> (string \<times> u64 \<times> u64) list" where
  "alloc_table link = map (\<lambda>(sy, proxy). (sy, link proxy, 0)) sPltGot"

definition load_table :: "link_map \<Rightarrow> bool \<Rightarrow> (string \<times> string \<times> string) list \<Rightarrow> (string \<times> u64 \<times> u64) list" where
  "load_table link save_old_func tab = map (\<lambda>(sy, proxy, origin). (sy, link proxy, if save_old_func then link origin else 0)) tab"

text \<open>A call that changes the address space; a fault ends it with the state as it is then.\<close>

definition run_table :: "so_env \<Rightarrow> xh_elf_t \<Rightarrow> (string \<times> u64 \<times> u64) list \<Rightarrow> so_world \<Rightarrow> (unit res \<times> so_world) option" where
  "run_table E elf tab w =
     (case hook_table (so_os E) elf tab (so_mem w) of None \<Rightarrow> None | Some (r, p) \<Rightarrow> Some (r, w\<lparr>so_mem := p\<rparr>))"

definition so_then :: "(unit res \<times> so_world) option \<Rightarrow> (so_world \<Rightarrow> ('r res \<times> so_world) option) \<Rightarrow> ('r res \<times> so_world) option" where
  "so_then x k = (case x of None \<Rightarrow> None | Some (Inl e, w) \<Rightarrow> Some (Inl e, w) | Some (Inr u, w) \<Rightarrow> k w)"

definition tryHookAllFunc :: "so_env \<Rightarrow> xh_elf_t \<Rightarrow> so_world \<Rightarrow> (unit res \<times> so_world) option" where
  "tryHookAllFunc E elf = run_table E elf (alloc_table (so_link E))"

definition tryHookSoLoadFunc :: "so_env \<Rightarrow> xh_elf_t \<Rightarrow> bool \<Rightarrow> so_world \<Rightarrow> (unit res \<times> so_world) option" where
  "tryHookSoLoadFunc E elf save_old_func w =
     (if so_api_level w \<ge> 26 then
        if \<not> is_hook_libdl_success w \<and> (\<exists>path. pathname elf = Some path \<and> strstr path ''libdl.so'') then
          so_then (run_table E elf (load_table (so_link E) save_old_func sSoLoad_O) w) (\<lambda>w.
            Some (Inr (), w\<lparr>is_hook_libdl_success := True\<rparr>))
        else Some (Inr (), w)
      else if so_api_level w \<ge> 24 then
        if so_dl_mutex w \<noteq> 0 \<and> dlopen_ext_N w \<noteq> 0 then run_table E elf (load_table (so_link E) save_old_func sSoLoad_N) w
        else Some (Inr (), w)
      else run_table E elf (load_table (so_link E) save_old_func sSoLoad) w)"

section \<open>The callbacks\<close>

definition default_callback :: "so_env \<Rightarrow> string \<Rightarrow> u64 \<Rightarrow> so_world \<Rightarrow> (int res \<times> so_world) option" where
  "default_callback E name base w =
     (case xh_elf_init (so_mem w) zero_elf base (Some name) of
        (Inl e, elf) \<Rightarrow> Some (Inl e, w)
      | (Inr code, elf) \<Rightarrow>
          if code \<noteq> 0 then Some (Inr 0, w)
          else so_then (if \<not> use_regex w \<or> rx_matches E (so_regex w) name then tryHookAllFunc E elf w else Some (Inr (), w)) (\<lambda>w.
            so_then (tryHookSoLoadFunc E elf True w) (\<lambda>w. Some (Inr 0, w))))"

definition so_load_callback :: "so_env \<Rightarrow> string \<Rightarrow> u64 \<Rightarrow> string \<Rightarrow> so_world \<Rightarrow> (int res \<times> so_world) option" where
  "so_load_callback E name base filename w =
     (if strstr name filename \<or> strstr filename name then
        (case xh_elf_init (so_mem w) zero_elf base (Some name) of
           (Inl e, elf) \<Rightarrow> Some (Inl e, w)
         | (Inr code, elf) \<Rightarrow>
             if code \<noteq> 0 then Some (Inr 1, w)
             else so_then (tryHookAllFunc E elf w) (\<lambda>w. so_then (tryHookSoLoadFunc E elf False w) (\<lambda>w. Some (Inr 1, w))))
      else Some (Inr 0, w))"

definition common_callback :: "so_env \<Rightarrow> string option \<Rightarrow> u64 \<Rightarrow> string option \<Rightarrow> so_world \<Rightarrow> (int res \<times> so_world) option" where
  "common_callback E name base data w =
     (case name of
        None \<Rightarrow> Some (Inr 0, w)
      | Some nm \<Rightarrow>
          if base = 0 then Some (Inr 0, w)
          else if \<not> is_so_name name then Some (Inr 0, w)
          else if is_self_so name then Some (Inr 0, w)
          else case data of
            None \<Rightarrow> default_callback E nm base w
          | Some filename \<Rightarrow> so_load_callback E nm base filename w)"

definition dl_iterate_callback :: "so_env \<Rightarrow> string option \<Rightarrow> so_world callback" where
  "dl_iterate_callback E data info w =
     (case get_so_base (so_mem w) info of
        Inl e \<Rightarrow> Some (Inl e, w)
      | Inr base \<Rightarrow> common_callback E (dlpi_name info) base data w)"

section \<open>Loading and starting\<close>

text \<open>A walk with the callback; its result is ignored.\<close>

definition hook_walk :: "so_env \<Rightarrow> string option \<Rightarrow> so_world \<Rightarrow> (unit res \<times> so_world) option" where
  "hook_walk E data w =
     (case xdl_iterate_phdr (so_os E) (so_dl w) so_mem (dl_iterate_callback E data) XDL_FULL_PATHNAME w of
        None \<Rightarrow> None
      | Some (Inl e, w', opened) \<Rightarrow> Some (Inl e, w')
      | Some (Inr r, w', opened) \<Rightarrow> Some (Inr (), w'))"

text \<open>A null file name is no library name. The operator \<open>new\<close> never fails here.\<close>

definition try_pltgot_hook_on_soload :: "so_env \<Rightarrow> string option \<Rightarrow> so_world \<Rightarrow> (unit res \<times> so_world) option" where
  "try_pltgot_hook_on_soload E filename w =
     (if \<not> is_so_name filename then Some (Inr (), w)
      else if \<not> use_regex w \<or> rx_matches E (so_regex w) (the filename) then hook_walk E (Some (pretty_name (the filename))) w
      else Some (Inr (), w))"

text \<open>
  The proxies of the loading functions. A wrapped function gives a handle, or null, and the world with the
  library in it. Those of Android 7 call the linker's own function when the wrapped one refuses.
\<close>

type_synonym loader = "so_world \<Rightarrow> u64 \<times> so_world"

definition loaded :: "so_env \<Rightarrow> string option \<Rightarrow> u64 \<times> so_world \<Rightarrow> (u64 res \<times> so_world) option" where
  "loaded E filename = (\<lambda>(result, w).
     if result \<noteq> 0 then so_then (try_pltgot_hook_on_soload E filename w) (\<lambda>w. Some (Inr result, w))
     else Some (Inr result, w))"

definition dlopen_proxy :: "so_env \<Rightarrow> loader \<Rightarrow> string option \<Rightarrow> so_world \<Rightarrow> (u64 res \<times> so_world) option" where
  "dlopen_proxy E dlopen_origin filename w = loaded E filename (dlopen_origin w)"

definition dlopen_proxy_N :: "so_env \<Rightarrow> loader \<Rightarrow> loader \<Rightarrow> string option \<Rightarrow> so_world \<Rightarrow> (u64 res \<times> so_world) option" where
  "dlopen_proxy_N E dlopen_origin dlopen_ext filename w =
     (let (result, w1) = dlopen_origin w
      in loaded E filename (if result = 0 then dlopen_ext w1 else (result, w1)))"

text \<open>Asking for the linker's functions on Android 7.\<close>

definition find_dlopen_ext :: "so_env \<Rightarrow> so_world \<Rightarrow> (unit res \<times> so_world) option" where
  "find_dlopen_ext E w =
     (case xdl_open (so_grant E) (so_os E) (so_dl w) (so_mem w) (Some ''/system/bin/linker64'') (so_heap w) of
        None \<Rightarrow> None
      | Some (Inl e) \<Rightarrow> Some (Inl e, w)
      | Some (Inr (None, h, opened)) \<Rightarrow> Some (Inr (), w\<lparr>so_heap := h\<rparr>)
      | Some (Inr (Some dl, h, opened)) \<Rightarrow>
          (case xdl_sym (so_mem w) dl (ascii ''__dl__Z9do_dlopenPKciPK17android_dlextinfoPv'') of
             None \<Rightarrow> None
           | Some (Inl e) \<Rightarrow> Some (Inl e, w\<lparr>so_heap := h\<rparr>)
           | Some (Inr (a, dl1)) \<Rightarrow>
               (case xdl_sym (so_mem w) dl1 (ascii ''__dl__ZL10g_dl_mutex'') of
                  None \<Rightarrow> None
                | Some (Inl e) \<Rightarrow> Some (Inl e, w\<lparr>so_heap := h, dlopen_ext_N := a\<rparr>)
                | Some (Inr (m, dl2)) \<Rightarrow>
                    let w1 = w\<lparr>so_heap := h, dlopen_ext_N := a, so_dl_mutex := m\<rparr> in
                    (case xdl_close (Some dl2) h of
                       Inl e \<Rightarrow> Some (Inl e, w1)
                     | Inr h' \<Rightarrow> Some (Inr (), w1\<lparr>so_heap := h'\<rparr>)))))"

definition registerSoLoadProxy :: "so_env \<Rightarrow> string option \<Rightarrow> so_world \<Rightarrow> (unit res \<times> so_world) option" where
  "registerSoLoadProxy E focused w0 =
     (let w1 = w0\<lparr>so_api_level := device_level (so_dl w0)\<rparr>;
          w2 = (case focused of None \<Rightarrow> w1 | Some re \<Rightarrow> w1\<lparr>so_regex := re, use_regex := rx_compiles E re\<rparr>)
      in so_then (if so_api_level w2 \<ge> 24 \<and> so_api_level w2 < 26 then find_dlopen_ext E w2 else Some (Inr (), w2)) (\<lambda>w.
         hook_walk E None w))"

section \<open>Cells of pointers\<close>

text \<open>Distinct aligned cells do not overlap.\<close>

lemma aligned_disjoint:
  assumes "take_bit 3 a = (0 :: u64)" and "take_bit 3 b = 0" and "a \<noteq> b"
  shows "region a 8 \<inter> region b 8 = {}"
proof -
  have "x AND NOT 7 = a" if "x \<in> region a 8" "take_bit 3 a = (0 :: u64)" for x a
    using that aligned_parts(2) by (auto elim!: region_memE)
  then show ?thesis using assms by blast
qed

text \<open>The address spaces that differ from \<open>p0\<close> at most in the contents of the cells at \<open>C\<close>.\<close>

definition stable :: "u64 set \<Rightarrow> process \<Rightarrow> process \<Rightarrow> bool" where
  "stable C p0 p \<longleftrightarrow> prots p = prots p0 \<and> (\<forall>x. x \<notin> (\<Union>a\<in>C. region a 8) \<longrightarrow> cells p x = cells p0 x) \<and>
     (\<forall>a\<in>C. \<forall>i<8. cells p (a + word_of_nat i) \<noteq> None)"

lemma stable_replaced:
  assumes "stable C p0 p" and "a \<in> C" and "b \<in> C \<or> b = 0"
  shows "stable C p0 (replaced a v b u p)"
proof -
  let ?c = "if b = 0 then cells p else write_bytes b (map Some (le64 u)) (cells p)"
  have "write_bytes a (map Some (le64 v)) ?c x = cells p0 x" if "x \<notin> (\<Union>a\<in>C. region a 8)" for x
    using that assms by (auto simp: cells_after_store(1) stable_def)
  moreover have "write_bytes a (map Some (le64 v)) ?c x \<noteq> None" if "cells p x \<noteq> None" for x
    using that stored_mapped [of ?c x a v] stored_mapped [of "cells p" x b u] by auto
  ultimately show ?thesis using assms(1) unfolding stable_def replaced_def by auto
qed

lemma load_replaced:
  assumes "load64 p a = Inr cur" and "take_bit 3 a = 0" and "b = 0 \<or> take_bit 3 b = 0 \<and> a \<noteq> b"
  shows "load64 (replaced a v b u p) a = Inr v"
    and "take_bit 3 d = 0 \<Longrightarrow> d \<noteq> a \<Longrightarrow> b = 0 \<or> d \<noteq> b \<Longrightarrow> load64 p d = Inr w \<Longrightarrow> load64 (replaced a v b u p) d = Inr w"
proof -
  let ?c = "if b = 0 then cells p else write_bytes b (map Some (le64 u)) (cells p)"
  have rd: "readable (replaced a v b u p) x" if "readable p x" for x
    using that stored_mapped [of ?c x a v] stored_mapped [of "cells p" x b u] by (auto simp: readable_def replaced_def)
  show "load64 (replaced a v b u p) a = Inr v"
    using assms(1) rd unfolding load64_iff by (simp add: cells_after_store(2) replaced_def)
  assume d: "take_bit 3 d = 0" "d \<noteq> a" "b = 0 \<or> d \<noteq> b" and w: "load64 p d = Inr w"
  have "cells (replaced a v b u p) (d + word_of_nat i) = cells p (d + word_of_nat i)" if "i < 8" for i
  proof -
    have "d + word_of_nat i \<notin> region a 8" "b = 0 \<or> d + word_of_nat i \<notin> region b 8"
      using region_memI [OF that, of d] aligned_disjoint [of d a] aligned_disjoint [of d b] d assms(2,3) by auto
    then show ?thesis by (auto simp: replaced_def cells_after_store(1))
  qed
  then show "load64 (replaced a v b u p) d = Inr w" using w rd unfolding load64_iff by simp
qed

section \<open>Imports\<close>

text \<open>
  The PLT of \<open>elf\<close> imports a symbol through the cell at \<open>slot\<close>: the symbol table has it, its relocation is not the
  first one, and the protection of the cell is known; and this does not depend on the contents of the cells
  at \<open>C\<close>. The same for a symbol that is not imported.
\<close>

definition imports_at :: "xh_os \<Rightarrow> u64 set \<Rightarrow> process \<Rightarrow> xh_elf_t \<Rightarrow> string \<Rightarrow> u64 \<Rightarrow> u64 \<Rightarrow> bool" where
  "imports_at os C p0 elf sy old slot \<longleftrightarrow>
     pathname elf \<noteq> None \<and> reldyn elf = 0 \<and> relandroid elf = 0 \<and> relplt elf \<noteq> 0 \<and> slot \<in> C \<and> base_addr elf \<le> slot \<and>
     unat (relplt elf) + unat (relplt_sz elf) < 2 ^ 64 \<and>
     (\<forall>p. stable C p0 p \<longrightarrow> slot_ok os elf slot old p \<and> (\<exists>cur. load64 p slot = Inr cur) \<and>
       (\<exists>symidx n k off ri. xh_elf_find_symidx_by_name p elf (ascii sy) = Some (Inr (Some symidx)) \<and>
          unat (relplt_sz elf) = n * unat (rel_size (is_use_rela elf)) \<and> others p elf symidx k \<and> k < n \<and>
          entry_is p elf (relplt elf) (Suc k) off ri \<and> rel_matches True symidx ri \<and> slot = bias_addr elf + off))"

definition lacks :: "u64 set \<Rightarrow> process \<Rightarrow> xh_elf_t \<Rightarrow> string \<Rightarrow> bool" where
  "lacks C p0 elf sy \<longleftrightarrow> pathname elf \<noteq> None \<and> (\<forall>p. stable C p0 p \<longrightarrow> xh_elf_find_symidx_by_name p elf (ascii sy) = Some (Inr None))"

lemma hook_import_step:
  assumes "honest_mprotect os" and "stable C p0 p" and "imports_at os C p0 elf sy old slot" and "new \<noteq> 0"
    and "\<forall>a\<in>C. take_bit 3 a = 0" and "old = 0 \<or> old \<in> C \<and> old \<noteq> slot"
  shows "\<exists>p'. xh_elf_hook os elf (Some (ascii sy)) new old p = Some (Inr 0, p') \<and> stable C p0 p' \<and> load64 p' slot = Inr new \<and>
    (\<forall>a w. take_bit 3 a = 0 \<and> a \<noteq> slot \<and> (old = 0 \<or> a \<noteq> old) \<and> load64 p a = Inr w \<longrightarrow> load64 p' a = Inr w)"
proof -
  note im = assms(3) [unfolded imports_at_def]
  from im assms(2) obtain symidx n k off ri cur where f: "xh_elf_find_symidx_by_name p elf (ascii sy) = Some (Inr (Some symidx))"
    and tab: "unat (relplt_sz elf) = n * unat (rel_size (is_use_rela elf))" "others p elf symidx k" "k < n"
      "entry_is p elf (relplt elf) (Suc k) off ri" "rel_matches True symidx ri" and slot: "slot = bias_addr elf + off"
    and cur: "load64 p slot = Inr cur" and ok: "slot_ok os elf slot old p" by blast
  define p' where "p' = (if cur = new then p else replaced slot new old cur p)"
  have "xh_elf_replace_function os elf slot new old p = (Inr 0, p')"
    using replace_function_step [OF assms(1) ok cur] cur by (simp add: p'_def xh_elf_replace_function_def)
  then have "hook_plt os elf new old symidx p = Some (Inr 0, p')"
    using plt_hooked [OF _ tab(1) _ tab(2-5)] im slot by simp
  then have h: "xh_elf_hook os elf (Some (ascii sy)) new old p = Some (Inr 0, p')"
    using hook_plt_only [OF _ assms(4) f] im by simp
  have c: "slot \<in> C" using im by blast
  have "stable C p0 p'" using assms(2,6) c by (auto simp: p'_def intro!: stable_replaced)
  moreover have "load64 p' slot = Inr new"
    using load_replaced(1) [OF cur] cur assms(5,6) c by (auto simp: p'_def)
  moreover have "load64 p' a = Inr w" if "take_bit 3 a = 0" "a \<noteq> slot" "old = 0 \<or> a \<noteq> old" "load64 p a = Inr w" for a w
    using load_replaced(2) [OF cur _ _ that(1-3)] that(4) assms(5,6) c by (auto simp: p'_def)
  ultimately show ?thesis using h by blast
qed

section \<open>Tables\<close>

text \<open>
  A layout: \<open>lay\<close> tells the cell through which a library (by path) imports a symbol, \<open>want\<close> the function meant for a
  cell, \<open>S\<close> the cells of imports and \<open>O\<close> those of the variables for old functions.
\<close>

record layout =
  lay :: "string \<Rightarrow> string \<Rightarrow> u64 option"
  want :: "u64 \<Rightarrow> u64"
  slots :: "u64 set"
  olds :: "u64 set"

abbreviation cells_of :: "layout \<Rightarrow> u64 set" where
  "cells_of L \<equiv> slots L \<union> olds L"

definition layout_ok :: "layout \<Rightarrow> bool" where
  "layout_ok L \<longleftrightarrow> (\<forall>a\<in>cells_of L. take_bit 3 a = 0) \<and> slots L \<inter> olds L = {}"

definition entry_fine :: "xh_os \<Rightarrow> layout \<Rightarrow> process \<Rightarrow> xh_elf_t \<Rightarrow> string \<times> u64 \<times> u64 \<Rightarrow> bool" where
  "entry_fine os L p0 elf = (\<lambda>(sy, new, old).
     case lay L (the (pathname elf)) sy of
       None \<Rightarrow> new \<noteq> 0 \<and> lacks (cells_of L) p0 elf sy
     | Some slot \<Rightarrow> new \<noteq> 0 \<and> slot \<in> slots L \<and> want L slot = new \<and> (old = 0 \<or> old \<in> olds L) \<and>
         imports_at os (cells_of L) p0 elf sy old slot)"

text \<open>The cells at \<open>H\<close> hold what is meant for them.\<close>

definition hooked :: "layout \<Rightarrow> u64 set \<Rightarrow> process \<Rightarrow> bool" where
  "hooked L H p \<longleftrightarrow> H \<subseteq> slots L \<and> (\<forall>a\<in>H. load64 p a = Inr (want L a))"

lemma hooked_Un [simp]: "hooked L (H \<union> K) p \<longleftrightarrow> hooked L H p \<and> hooked L K p"
  by (auto simp: hooked_def)

definition table_slots :: "layout \<Rightarrow> xh_elf_t \<Rightarrow> (string \<times> u64 \<times> u64) list \<Rightarrow> u64 set" where
  "table_slots L elf tab = {a. \<exists>sy \<in> fst ` set tab. lay L (the (pathname elf)) sy = Some a}"

lemma hook_table_fine:
  assumes "honest_mprotect os" and "layout_ok L" and "\<forall>e\<in>set tab. entry_fine os L p0 elf e"
    and "stable (cells_of L) p0 p" and "hooked L H p"
  shows "\<exists>p'. hook_table os elf tab p = Some (Inr (), p') \<and> stable (cells_of L) p0 p' \<and> hooked L (H \<union> table_slots L elf tab) p'"
  using assms(3-5)
proof (induction tab arbitrary: p H)
  case Nil
  then show ?case by (simp add: table_slots_def)
next
  case (Cons e tab)
  obtain sy new old where e: "e = (sy, new, old)" by (cases e)
  show ?case
  proof (cases "lay L (the (pathname elf)) sy")
    case None
    then have "xh_elf_hook os elf (Some (ascii sy)) new old p = Some (Inr 0, p)"
      using Cons.prems(1,2) by (auto simp: e entry_fine_def lacks_def xh_elf_hook_def)
    moreover have "table_slots L elf (e # tab) = table_slots L elf tab" using None by (auto simp: table_slots_def e)
    ultimately show ?thesis using Cons by (auto simp: e)
  next
    case (Some slot)
    then have s: "slot \<in> slots L" "want L slot = new" "old = 0 \<or> old \<in> olds L" "new \<noteq> 0"
      and im: "imports_at os (cells_of L) p0 elf sy old slot" using Cons.prems(1) by (auto simp: e entry_fine_def)
    have al: "\<forall>a\<in>cells_of L. take_bit 3 a = 0" and dj: "slots L \<inter> olds L = {}" using assms(2) by (auto simp: layout_ok_def)
    have "old = 0 \<or> old \<in> cells_of L \<and> old \<noteq> slot" using s dj by auto
    from hook_import_step [OF assms(1) Cons.prems(2) im s(4) al this] obtain p' where
      p': "xh_elf_hook os elf (Some (ascii sy)) new old p = Some (Inr 0, p')" "stable (cells_of L) p0 p'" "load64 p' slot = Inr new"
      and keep: "\<forall>a w. take_bit 3 a = 0 \<and> a \<noteq> slot \<and> (old = 0 \<or> a \<noteq> old) \<and> load64 p a = Inr w \<longrightarrow> load64 p' a = Inr w" by blast
    have "load64 p' a = Inr (want L a)" if "a \<in> H" for a
    proof (cases "a = slot")
      case False
      have h: "a \<in> slots L" "load64 p a = Inr (want L a)" using that Cons.prems(3) by (auto simp: hooked_def)
      then have "old = 0 \<or> a \<noteq> old" "take_bit 3 a = 0" using s(3) dj al by auto
      with keep False h(2) show ?thesis by blast
    qed (use p'(3) s(2) in simp)
    then have "hooked L (insert slot H) p'" using Cons.prems(3) p'(3) s(1,2) by (auto simp: hooked_def)
    moreover have "insert slot H \<union> table_slots L elf tab = H \<union> table_slots L elf (e # tab)"
      using Some by (auto simp: table_slots_def e)
    ultimately show ?thesis using Cons.IH [OF _ p'(2), of "insert slot H"] Cons.prems(1) p'(1)
      by (simp add: e del: hooked_Un)
  qed
qed

section \<open>One library\<close>

text \<open>The callback of the start for a library whose header is good and whose name matches: all its imports of the wrapped
  functions lead to the proxies, what was hooked before stays so, and nothing but the cells has changed.\<close>

lemma run_table_fine:
  assumes "honest_mprotect (so_os E)" and "layout_ok L" and "\<forall>e\<in>set tab. entry_fine (so_os E) L p0 elf e"
    and "stable (cells_of L) p0 (so_mem w)" and "hooked L H (so_mem w)"
  shows "\<exists>p'. run_table E elf tab w = Some (Inr (), w\<lparr>so_mem := p'\<rparr>) \<and> stable (cells_of L) p0 p' \<and>
    hooked L (H \<union> table_slots L elf tab) p'"
  using hook_table_fine [OF assms] by (auto simp: run_table_def)

lemma library_hooked:
  assumes "honest_mprotect (so_os E)" and "layout_ok L" and "stable (cells_of L) p0 (so_mem w)" and "hooked L H (so_mem w)"
    and "xh_elf_init (so_mem w) zero_elf base (Some name) = (Inr 0, elf)"
    and "\<not> use_regex w \<or> rx_matches E (so_regex w) name"
    and "\<forall>e\<in>set (alloc_table (so_link E)). entry_fine (so_os E) L p0 elf e"
    and "\<forall>tab\<in>{sSoLoad_O, sSoLoad_N, sSoLoad}. \<forall>e\<in>set (load_table (so_link E) True tab). entry_fine (so_os E) L p0 elf e"
  shows "\<exists>w'. default_callback E name base w = Some (Inr 0, w') \<and> stable (cells_of L) p0 (so_mem w') \<and>
    hooked L (H \<union> table_slots L elf (alloc_table (so_link E))) (so_mem w')"
proof -
  from run_table_fine [OF assms(1,2,7,3,4)] obtain p1 where p1: "tryHookAllFunc E elf w = Some (Inr (), w\<lparr>so_mem := p1\<rparr>)"
    "stable (cells_of L) p0 p1" "hooked L (H \<union> table_slots L elf (alloc_table (so_link E))) p1"
    unfolding tryHookAllFunc_def by blast
  have tab: "\<exists>p2. run_table E elf (load_table (so_link E) True tab) (w\<lparr>so_mem := p1\<rparr>) = Some (Inr (), w\<lparr>so_mem := p2\<rparr>) \<and>
      stable (cells_of L) p0 p2 \<and> hooked L (H \<union> table_slots L elf (alloc_table (so_link E))) p2"
    if "tab \<in> {sSoLoad_O, sSoLoad_N, sSoLoad}" for tab
  proof -
    let ?w = "w\<lparr>so_mem := p1\<rparr>"
    have "\<forall>e\<in>set (load_table (so_link E) True tab). entry_fine (so_os E) L p0 elf e" using assms(8) that by blast
    moreover have "stable (cells_of L) p0 (so_mem ?w)" "hooked L (H \<union> table_slots L elf (alloc_table (so_link E))) (so_mem ?w)"
      using p1(2,3) by simp_all
    ultimately have "\<exists>p'. run_table E elf (load_table (so_link E) True tab) ?w = Some (Inr (), ?w\<lparr>so_mem := p'\<rparr>) \<and>
        stable (cells_of L) p0 p' \<and>
        hooked L ((H \<union> table_slots L elf (alloc_table (so_link E))) \<union> table_slots L elf (load_table (so_link E) True tab)) p'"
      by (rule run_table_fine [OF assms(1,2)])
    then show ?thesis unfolding hooked_Un by auto
  qed
  have "\<exists>w'. tryHookSoLoadFunc E elf True (w\<lparr>so_mem := p1\<rparr>) = Some (Inr (), w') \<and> stable (cells_of L) p0 (so_mem w') \<and>
      hooked L (H \<union> table_slots L elf (alloc_table (so_link E))) (so_mem w')"
  proof -
    let ?fine = "\<lambda>p. stable (cells_of L) p0 p \<and> hooked L (H \<union> table_slots L elf (alloc_table (so_link E))) p"
    obtain pO where O: "run_table E elf (load_table (so_link E) True sSoLoad_O) (w\<lparr>so_mem := p1\<rparr>) = Some (Inr (), w\<lparr>so_mem := pO\<rparr>)"
      "?fine pO" using tab [of sSoLoad_O] by blast
    obtain pN where N: "run_table E elf (load_table (so_link E) True sSoLoad_N) (w\<lparr>so_mem := p1\<rparr>) = Some (Inr (), w\<lparr>so_mem := pN\<rparr>)"
      "?fine pN" using tab [of sSoLoad_N] by blast
    obtain p2 where P: "run_table E elf (load_table (so_link E) True sSoLoad) (w\<lparr>so_mem := p1\<rparr>) = Some (Inr (), w\<lparr>so_mem := p2\<rparr>)"
      "?fine p2" using tab [of sSoLoad] by blast
    show ?thesis
    proof (cases "24 \<le> so_api_level w")
      case True
      then show ?thesis using O N p1(2,3) by (simp add: tryHookSoLoadFunc_def so_then_def del: hooked_Un)
    next
      case False
      then show ?thesis using P by (simp add: tryHookSoLoadFunc_def del: hooked_Un)
    qed
  qed
  then obtain w' where w': "tryHookSoLoadFunc E elf True (w\<lparr>so_mem := p1\<rparr>) = Some (Inr (), w')" "stable (cells_of L) p0 (so_mem w')"
      "hooked L (H \<union> table_slots L elf (alloc_table (so_link E))) (so_mem w')" by blast
  have "default_callback E name base w = Some (Inr 0, w')" using p1(1) w'(1) assms(5,6) by (simp add: default_callback_def so_then_def)
  with w'(2,3) show ?thesis by blast
qed

end
