(* ===== verification/Spec2Isabelle.thy ===== *)
theory Spec2Isabelle
  imports Leak_Tracking Unwind64 Inline_Hook32 Run_Hook64 Unwind32 Hook_Core Xdl_Addr Soload_Hooks
begin

text \<open>
  A verification of Raphael, a detector of native memory leaks for Android (bytedance/memory-leak-detector). Paths of source
  files below are relative to \<open>library/src/main\<close>.

  \<^bold>\<open>The program.\<close> Raphael is loaded into an app and replaces its allocation functions (\<open>malloc\<close>, \<open>calloc\<close>, \<open>realloc\<close>, \<open>memalign\<close>,
  \<open>free\<close>, \<open>mmap\<close>, \<open>mmap64\<close>, \<open>munmap\<close>, \<open>pthread_exit\<close>) by proxies. A proxy calls the wrapped function; when the thread is not
  already inside the tracker and the configuration asks for the block, it takes a backtrace of the caller and records
  address, size and frames in a cache, or drops the record of a freed block. The leaks are what is left in the cache, which is
  written to a file with the symbols of the frames. There are two ways to install the proxies: by patching the code of the
  functions (inline hooks), or by replacing their addresses in the import tables of all loaded libraries (PLT hooks), which needs
  a walk over the loaded objects and symbol lookup.

  \<^bold>\<open>Theories.\<close> Each models a part of the code, in the order the code has it, with the facts that make it correct.

  \<^item> \<open>Raphael_Prelude\<close>, \<open>Byte_Memory\<close>, \<open>C_Text\<close>: machine integers as words, the faults a C execution can run into (a result is \<open>fault + 'a\<close>),
    pointer chains and the walk along them, bytes in memory and little-endian encodings, and text as \<open>fgets\<close>, \<open>strtoul\<close> and
    \<open>strstr\<close> see it.
  \<^item> \<open>Alloc_Pool\<close> (\<open>cpp/AllocPool.hpp\<close>, \<open>cpp/Cache.h\<close>): the free list of record nodes; \<open>apply\<close> and \<open>recycle\<close> undisturbed, and their
    compare-and-swap loops as a relation \<open>pool_step\<close> between states of any number of threads. Nodes are handed out once if no push falls
    into the window of a pop, and an ABA schedule shows that the condition is needed.
  \<^item> \<open>Leak_Cache\<close> (\<open>cpp/Cache.h\<close>): the locale \<open>leak_cache\<close>, the contract between the cache and the proxies: what each virtual operation
    does to the map from addresses to records, and to the space left.
  \<^item> \<open>Memory_Cache\<close> (\<open>cpp/MemoryCache.cpp\<close>, \<open>cpp/MemoryCache.h\<close>): the hash table of node chains at pointer level, and the report. The locale is
    interpreted with its table of operations; the records are the abstraction \<open>live\<close>, the invariant is \<open>cache_ok\<close>.
  \<^item> \<open>Hook_Proxy\<close> (\<open>cpp/HookProxy.h\<close>, \<open>cpp/Raphael.h\<close>): the configuration and the nine proxies over a table of virtual operations of the cache;
    the wrapped functions are the record \<open>libc\<close> of functions on a heap. \<open>Leak_Tracking\<close>: proxies and cache together, in the contract and
    instantiated with \<open>MemoryCache\<close>: transparency, the records are the tracked live blocks, and the overrun of the frame array that the
    five-bit depth field permits.
  \<^item> \<open>Unwind64\<close> (\<open>unwind64\<close>): the walk over frame records and the cache of stack bounds.
  \<^item> \<open>Ptrace32\<close>, \<open>Unwind32\<close> (\<open>unwind32\<close>): stack bounds from the text of \<open>/proc\<close> files, word reads, the search of the exception index, the
    interpreter of unwinding instructions and the frame loop.
  \<^item> \<open>Relocate32\<close>, \<open>Inline_Hook32\<close> (\<open>inline32\<close>): relocation of the head of an ARM or Thumb function to a trampoline, and the registry of
    inline hooks with the patching of code in byte memory.
  \<^item> \<open>Inline_Hook64\<close>, \<open>Run_Hook64\<close> (\<open>inline64\<close>): the arm64 fixers, the table of fix-ups, the trampoline pool and the patching; then a small
    semantics of the instructions involved, in which patched function and trampoline are run.
  \<^item> \<open>Proc_Maps\<close>, \<open>Elf_Reloc\<close>, \<open>Elf_Hook\<close>, \<open>Hook_Core\<close> (\<open>xHook\<close>): page protection from \<open>/proc/self/maps\<close>; the plain and the packed relocation
    iterator; reading a library's dynamic section, looking up symbols and replacing import slots; the registered hooks, the
    table of libraries kept in step with the memory map, the protection against faults and the refresh thread.
  \<^item> \<open>Symbol_Search\<close>: the locale \<open>chain_search\<close>, the contract of a search along a hash chain, interpreted for the ELF and GNU lookups of
    xHook and of xDL.
  \<^item> \<open>Dl_Iterate\<close>, \<open>Xdl_Handle\<close>, \<open>Xdl_Lzma\<close>, \<open>Xdl_Symtab\<close>, \<open>Xdl_Addr\<close> (\<open>xDL\<close>): the corrected walk over loaded objects; handles and exported symbols;
    unpacking of debug data; the full symbol table; from an address to library and symbol, with the cache of handles.

  \<^item> \<open>Soload_Hooks\<close> (\<open>cpp/PltGotHookProxy.h\<close>): the callbacks that apply \<open>xh_elf_hook\<close> with the table of proxies to each library the walk reports,
    and the wrappers of \<open>dlopen\<close> that do so for a library loaded later.

  \<^bold>\<open>State.\<close> A C struct is a record with its fields (\<open>AllocNode\<close>, \<open>AllocPool\<close>, \<open>inlineHookItem\<close>, \<open>xh_elf_t\<close>, \<open>xdl_t\<close>, ...); the static
  variables of a file are one record (\<open>proxy\<close>, \<open>hooks\<close>, \<open>xh_core\<close>, \<open>unwind_state\<close>, \<open>stack_cache\<close>), handed through explicitly. Pointers into a
  modelled array are indices or \<open>None\<close>; pointers into the address space are words, and reads through them go to a byte memory that
  faults where nothing is mapped or the page does not allow it (\<open>process\<close>), or to numbered heap blocks (\<open>c_heap\<close>), where double free
  and access outside a block are faults. Integers have their width and wrap.

  \<^bold>\<open>Bounds and fuel.\<close> Loops of the code are recursions on their data where they have one, functions with a measure where that is
  enough, and \<open>partial_function\<close> (option) where they may not end (chains and tables read from memory, callbacks); properties
  then state that they return. Where a loop has fuel, running out is the fault \<open>No_Return\<close> and a property shows that
  it does not happen: \<open>unpack_loop\<close> of \<open>Xdl_Lzma\<close> has 66 rounds, and the buffer doubles, so after at most 64 its size is 0 or refused
  (\<open>decompress_returns\<close>); \<open>pad_until\<close> of \<open>Inline_Hook64\<close> has the steps an alignment can need (\<open>trampoline_fits\<close>); \<open>scratch_reg\<close> of
  \<open>Relocate32\<close> looks at the registers 7 to 0, of which at most three are used (\<open>thumb_trampoline_shape\<close>). \<open>a64_run\<close> of \<open>Run_Hook64\<close> is no code of the program, and its
  properties say that a number of steps suffices. Lines are read into buffers of the size the code has (128, 512 and 1024
  characters); \<open>fgets\<close> splits longer lines, and the reader of \<open>Ptrace32\<close>, which has no such check, faults.

  \<^bold>\<open>Parameters.\<close> What is not code of the repository is an argument of the model: the wrapped C library functions, the answers of
  \<open>mprotect\<close>, \<open>mmap\<close>, \<open>sigaction\<close>, \<open>pthread_create\<close> and \<open>ptrace\<close>, the texts of \<open>/proc\<close> files, regular expressions, the objects that
  \<open>dl_iterate_phdr\<close> reports, the answer of \<open>__gnu_Unwind_Find_exidx\<close>, the contents of files, and the decoder of \<open>liblzma\<close>. What a property
  needs of them is a hypothesis, with a witness that meets it.

  \<^bold>\<open>Simplifications.\<close> A run of one operation under its mutex is one step (\<open>Hook_Core\<close>); flushing the instruction cache changes
  nothing. The ordinary load of \<open>d15_get_word\<close> (\<open>unwind32/ptrace.c\<close>) answers with its marker where it would fault, as the code
  expects of a handler that is not in the repository. Shifts by 32 and more, undefined in C, give 0 (\<open>uleb_loop\<close>). The text \<open>fix_name\<close> gives
  an object is a value, although the C pointer to it is dangling when the callback runs. The map line position
  that \<open>xh_core_refresh_impl\<close> may use unset is the fault \<open>Array_Overflow\<close>. \<open>sa_flags\<close>, which the code leaves unset, is an input.

  \<^bold>\<open>Not modelled.\<close> \<open>cpp/Raphael.cpp\<close> and \<open>cpp/xloader.cpp\<close> (JNI entry points and file copying), \<open>cpp/Logger.h\<close> and \<open>xHook/xh_log.c\<close>
  (logging), \<open>cpp/MapData.cpp\<close> (a class handed to \<open>write_trace\<close>, of which no operation is called), the registration tables at the end of
  \<open>cpp/HookProxy.h\<close>, freezing of threads in \<open>inline32/inlineHook.c\<close> (its calls are commented out), \<open>xdl_iterate_by_maps\<close> and the linker
  mutex of \<open>xDL/xdl_iterate.c\<close> (32-bit Android 4 and Android 5), the BSD macros \<open>xHook/queue.h\<close> and \<open>xHook/tree.h\<close>, and the Java,
  Python and demo code.
\<close>

end
